(* ===== verification/Prelude.thy ===== *)
theory Prelude
  imports Main "HOL-Library.Word"
begin

text \<open>
  Shared vocabulary of the development: the machine integers of the Rust sources as words, their
  big-endian byte forms (\<open>to_be_bytes\<close>/\<open>from_be_bytes\<close>), \<open>Instant\<close> and \<open>Duration\<close> as natural
  numbers of nanoseconds, \<open>std::collections::HashMap\<close> as an association list with one entry per
  key, and the sliding windows of instants that the rate limiters keep.

  A hash map's iteration order is unspecified in Rust. Here it is the order of the list, and every
  theorem quantifies over all well-formed lists, hence over all iteration orders.

  \<open>Instant::duration_since\<close> saturates at zero, as subtraction on \<open>nat\<close> does.
\<close>

unbundle bit_operations_syntax

named_theorems bytes \<open>reading back what a big-endian writer wrote\<close>
named_theorems table \<open>what a hash-table operation does to a lookup\<close>
named_theorems wf_table \<open>every hash-table operation keeps the one-entry-per-key shape\<close>

type_synonym u8 = "8 word"
type_synonym u16 = "16 word"
type_synonym u32 = "32 word"
type_synonym u64 = "64 word"
type_synonym ipv4 = "32 word"
type_synonym instant = nat
type_synonym duration = nat

abbreviation nanos_per_sec :: nat where
  "nanos_per_sec \<equiv> 1000000000"

definition from_secs :: "nat \<Rightarrow> duration" where
  "from_secs s = s * nanos_per_sec"

definition as_secs :: "duration \<Rightarrow> nat" where
  "as_secs d = d div nanos_per_sec"

lemma as_secs_from_secs [simp]: "as_secs (from_secs s) = s"
  by (simp add: as_secs_def from_secs_def)

text \<open>\<open>T::try_from(n).unwrap_or(T::MAX)\<close> on the unsigned types.\<close>

definition saturate_u8 :: "nat \<Rightarrow> u8" where
  "saturate_u8 n = (if n < 2 ^ 8 then of_nat n else 255)"

definition saturate_u16 :: "nat \<Rightarrow> u16" where
  "saturate_u16 n = (if n < 2 ^ 16 then of_nat n else 65535)"

definition saturate_u32 :: "nat \<Rightarrow> u32" where
  "saturate_u32 n = (if n < 2 ^ 32 then of_nat n else 4294967295)"

lemma unat_saturate_u8 [simp]: "unat (saturate_u8 n) = min n 255"
  by (simp add: saturate_u8_def unat_of_nat min_def)

lemma unat_saturate_u16 [simp]: "unat (saturate_u16 n) = min n 65535"
  by (simp add: saturate_u16_def unat_of_nat min_def)

lemma unat_saturate_u32 [simp]: "unat (saturate_u32 n) = min n 4294967295"
  by (simp add: saturate_u32_def unat_of_nat min_def)

section \<open>Big-endian bytes\<close>

definition u16_to_be :: "u16 \<Rightarrow> u8 list" where
  "u16_to_be w = [ucast (drop_bit 8 w), ucast w]"

definition u16_from_be :: "u8 \<Rightarrow> u8 \<Rightarrow> u16" where
  "u16_from_be a b = push_bit 8 (ucast a) OR ucast b"

definition u32_to_be :: "u32 \<Rightarrow> u8 list" where
  "u32_to_be w =
     [ucast (drop_bit 24 w), ucast (drop_bit 16 w), ucast (drop_bit 8 w), ucast w]"

definition u32_from_be :: "u8 \<Rightarrow> u8 \<Rightarrow> u8 \<Rightarrow> u8 \<Rightarrow> u32" where
  "u32_from_be a b c d =
     push_bit 24 (ucast a) OR push_bit 16 (ucast b) OR push_bit 8 (ucast c) OR ucast d"

lemma no_bit_beyond_u8 [simp]:
  "\<not> bit (b :: u8) (8 + n)" "\<not> bit (b :: u8) (16 + n)" "\<not> bit (b :: u8) (24 + n)"
  by (auto dest!: bit_imp_le_length)

lemma u16_from_to [bytes]: "u16_from_be (ucast (drop_bit 8 w)) (ucast w) = w"
  unfolding u16_from_be_def
  by (rule bit_word_eqI) (auto simp: bit_simps)

lemma u16_to_from [bytes]: "u16_to_be (u16_from_be a b) = [a, b]"
  unfolding u16_to_be_def u16_from_be_def
  by (auto intro!: bit_word_eqI simp: bit_simps)

lemma u32_from_to [bytes]:
  "u32_from_be (ucast (drop_bit 24 w)) (ucast (drop_bit 16 w)) (ucast (drop_bit 8 w)) (ucast w) = w"
proof (rule bit_word_eqI)
  fix n
  assume "n < LENGTH(32)"
  then show "bit (u32_from_be (ucast (drop_bit 24 w)) (ucast (drop_bit 16 w))
      (ucast (drop_bit 8 w)) (ucast w)) n = bit w n"
    unfolding u32_from_be_def
    by (cases "24 \<le> n"; cases "16 \<le> n"; cases "8 \<le> n") (auto simp: bit_simps)
qed

lemma u32_to_from [bytes]: "u32_to_be (u32_from_be a b c d) = [a, b, c, d]"
  unfolding u32_to_be_def u32_from_be_def
  by (auto intro!: bit_word_eqI simp: bit_simps)

lemma length_to_be [simp]: "length (u16_to_be w) = 2" "length (u32_to_be v) = 4"
  by (simp_all add: u16_to_be_def u32_to_be_def)

text \<open>A wire format: a writer and a reader that undoes it, whatever bytes follow the message.\<close>

locale wire_codec =
  fixes encode :: "'a \<Rightarrow> u8 list" and decode :: "u8 list \<Rightarrow> 'e + 'a" and sane :: "'a \<Rightarrow> bool"
    and trailing :: "'a \<Rightarrow> u8 list \<Rightarrow> bool"
  assumes decode_encode: "sane x \<Longrightarrow> trailing x rest \<Longrightarrow> decode (encode x @ rest) = Inr x"
    and trailing_nil: "trailing x []"
begin

lemma roundtrip: "sane x \<Longrightarrow> decode (encode x) = Inr x"
  using decode_encode [of x "[]"] trailing_nil by simp

lemma encode_inj: "sane x \<Longrightarrow> sane y \<Longrightarrow> encode x = encode y \<Longrightarrow> x = y"
  by (metis roundtrip sum.inject(2))

lemma prefix_free:
  assumes "sane x" "sane y" and "encode x = encode y @ rest" and "trailing y rest"
  shows "x = y"
proof -
  have "decode (encode x) = Inr y"
    using assms decode_encode [of y rest] by simp
  then show ?thesis using roundtrip [OF \<open>sane x\<close>] by simp
qed

end

section \<open>Hash maps\<close>

type_synonym ('k, 'v) hmap = "('k \<times> 'v) list"

definition hm_get :: "('k, 'v) hmap \<Rightarrow> 'k \<Rightarrow> 'v option" where
  "hm_get m k = map_of m k"

primrec hm_insert :: "'k \<Rightarrow> 'v \<Rightarrow> ('k, 'v) hmap \<Rightarrow> ('k, 'v) hmap" where
  "hm_insert k v [] = [(k, v)]"
| "hm_insert k v (e # es) = (if fst e = k then (k, v) # es else e # hm_insert k v es)"

definition hm_remove :: "'k \<Rightarrow> ('k, 'v) hmap \<Rightarrow> ('k, 'v) hmap" where
  "hm_remove k m = filter (\<lambda>e. fst e \<noteq> k) m"

definition hm_retain :: "('k \<Rightarrow> 'v \<Rightarrow> bool) \<Rightarrow> ('k, 'v) hmap \<Rightarrow> ('k, 'v) hmap" where
  "hm_retain P m = filter (\<lambda>e. P (fst e) (snd e)) m"

definition hm_contains :: "('k, 'v) hmap \<Rightarrow> 'k \<Rightarrow> bool" where
  "hm_contains m k \<longleftrightarrow> hm_get m k \<noteq> None"

definition hm_values :: "('k, 'v) hmap \<Rightarrow> 'v list" where
  "hm_values m = map snd m"

definition hm_wf :: "('k, 'v) hmap \<Rightarrow> bool" where
  "hm_wf m \<longleftrightarrow> distinct (map fst m)"

lemma hm_get_Nil [simp]: "hm_get [] k = None"
  by (simp add: hm_get_def)

lemma hm_get_insert [table]: "hm_get (hm_insert k v m) j = (if j = k then Some v else hm_get m j)"
  by (induction m) (auto simp: hm_get_def)

lemma hm_get_remove [table]: "hm_get (hm_remove k m) j = (if j = k then None else hm_get m j)"
  by (induction m) (auto simp: hm_get_def hm_remove_def)

lemma fst_hm_insert: "fst ` set (hm_insert k v m) = insert k (fst ` set m)"
  by (induction m) auto

lemma hm_wf_Nil [wf_table, simp]: "hm_wf []"
  by (simp add: hm_wf_def)

lemma hm_wf_insert [wf_table]: "hm_wf m \<Longrightarrow> hm_wf (hm_insert k v m)"
proof (induction m)
  case (Cons e es)
  then show ?case
    using fst_hm_insert [of k v es] by (auto simp: hm_wf_def image_iff)
qed (simp add: hm_wf_def)

lemma hm_wf_filter: "hm_wf m \<Longrightarrow> hm_wf (filter P m)"
  by (induction m) (auto simp: hm_wf_def)

lemma hm_wf_remove [wf_table]: "hm_wf m \<Longrightarrow> hm_wf (hm_remove k m)"
  by (simp add: hm_remove_def hm_wf_filter)

lemma hm_wf_retain [wf_table]: "hm_wf m \<Longrightarrow> hm_wf (hm_retain P m)"
  by (simp add: hm_retain_def hm_wf_filter)

lemma hm_get_in_set: "hm_get m k = Some v \<Longrightarrow> (k, v) \<in> set m"
  by (simp add: hm_get_def map_of_SomeD)

lemma hm_in_set_iff: "hm_wf m \<Longrightarrow> (k, v) \<in> set m \<longleftrightarrow> hm_get m k = Some v"
  by (simp add: hm_get_def hm_wf_def)

lemma hm_get_None_iff: "hm_get m k = None \<longleftrightarrow> k \<notin> fst ` set m"
  by (simp add: hm_get_def map_of_eq_None_iff)

lemma hm_get_retain [table]:
  assumes "hm_wf m"
  shows "hm_get (hm_retain P m) k =
    (case hm_get m k of None \<Rightarrow> None | Some v \<Rightarrow> if P k v then Some v else None)"
  using assms
proof (induction m)
  case (Cons e es)
  have "hm_get es (fst e) = None"
    using Cons.prems by (simp add: hm_get_None_iff hm_wf_def)
  moreover have "hm_wf es" using Cons.prems by (simp add: hm_wf_def)
  ultimately show ?case
    using Cons.IH by (cases e) (auto simp: hm_get_def hm_retain_def)
qed (simp add: hm_retain_def)

lemma set_hm_insert:
  "hm_wf m \<Longrightarrow> set (hm_insert k v m) = insert (k, v) {e \<in> set m. fst e \<noteq> k}"
  by (induction m) (auto simp: hm_wf_def image_iff)

lemma set_hm_insert_subset: "set (hm_insert k v m) \<subseteq> insert (k, v) (set m)"
  by (induction m) auto

lemma hm_wf_map_values: "hm_wf (map (\<lambda>e. (fst e, f (snd e))) m) = hm_wf m"
  by (simp add: hm_wf_def comp_def)

lemma hm_wf_map_case: "hm_wf (map (\<lambda>(k, v). (k, f v)) m) = hm_wf m"
  by (simp add: hm_wf_def comp_def case_prod_beta)

lemma hm_get_map_values: "hm_get (map (\<lambda>(k, v). (k, f v)) m) k = map_option f (hm_get m k)"
  by (induction m) (auto simp: hm_get_def)

lemma find_SomeD: "find P xs = Some x \<Longrightarrow> P x \<and> x \<in> set xs"
  by (auto simp: find_Some_iff)

text \<open>
  The contract of a keyed table, and what every client of one may assume: the tables of the
  allocator, of the rate limiters and of the replay window are all used through it.
\<close>

locale keyed_table =
  fixes get :: "'m \<Rightarrow> 'k \<Rightarrow> 'v option"
    and put :: "'k \<Rightarrow> 'v \<Rightarrow> 'm \<Rightarrow> 'm"
    and del :: "'k \<Rightarrow> 'm \<Rightarrow> 'm"
    and ok :: "'m \<Rightarrow> bool"
    and emp :: 'm
  assumes get_emp: "get emp k = None"
    and get_put: "get (put k v m) j = (if j = k then Some v else get m j)"
    and get_del: "get (del k m) j = (if j = k then None else get m j)"
    and ok_emp: "ok emp"
    and ok_put: "ok m \<Longrightarrow> ok (put k v m)"
    and ok_del: "ok m \<Longrightarrow> ok (del k m)"
begin

lemma dom_put: "dom (get (put k v m)) = insert k (dom (get m))"
  by (auto simp: get_put split: if_splits)

lemma dom_del: "dom (get (del k m)) = dom (get m) - {k}"
  by (auto simp: get_del split: if_splits)

lemma fold_del:
  "get (fold del ks m) j = (if j \<in> set ks then None else get m j)"
  by (induction ks arbitrary: m) (auto simp: get_del)

lemma ok_fold_del: "ok m \<Longrightarrow> ok (fold del ks m)"
  by (induction ks arbitrary: m) (auto intro: ok_del)

lemma put_del_frame: "j \<noteq> k \<Longrightarrow> get (put k v (del k m)) j = get m j"
  by (simp add: get_put get_del)

end

interpretation hm: keyed_table hm_get hm_insert hm_remove hm_wf "[]"
  by unfold_locales (auto simp: table intro: wf_table)

lemma hm_contains_simps [table]:
  "hm_contains (hm_insert k v m) j \<longleftrightarrow> j = k \<or> hm_contains m j"
  "hm_contains (hm_remove k m) j \<longleftrightarrow> j \<noteq> k \<and> hm_contains m j"
  by (auto simp: hm_contains_def table)

lemma hm_contains_fst: "hm_contains m k \<longleftrightarrow> k \<in> fst ` set m"
  using hm_get_None_iff [of m k] by (auto simp: hm_contains_def)

lemma set_map_filter_iff: "y \<in> set (List.map_filter f xs) \<longleftrightarrow> (\<exists>x\<in>set xs. f x = Some y)"
  by (induction xs) (auto simp: map_filter_simps split: option.splits)

section \<open>Invariants of step relations\<close>

text \<open>A property that every step keeps holds after every run and in every reachable state.\<close>

locale invariant_steps =
  fixes step :: "'s \<Rightarrow> 's \<Rightarrow> bool" and inv :: "'s \<Rightarrow> bool"
  assumes step_inv: "step s t \<Longrightarrow> inv s \<Longrightarrow> inv t"
begin

lemma run_inv: "step\<^sup>*\<^sup>* s t \<Longrightarrow> inv s \<Longrightarrow> inv t"
  by (induction rule: rtranclp_induct) (auto intro: step_inv)

end

section \<open>Sliding windows of instants\<close>

text \<open>
  \<open>while log.front().is_some_and(|t| now.duration_since(*t) > window) { log.pop_front(); }\<close>:
  the oldest entries, at the front, are dropped while they are older than the window.
\<close>

definition trim_window :: "instant \<Rightarrow> duration \<Rightarrow> instant list \<Rightarrow> instant list" where
  "trim_window now window log = dropWhile (\<lambda>t. now - t > window) log"

lemma trim_window_Nil [simp]: "trim_window now w [] = []"
  by (simp add: trim_window_def)

lemma trim_window_idem [simp]: "trim_window now w (trim_window now w log) = trim_window now w log"
  by (simp add: trim_window_def dropWhile_idem)

lemma length_trim_window: "length (trim_window now w log) \<le> length log"
  by (simp add: trim_window_def length_dropWhile_le)

lemma sorted_trim_window: "sorted log \<Longrightarrow> sorted (trim_window now w log)"
  by (simp add: trim_window_def sorted_dropWhile)

text \<open>In a chronological log, trimming keeps exactly the entries inside the window.\<close>

lemma trim_window_eq_filter:
  "sorted log \<Longrightarrow> trim_window now w log = filter (\<lambda>t. now - t \<le> w) log"
proof (induction log)
  case (Cons t log)
  show ?case
  proof (cases "now - t > w")
    case True
    then show ?thesis using Cons by (simp add: trim_window_def)
  next
    case False
    then have "filter (\<lambda>t. now - t \<le> w) log = log"
      using Cons.prems by (auto simp: filter_id_conv)
    then show ?thesis using False by (simp add: trim_window_def)
  qed
qed (simp add: trim_window_def)

end
