(* ===== verification/Natpmp_Wire.thy ===== *)
theory Natpmp_Wire
  imports Prelude
begin

text \<open>
  The NAT-PMP wire format (RFC 6886 with the deployer extensions) of
  \<^verbatim>\<open>crates/warrenguard-natpmp-protocol/src/lib.rs\<close>: requests, responses, the rate-limit trailer of a
  Map response and the credential trailer of a Map request. \<open>Request::Map\<close> is \<open>Req_Map\<close>, and so on
  for the other enums whose variant names coincide in the source.
\<close>

section \<open>Data\<close>

abbreviation NATPMP_VERSION :: u8 where "NATPMP_VERSION \<equiv> 0"
abbreviation RESPONSE_BIT :: u8 where "RESPONSE_BIT \<equiv> 0x80"
abbreviation MAP_REQUEST_LEN :: nat where "MAP_REQUEST_LEN \<equiv> 12"
abbreviation CREDENTIAL_TRAILER_MAGIC :: u16 where "CREDENTIAL_TRAILER_MAGIC \<equiv> 0x5747"
abbreviation MAX_CREDENTIAL_LEN :: nat where "MAX_CREDENTIAL_LEN \<equiv> 512"
abbreviation CREDENTIAL_TRAILER_HEADER_LEN :: nat where "CREDENTIAL_TRAILER_HEADER_LEN \<equiv> 4"

datatype opcode = Op_ExternalAddress | Op_MapUdp | Op_MapTcp

fun opcode_u8 :: "opcode \<Rightarrow> u8" where
  "opcode_u8 Op_ExternalAddress = 0"
| "opcode_u8 Op_MapUdp = 1"
| "opcode_u8 Op_MapTcp = 2"

datatype result_code =
    RC_Success
  | RC_UnsupportedVersion
  | RC_NotAuthorized
  | RC_NetworkFailure
  | RC_OutOfResources
  | RC_UnsupportedOpcode
  | RC_SuggestedPortUnavailable
  | RC_RateLimited

fun result_code_u16 :: "result_code \<Rightarrow> u16" where
  "result_code_u16 RC_Success = 0"
| "result_code_u16 RC_UnsupportedVersion = 1"
| "result_code_u16 RC_NotAuthorized = 2"
| "result_code_u16 RC_NetworkFailure = 3"
| "result_code_u16 RC_OutOfResources = 4"
| "result_code_u16 RC_UnsupportedOpcode = 5"
| "result_code_u16 RC_SuggestedPortUnavailable = 6"
| "result_code_u16 RC_RateLimited = 7"

record rate_limit_info =
  attempts_remaining :: u8
  window_reset_secs :: u16

datatype map_proto = MP_Udp | MP_Tcp

datatype request =
    Req_ExternalAddress
  | Req_Map (req_proto: map_proto) (req_internal_port: u16)
      (req_suggested_external_port: u16) (req_lifetime_secs: u32)

datatype parse_error =
    PE_TooShort (pe_got: nat) (pe_need: nat)
  | PE_UnsupportedVersion u8
  | PE_UnsupportedOpcode u8

datatype trailer_error = CredentialTooLong (te_len: nat) (te_max: nat)

datatype response =
    Resp_ExternalAddress (resp_result_code: result_code) (resp_epoch_secs: u32)
      (resp_external_ip: ipv4)
  | Resp_Map (resp_proto: map_proto) (resp_result_code: result_code) (resp_epoch_secs: u32)
      (resp_internal_port: u16) (resp_external_port: u16) (resp_lifetime_secs: u32)
      (resp_rate_limit: "rate_limit_info option")

section \<open>Operations\<close>

definition append_credential_trailer :: "u8 list \<Rightarrow> u8 list \<Rightarrow> trailer_error + u8 list" where
  "append_credential_trailer frame credential =
     (let len = length credential in
      if len > MAX_CREDENTIAL_LEN then Inl (CredentialTooLong len MAX_CREDENTIAL_LEN)
      else Inr (frame @ u16_to_be CREDENTIAL_TRAILER_MAGIC @ u16_to_be (of_nat len) @ credential))"

definition credential_trailer :: "u8 list \<Rightarrow> u8 list option" where
  "credential_trailer buf =
     (if length buf < MAP_REQUEST_LEN then None
      else let trailer = drop MAP_REQUEST_LEN buf in
        if length trailer < CREDENTIAL_TRAILER_HEADER_LEN then None
        else let header = take CREDENTIAL_TRAILER_HEADER_LEN trailer;
                 body = drop CREDENTIAL_TRAILER_HEADER_LEN trailer in
          if u16_from_be (header ! 0) (header ! 1) \<noteq> CREDENTIAL_TRAILER_MAGIC then None
          else let len = unat (u16_from_be (header ! 2) (header ! 3)) in
            if len > MAX_CREDENTIAL_LEN then None
            else if length body < len then None
            else Some (take len body))"

definition parse_request :: "u8 list \<Rightarrow> parse_error + request" where
  "parse_request buf =
     (if length buf < 2 then Inl (PE_TooShort (length buf) 2)
      else if buf ! 0 \<noteq> NATPMP_VERSION then Inl (PE_UnsupportedVersion (buf ! 0))
      else let opcode = buf ! 1 in
        if opcode = 0 then Inr Req_ExternalAddress
        else if opcode = 1 \<or> opcode = 2 then
          if length buf < 12 then Inl (PE_TooShort (length buf) 12)
          else
            let internal_port = u16_from_be (buf ! 4) (buf ! 5);
                suggested_external_port = u16_from_be (buf ! 6) (buf ! 7);
                lifetime_secs = u32_from_be (buf ! 8) (buf ! 9) (buf ! 10) (buf ! 11);
                proto = (if opcode = 1 then MP_Udp else MP_Tcp)
            in Inr (Req_Map proto internal_port suggested_external_port lifetime_secs)
        else Inl (PE_UnsupportedOpcode opcode))"

fun map_opcode :: "map_proto \<Rightarrow> opcode" where
  "map_opcode MP_Udp = Op_MapUdp"
| "map_opcode MP_Tcp = Op_MapTcp"

fun serialize_request :: "request \<Rightarrow> u8 list" where
  "serialize_request Req_ExternalAddress = [NATPMP_VERSION, opcode_u8 Op_ExternalAddress]"
| "serialize_request (Req_Map proto internal_port suggested_external_port lifetime_secs) =
     [NATPMP_VERSION, opcode_u8 (map_opcode proto)] @ [0, 0] @ u16_to_be internal_port
       @ u16_to_be suggested_external_port @ u32_to_be lifetime_secs"

definition parse_result_code :: "u16 \<Rightarrow> result_code" where
  "parse_result_code raw =
     (if raw = 0 then RC_Success
      else if raw = 1 then RC_UnsupportedVersion
      else if raw = 2 then RC_NotAuthorized
      else if raw = 3 then RC_NetworkFailure
      else if raw = 4 then RC_OutOfResources
      else if raw = 5 then RC_UnsupportedOpcode
      else if raw = 6 then RC_SuggestedPortUnavailable
      else if raw = 7 then RC_RateLimited
      else RC_NetworkFailure)"

definition parse_response :: "u8 list \<Rightarrow> parse_error + response" where
  "parse_response buf =
     (if length buf < 8 then Inl (PE_TooShort (length buf) 8)
      else if buf ! 0 \<noteq> NATPMP_VERSION then Inl (PE_UnsupportedVersion (buf ! 0))
      else let opcode_raw = buf ! 1 in
        if opcode_raw AND RESPONSE_BIT = 0 then Inl (PE_UnsupportedOpcode opcode_raw)
        else
          let opcode = opcode_raw AND NOT RESPONSE_BIT;
              result_code = parse_result_code (u16_from_be (buf ! 2) (buf ! 3));
              epoch_secs = u32_from_be (buf ! 4) (buf ! 5) (buf ! 6) (buf ! 7)
          in
          if opcode = 0 then
            if length buf < 12 then Inl (PE_TooShort (length buf) 12)
            else Inr (Resp_ExternalAddress result_code epoch_secs
              (u32_from_be (buf ! 8) (buf ! 9) (buf ! 10) (buf ! 11)))
          else if opcode = 1 \<or> opcode = 2 then
            if length buf < 16 then Inl (PE_TooShort (length buf) 16)
            else
              let internal_port = u16_from_be (buf ! 8) (buf ! 9);
                  external_port = u16_from_be (buf ! 10) (buf ! 11);
                  lifetime_secs = u32_from_be (buf ! 12) (buf ! 13) (buf ! 14) (buf ! 15);
                  proto = (if opcode = 1 then MP_Udp else MP_Tcp);
                  rate_limit = (if length buf \<ge> 20
                    then Some \<lparr>attempts_remaining = buf ! 16,
                               window_reset_secs = u16_from_be (buf ! 18) (buf ! 19)\<rparr>
                    else None)
              in Inr (Resp_Map proto result_code epoch_secs internal_port external_port
                   lifetime_secs rate_limit)
          else Inl (PE_UnsupportedOpcode opcode))"

fun serialize_rate_limit :: "rate_limit_info option \<Rightarrow> u8 list" where
  "serialize_rate_limit None = []"
| "serialize_rate_limit (Some info) =
     [attempts_remaining info, 0] @ u16_to_be (window_reset_secs info)"

fun serialize_response :: "response \<Rightarrow> u8 list" where
  "serialize_response (Resp_ExternalAddress result_code epoch_secs external_ip) =
     [NATPMP_VERSION, opcode_u8 Op_ExternalAddress OR RESPONSE_BIT]
       @ u16_to_be (result_code_u16 result_code) @ u32_to_be epoch_secs @ u32_to_be external_ip"
| "serialize_response (Resp_Map proto result_code epoch_secs internal_port external_port
      lifetime_secs rate_limit) =
     [NATPMP_VERSION, opcode_u8 (map_opcode proto) OR RESPONSE_BIT]
       @ u16_to_be (result_code_u16 result_code) @ u32_to_be epoch_secs
       @ u16_to_be internal_port @ u16_to_be external_port @ u32_to_be lifetime_secs
       @ serialize_rate_limit rate_limit"

section \<open>Requests\<close>

lemmas wire_defs = u16_to_be_def u32_to_be_def Let_def

lemma parse_serialize_request_append:
  "parse_request (serialize_request req @ rest) = Inr req"
proof (cases req)
  case Req_ExternalAddress
  then show ?thesis by (simp add: parse_request_def)
next
  case (Req_Map proto i s l)
  then show ?thesis
    by (cases proto) (simp_all add: parse_request_def wire_defs bytes)
qed

interpretation request_codec:
  wire_codec serialize_request parse_request "\<lambda>_. True" "\<lambda>_ _. True"
  by unfold_locales (simp_all add: parse_serialize_request_append)

text \<open>
  C29: a server reads back exactly the request a client wrote, whatever trailing bytes (the
  credential trailer, padding, a future extension) follow the RFC frame.
\<close>

theorem request_roundtrip_with_trailer:
  "parse_request (serialize_request req @ rest) = Inr req"
  by (rule parse_serialize_request_append)

lemma map_request_length: "length (serialize_request (Req_Map p i s l)) = MAP_REQUEST_LEN"
  by simp

lemma list_at_least_12:
  assumes "12 \<le> length xs"
  obtains a b c d e f g h i j k l ys where "xs = a # b # c # d # e # f # g # h # i # j # k # l # ys"
  using assms
  by (metis Suc_le_length_iff numeral_eq_Suc pred_numeral_simps(2,3) pred_numeral_simps(1) BitM.simps)

lemma parse_request_Map_dest:
  assumes "parse_request buf = Inr (Req_Map p i s l)"
  shows "\<exists>r1 r2 rest. buf = [NATPMP_VERSION, opcode_u8 (map_opcode p), r1, r2]
    @ u16_to_be i @ u16_to_be s @ u32_to_be l @ rest"
proof -
  have "12 \<le> length buf"
    using assms by (auto simp: parse_request_def Let_def split: if_splits)
  then obtain b0 b1 b2 b3 b4 b5 b6 b7 b8 b9 b10 b11 rest where
    buf: "buf = b0 # b1 # b2 # b3 # b4 # b5 # b6 # b7 # b8 # b9 # b10 # b11 # rest"
    by (rule list_at_least_12)
  have "b0 = 0" "b1 = opcode_u8 (map_opcode p)" "i = u16_from_be b4 b5" "s = u16_from_be b6 b7"
    "l = u32_from_be b8 b9 b10 b11"
    using assms by (auto simp: buf parse_request_def Let_def split: if_splits)
  then show ?thesis
    by (auto simp: buf bytes)
qed

text \<open>
  the accepted Map requests are exactly the RFC frames: version 0, the opcode of the
  protocol, two reserved bytes that may hold anything, the three big-endian fields, and any
  trailing bytes. Parsing loses the reserved bytes and the trailer, nothing else.
\<close>

theorem parse_request_accepts_exactly:
  "parse_request buf = Inr (Req_Map p i s l) \<longleftrightarrow>
     (\<exists>r1 r2 rest. buf = [NATPMP_VERSION, opcode_u8 (map_opcode p), r1, r2]
        @ u16_to_be i @ u16_to_be s @ u32_to_be l @ rest)"
  (is "?parsed \<longleftrightarrow> ?framed")
proof
  show "?parsed \<Longrightarrow> ?framed" by (rule parse_request_Map_dest)
next
  assume ?framed
  then show ?parsed
    by (cases p) (auto simp: parse_request_def wire_defs bytes)
qed

section \<open>The credential trailer\<close>

lemma credential_trailer_appended:
  assumes "length c \<le> MAX_CREDENTIAL_LEN" and "length frame = MAP_REQUEST_LEN"
  shows "credential_trailer
    (frame @ u16_to_be CREDENTIAL_TRAILER_MAGIC @ u16_to_be (of_nat (length c)) @ c) = Some c"
proof -
  have "unat (of_nat (length c) :: u16) = length c"
    using assms by (simp add: unat_of_nat)
  moreover have "u16_from_be 87 22343 = CREDENTIAL_TRAILER_MAGIC"
    by (simp add: u16_from_be_def)
  ultimately show ?thesis
    using assms by (simp add: credential_trailer_def wire_defs bytes)
qed

text \<open>
  C30: presenting a credential. A credential of at most 512 bytes is appended to a Map request and
  the server reads back both the untouched request and the very same credential, in a frame that
  fits the server's receive buffer; a longer one is refused and the frame is left as it was.
\<close>

theorem credential_trailer_roundtrip:
  "case append_credential_trailer (serialize_request (Req_Map p i s l)) c of
     Inl e \<Rightarrow> MAX_CREDENTIAL_LEN < length c \<and> e = CredentialTooLong (length c) MAX_CREDENTIAL_LEN
   | Inr frame \<Rightarrow> length c \<le> MAX_CREDENTIAL_LEN
       \<and> parse_request frame = Inr (Req_Map p i s l)
       \<and> credential_trailer frame = Some c
       \<and> length frame \<le> MAP_REQUEST_LEN + 4 + MAX_CREDENTIAL_LEN"
proof (cases "length c \<le> MAX_CREDENTIAL_LEN")
  case True
  let ?r = "Req_Map p i s l"
  let ?t = "u16_to_be CREDENTIAL_TRAILER_MAGIC @ u16_to_be (of_nat (length c)) @ c"
  have "append_credential_trailer (serialize_request ?r) c = Inr (serialize_request ?r @ ?t)"
    using True by (simp add: append_credential_trailer_def)
  moreover have "credential_trailer (serialize_request ?r @ ?t) = Some c"
    using True map_request_length by (rule credential_trailer_appended)
  moreover have "length (serialize_request ?r @ ?t) \<le> MAP_REQUEST_LEN + 4 + MAX_CREDENTIAL_LEN"
    using True by simp
  ultimately show ?thesis
    using True parse_serialize_request_append [of ?r ?t] by simp
qed (simp add: append_credential_trailer_def)

lemma credential_trailer_bare: "credential_trailer (serialize_request req) = None"
  by (cases req) (simp_all add: credential_trailer_def)

lemma credential_trailer_bounded: "credential_trailer buf = Some c \<Longrightarrow> length c \<le> MAX_CREDENTIAL_LEN"
  by (auto simp: credential_trailer_def Let_def split: if_splits)

section \<open>Responses\<close>

lemma parse_result_code_u16 [simp]: "parse_result_code (result_code_u16 rc) = rc"
  by (cases rc) (simp_all add: parse_result_code_def)

text \<open>Trailing bytes after a Map response without a rate-limit trailer must not look like one.\<close>

fun response_trailing :: "response \<Rightarrow> u8 list \<Rightarrow> bool" where
  "response_trailing (Resp_Map _ _ _ _ _ _ None) rest \<longleftrightarrow> length rest < 4"
| "response_trailing _ rest \<longleftrightarrow> True"

lemma parse_serialize_response_append:
  assumes "response_trailing resp rest"
  shows "parse_response (serialize_response resp @ rest) = Inr resp"
proof (cases resp)
  case (Resp_ExternalAddress rc e ip)
  then show ?thesis by (simp add: parse_response_def wire_defs bytes)
next
  case (Resp_Map p rc e i x l rl)
  then show ?thesis
    using assms by (cases p; cases rl) (simp_all add: parse_response_def wire_defs bytes)
qed

interpretation response_codec:
  wire_codec serialize_response parse_response "\<lambda>_. True" response_trailing
proof
  show "response_trailing x []" for x
    by (cases "(x, [] :: u8 list)" rule: response_trailing.cases) simp_all
qed (rule parse_serialize_response_append)

text \<open>
  C31: a client reads back exactly the response the server wrote, result code, epoch and rate-limit
  trailer included.
\<close>

theorem response_roundtrip: "parse_response (serialize_response resp) = Inr resp"
  by (rule response_codec.roundtrip) simp

text \<open>A response is never taken for a request, nor a request for a response.\<close>

lemma request_is_no_response: "parse_response (serialize_request req @ rest) \<noteq> Inr resp"
proof (cases req)
  case (Req_Map p i s l)
  then show ?thesis by (cases p) (simp_all add: parse_response_def Let_def)
qed (simp add: parse_response_def Let_def)

lemma response_is_no_request: "parse_request (serialize_response resp @ rest) \<noteq> Inr req"
proof (cases resp)
  case (Resp_Map p rc e i x l rl)
  then show ?thesis by (cases p) (simp_all add: parse_request_def Let_def)
qed (simp add: parse_request_def Let_def)

text \<open>
  the two directions of the protocol cannot be confused: no bytes a client sends parse as a
  response, and no bytes a server sends parse as a request, whatever follows them.
\<close>

theorem directions_disjoint:
  "parse_response (serialize_request req @ rest) \<noteq> Inr resp
   \<and> parse_request (serialize_response resp @ rest) \<noteq> Inr req"
  by (simp add: request_is_no_response response_is_no_request)

end
