(* ===== verification/Natpmp_Allocator.thy ===== *)
theory Natpmp_Allocator
  imports Natpmp_Wire
begin

text \<open>
  The in-RAM external-port allocator of \<^verbatim>\<open>crates/warrenguard-natpmp-server/src/allocator.rs\<close>.

  \<open>Inner\<close> is the record \<open>inner\<close> (the tables under the mutex), \<open>Allocator\<close> the record \<open>allocator\<close>
  that extends the configuration. The deployer's callbacks (\<open>QuotaPeers\<close>, \<open>PortBudget\<close>,
  \<open>LiveSessions\<close>) are optional functions held by the allocator; the calls made to the release
  observer are logged in \<open>reported\<close>. \<open>try_allocate\<close> is one pass of the decision under the lock;
  \<open>allocate_at_collecting\<close> is the whole loop, and \<open>interfere\<close> is whatever other threads do to the
  tables while the lock is released between two passes. The random draws of \<open>pick_port\<close> are the
  parameter \<open>rng\<close> (\<open>random_range(0..range_size)\<close> of the \<open>rand\<close> crate).
\<close>

section \<open>Data\<close>

datatype proto = Tcp | Udp

record allocation =
  external_port :: u16
  internal_ip :: ipv4
  internal_port :: u16
  alloc_proto :: proto
  expires_at :: instant

datatype natpmp_error =
    NotAuthorized ipv4
  | RateLimited (err_client: ipv4) (retry_after_secs: u16)
  | Exhausted
  | QuotaExceeded ipv4
  | SuggestedPortInUse u16
  | Backend string

record revoked_allocation =
  rev_allocation :: allocation
  rev_held_since :: instant

record allocator_config =
  port_range :: "u16 \<times> u16"
  cooldown :: duration
  rate_limit_max :: nat
  rate_limit_window :: duration
  quota_per_client :: nat

definition warren_default :: allocator_config where
  "warren_default =
     \<lparr>port_range = (49152, 65535), cooldown = from_secs 300, rate_limit_max = 12,
      rate_limit_window = from_secs 60, quota_per_client = 5\<rparr>"

record allocator_counters =
  c_allocations :: u64
  c_releases :: u64
  c_evictions :: u64
  c_quota_exceeded :: u64
  c_rate_limited :: u64
  c_exhausted :: u64
  c_suggested_in_use :: u64
  c_reclaimed_from_departed_peer :: u64
  c_abuse_revocations :: u64

type_synonym slot = "u16 \<times> proto"

record inner =
  active :: "(slot, allocation) hmap"
  next_expiry :: "instant option"
  cooldown_until :: "(u16, instant) hmap"
  abuse_quarantine_until :: "(u16, instant) hmap"
  held_since :: "(u16, instant) hmap"
  last_user_per_port :: "(u16, ipv4 \<times> instant) hmap"
  rate_limit_log :: "(ipv4, instant list) hmap"

record allocator = allocator_config +
  inner :: inner
  quota_peers :: "(ipv4 \<Rightarrow> ipv4 list) option"
  port_budget :: "(ipv4 \<Rightarrow> nat option) option"
  live_sessions :: "(ipv4 \<Rightarrow> bool) option"
  release_observer :: bool
  counters :: allocator_counters
  reported :: "allocation list list"

record allocate_outcome =
  outcome_result :: "natpmp_error + allocation"
  outcome_evicted :: "allocation list"

record map_request =
  client_ip :: ipv4
  req_slot_proto :: proto
  req_iport :: u16
  suggested :: u16
  lifetime :: duration
  req_now :: instant

record deployer_answers =
  tenant :: "ipv4 set option"
  budget :: "nat option"
  holder_live :: "(ipv4 \<times> bool) option"

datatype question = Q_Tenant | Q_QuotaInputs | Q_HolderLive ipv4

datatype step = Done "natpmp_error + allocation" | Asks question

section \<open>The tables under the lock\<close>

text \<open>\<open>next_expiry.map_or(e, |t| t.min(e))\<close>\<close>

definition note_expiry :: "instant option \<Rightarrow> instant \<Rightarrow> instant option" where
  "note_expiry t e = Some (case t of None \<Rightarrow> e | Some t \<Rightarrow> min t e)"

definition insert_active :: "allocation \<Rightarrow> inner \<Rightarrow> inner" where
  "insert_active al g =
     g\<lparr>next_expiry := note_expiry (next_expiry g) (expires_at al),
       active := hm_insert (external_port al, alloc_proto al) al (active g)\<rparr>"

definition arm_expired :: "instant \<Rightarrow> duration \<Rightarrow> u16 \<times> ipv4 \<times> instant \<Rightarrow> inner \<Rightarrow> inner" where
  "arm_expired now cd e g =
     (case e of (ext, ip, expiry) \<Rightarrow>
       let deadline = expiry + cd in
       if deadline > now then
         let until = (case hm_get (cooldown_until g) ext of None \<Rightarrow> deadline | Some t \<Rightarrow> max t deadline);
             last = (case hm_get (last_user_per_port g) ext of
                       None \<Rightarrow> (ip, deadline)
                     | Some (prev, t) \<Rightarrow> if deadline > t then (ip, deadline) else (prev, t))
         in g\<lparr>cooldown_until := hm_insert ext until (cooldown_until g),
              last_user_per_port := hm_insert ext last (last_user_per_port g)\<rparr>
       else g)"

definition sweep_expired ::
  "instant \<Rightarrow> duration \<Rightarrow> inner \<Rightarrow> allocation list \<Rightarrow> inner \<times> allocation list" where
  "sweep_expired now cd g evicted =
     (if (case next_expiry g of None \<Rightarrow> True | Some t \<Rightarrow> t > now) then (g, evicted)
      else
        let keep = (\<lambda>al. expires_at al > now);
            expired = filter (\<lambda>e. \<not> keep (snd e)) (active g);
            kept = hm_retain (\<lambda>_. keep) (active g);
            ports = map (\<lambda>e. (fst (fst e), internal_ip (snd e), expires_at (snd e))) expired;
            g1 = g\<lparr>active := kept,
                   next_expiry := fold (\<lambda>e t. note_expiry t (expires_at (snd e))) kept None\<rparr>
        in (fold (arm_expired now cd) ports g1, evicted @ map snd expired))"

definition trim_side_maps :: "instant \<Rightarrow> duration \<Rightarrow> inner \<Rightarrow> inner" where
  "trim_side_maps now window g =
     g\<lparr>cooldown_until := hm_retain (\<lambda>_ expiry. expiry > now) (cooldown_until g),
       abuse_quarantine_until := hm_retain (\<lambda>_ expiry. expiry > now) (abuse_quarantine_until g),
       held_since := hm_retain (\<lambda>port _. hm_contains (active g) (port, Tcp)
         \<or> hm_contains (active g) (port, Udp)) (held_since g),
       last_user_per_port := hm_retain (\<lambda>_ u. snd u > now) (last_user_per_port g),
       rate_limit_log := filter (\<lambda>e. snd e \<noteq> [])
         (map (\<lambda>e. (fst e, trim_window now window (snd e))) (rate_limit_log g))\<rparr>"

definition window_reset :: "duration \<Rightarrow> duration \<Rightarrow> u16" where
  "window_reset window elapsed =
     (let remaining = window - elapsed in
      saturate_u16 (as_secs remaining + (if remaining mod nanos_per_sec > 0 then 1 else 0)))"

definition take_port :: "inner \<Rightarrow> u16 \<Rightarrow> instant \<Rightarrow> inner \<times> allocation list" where
  "take_port g port until =
     fold (\<lambda>p (g, removed).
         case hm_get (active g) (port, p) of
           None \<Rightarrow> (g, removed)
         | Some al \<Rightarrow>
             (g\<lparr>active := hm_remove (port, p) (active g),
                cooldown_until := hm_insert port until (cooldown_until g),
                last_user_per_port := hm_insert port (internal_ip al, until) (last_user_per_port g)\<rparr>,
              removed @ [al]))
       [Tcp, Udp] (g, [])"

definition client_log :: "inner \<Rightarrow> ipv4 \<Rightarrow> instant list" where
  "client_log g c = (case hm_get (rate_limit_log g) c of None \<Rightarrow> [] | Some log \<Rightarrow> log)"

definition within_rate_budget :: "inner \<Rightarrow> ipv4 \<Rightarrow> instant \<Rightarrow> duration \<Rightarrow> nat \<Rightarrow> inner \<times> bool" where
  "within_rate_budget g c now window mx =
     (let log = trim_window now window (client_log g c)
      in (g\<lparr>rate_limit_log := hm_insert c log (rate_limit_log g)\<rparr>, length log < mx))"

definition clamp_lifetime :: "u32 \<Rightarrow> duration" where
  "clamp_lifetime secs = from_secs (unat (max 60 (min 3600 secs)))"

definition port_in_range :: "u16 \<Rightarrow> u16 \<times> u16 \<Rightarrow> bool" where
  "port_in_range p r \<longleftrightarrow> p \<ge> fst r \<and> p \<le> snd r"

definition port_owner :: "inner \<Rightarrow> u16 \<Rightarrow> ipv4 option" where
  "port_owner g p =
     map_option internal_ip
       (case hm_get (active g) (p, Tcp) of None \<Rightarrow> hm_get (active g) (p, Udp) | Some al \<Rightarrow> Some al)"

definition quarantined :: "inner \<Rightarrow> instant \<Rightarrow> u16 \<Rightarrow> bool" where
  "quarantined g now p =
     (case hm_get (abuse_quarantine_until g) p of None \<Rightarrow> False | Some until \<Rightarrow> until > now)"

definition port_eligible :: "inner \<Rightarrow> u16 \<Rightarrow> ipv4 \<Rightarrow> instant \<Rightarrow> ipv4 set option \<Rightarrow> bool" where
  "port_eligible g p c now reclaim =
     (if hm_contains (active g) (p, Tcp) \<or> hm_contains (active g) (p, Udp) then False
      else if quarantined g now p then False
      else if (case reclaim of None \<Rightarrow> False
               | Some ten \<Rightarrow> (case hm_get (last_user_per_port g) p of None \<Rightarrow> False
                   | Some (prev_ip, expiry) \<Rightarrow> prev_ip \<in> ten \<and> expiry > now)) then True
      else (case hm_get (cooldown_until g) p of None \<Rightarrow> True | Some t \<Rightarrow> t \<le> now)
        \<and> (case hm_get (last_user_per_port g) p of None \<Rightarrow> True
           | Some (prev_ip, expiry) \<Rightarrow> prev_ip \<noteq> c \<or> expiry \<le> now))"

abbreviation PICK_PORT_RANDOM_TRIES :: nat where "PICK_PORT_RANDOM_TRIES \<equiv> 256"

definition range_size :: "u16 \<times> u16 \<Rightarrow> nat" where
  "range_size r = unat (snd r - fst r) + 1"

definition pick_port ::
  "inner \<Rightarrow> (nat \<Rightarrow> nat) \<Rightarrow> u16 \<times> u16 \<Rightarrow> proto \<Rightarrow> u16 \<Rightarrow> ipv4 \<Rightarrow> instant \<Rightarrow> u16 option" where
  "pick_port g rng r p reuse c now =
     (if reuse \<noteq> 0 \<and> port_in_range reuse r \<and> \<not> hm_contains (active g) (reuse, p)
         \<and> (port_owner g reuse = Some c \<or> port_eligible g reuse c now None)
      then Some reuse
      else
        case find (\<lambda>q. port_eligible g q c now None)
               (map (\<lambda>i. fst r + of_nat (rng i)) [0..<min (range_size r) PICK_PORT_RANDOM_TRIES]) of
          Some q \<Rightarrow> Some q
        | None \<Rightarrow> find (\<lambda>q. port_eligible g q c now None)
                    (map of_nat [unat (fst r)..<Suc (unat (snd r))]))"

section \<open>One pass of the allocation decision\<close>

text \<open>What the allocator's own tables say about an explicit suggestion.\<close>

definition cheap_grantable ::
  "allocator \<Rightarrow> map_request \<Rightarrow> deployer_answers \<Rightarrow> u16 \<Rightarrow> question + bool" where
  "cheap_grantable a rq ans s =
     (let g = inner a; c = client_ip rq in
      if \<not> (port_in_range s (port_range a)
             \<and> (case port_owner g s of None \<Rightarrow> True | Some ow \<Rightarrow> ow = c)) then Inr False
      else case hm_get (active g) (s, req_slot_proto rq) of
        Some al \<Rightarrow> Inr (internal_ip al = c \<and> internal_port al = req_iport rq)
      | None \<Rightarrow>
          if port_owner g s \<noteq> None then Inr True
          else if (case hm_get (last_user_per_port g) s of None \<Rightarrow> False
                   | Some u \<Rightarrow> snd u > req_now rq) then
            (case tenant ans of
               None \<Rightarrow> Inl Q_Tenant
             | Some ten \<Rightarrow> Inr (port_eligible g s c (req_now rq) (Some ten)))
          else Inr (port_eligible g s c (req_now rq) None))"

text \<open>Taking a pinned port back from a departed address of the same tenant.\<close>

definition departed_reclaim ::
  "allocator \<Rightarrow> map_request \<Rightarrow> deployer_answers \<Rightarrow> u16 \<Rightarrow> bool \<Rightarrow> allocator \<times> (question + bool)" where
  "departed_reclaim a rq ans s cheap =
     (case port_owner (inner a) s of
        None \<Rightarrow> (a, Inr False)
      | Some holder \<Rightarrow>
          if \<not> cheap \<and> port_in_range s (port_range a) \<and> holder \<noteq> client_ip rq
             \<and> live_sessions a \<noteq> None then
            (case within_rate_budget (inner a) (client_ip rq) (req_now rq)
                    (rate_limit_window a) (rate_limit_max a) of
               (g, within) \<Rightarrow>
                 (a\<lparr>inner := g\<rparr>,
                  if \<not> within then Inr False
                  else case holder_live ans of
                    None \<Rightarrow> Inl (Q_HolderLive holder)
                  | Some (asked, live) \<Rightarrow>
                      if asked = holder \<and> \<not> live then
                        (case tenant ans of None \<Rightarrow> Inl Q_Tenant | Some ten \<Rightarrow> Inr (holder \<in> ten))
                      else Inr False))
          else (a, Inr False))"

text \<open>The sliding-window refusal shared by the two places that enforce the per-source limit.\<close>

definition rate_limited_error :: "allocator \<Rightarrow> map_request \<Rightarrow> instant list \<Rightarrow> natpmp_error" where
  "rate_limited_error a rq log =
     RateLimited (client_ip rq)
       (case log of [] \<Rightarrow> 0 | t # _ \<Rightarrow> window_reset (rate_limit_window a) (req_now rq - t))"

definition refuse_suggestion :: "allocator \<Rightarrow> map_request \<Rightarrow> u16 \<Rightarrow> allocator \<times> step" where
  "refuse_suggestion a rq s =
     (let c = client_ip rq; g = inner a;
          log = trim_window (req_now rq) (rate_limit_window a) (client_log g c)
      in if length log \<ge> rate_limit_max a then
           (a\<lparr>inner := g\<lparr>rate_limit_log := hm_insert c log (rate_limit_log g)\<rparr>,
              counters := c_rate_limited_update (\<lambda>n. n + 1) (counters a)\<rparr>,
            Done (Inl (rate_limited_error a rq log)))
         else
           (a\<lparr>inner := g\<lparr>rate_limit_log := hm_insert c (log @ [req_now rq]) (rate_limit_log g)\<rparr>,
              counters := c_suggested_in_use_update (\<lambda>n. n + 1) (counters a)\<rparr>,
            Done (Inl (SuggestedPortInUse s))))"

text \<open>
  The whole strict honouring of an explicit suggestion: a step that ends the pass, or whether the
  port is reclaimed from a departed peer.
\<close>

definition honour_suggestion ::
  "allocator \<Rightarrow> map_request \<Rightarrow> deployer_answers \<Rightarrow> u16 \<Rightarrow> allocator \<times> (step + bool)" where
  "honour_suggestion a rq ans s =
     (if s = 0 then (a, Inr False)
      else case cheap_grantable a rq ans s of
        Inl q \<Rightarrow> (a, Inl (Asks q))
      | Inr cheap \<Rightarrow>
          (case departed_reclaim a rq ans s cheap of
             (a', Inl q) \<Rightarrow> (a', Inl (Asks q))
           | (a', Inr reclaim) \<Rightarrow>
               if cheap \<or> reclaim then (a', Inr reclaim)
               else (case refuse_suggestion a' rq s of (a'', st) \<Rightarrow> (a'', Inl st))))"

definition same_tuple :: "inner \<Rightarrow> map_request \<Rightarrow> slot list" where
  "same_tuple g rq =
     map fst (filter (\<lambda>e. snd (fst e) = req_slot_proto rq \<and> internal_ip (snd e) = client_ip rq
       \<and> internal_port (snd e) = req_iport rq) (active g))"

definition acquires_new_port :: "inner \<Rightarrow> map_request \<Rightarrow> u16 \<Rightarrow> bool" where
  "acquires_new_port g rq s \<longleftrightarrow>
     same_tuple g rq = [] \<and> \<not> (s \<noteq> 0 \<and> port_owner g s = Some (client_ip rq))"

definition rate_gate :: "allocator \<Rightarrow> map_request \<Rightarrow> u16 \<Rightarrow> allocator \<times> step option" where
  "rate_gate a rq s =
     (if acquires_new_port (inner a) rq s then
        let c = client_ip rq; g = inner a;
            log = trim_window (req_now rq) (rate_limit_window a) (client_log g c);
            a' = a\<lparr>inner := g\<lparr>rate_limit_log := hm_insert c log (rate_limit_log g)\<rparr>\<rparr>
        in if length log \<ge> rate_limit_max a then
             (a'\<lparr>counters := c_rate_limited_update (\<lambda>n. n + 1) (counters a)\<rparr>,
              Some (Done (Inl (rate_limited_error a rq log))))
           else (a', None)
      else (a, None))"

text \<open>A refresh drops the mapping it renews, remembering the port it held.\<close>

fun drop_slots :: "slot list \<Rightarrow> inner \<times> u16 option \<times> allocation list \<Rightarrow>
    inner \<times> u16 option \<times> allocation list" where
  "drop_slots [] st = st"
| "drop_slots (key # keys) (g, held, evicted) =
     (case hm_get (active g) key of
        None \<Rightarrow> drop_slots keys (g, held, evicted)
      | Some removed \<Rightarrow>
          drop_slots keys (g\<lparr>active := hm_remove key (active g)\<rparr>, Some (fst key), evicted @ [removed]))"

definition held_ports :: "inner \<Rightarrow> ipv4 set \<Rightarrow> u16 set" where
  "held_ports g ten = set (map (\<lambda>e. fst (fst e)) (filter (\<lambda>e. internal_ip (snd e) \<in> ten) (active g)))"

definition reuses_held_port :: "inner \<Rightarrow> ipv4 set \<Rightarrow> u16 option \<Rightarrow> u16 \<Rightarrow> bool" where
  "reuses_held_port g ten held s =
     (if s \<noteq> 0 then s \<in> held_ports g ten \<or> held = Some s else held \<noteq> None)"

text \<open>Both legs of a port reclaimed from a departed peer leave the table.\<close>

definition reclaim_port :: "u16 \<Rightarrow> inner \<times> allocation list \<Rightarrow> inner \<times> allocation list" where
  "reclaim_port s st =
     fold (\<lambda>p (g, evicted).
         case hm_get (active g) (s, p) of
           None \<Rightarrow> (g, evicted)
         | Some removed \<Rightarrow> (g\<lparr>active := hm_remove (s, p) (active g)\<rparr>, evicted @ [removed]))
       [Tcp, Udp] st"

text \<open>The tail of a successful request: the rate slot, the holding, the new mapping.\<close>

definition commit_grant ::
  "allocator \<Rightarrow> map_request \<Rightarrow> bool \<Rightarrow> u16 option \<Rightarrow> bool \<Rightarrow> u16 \<Rightarrow> allocator \<times> step" where
  "commit_grant a rq acquires held reclaim port =
     (let c = client_ip rq; now = req_now rq; g = inner a;
          g1 = (if acquires
                then g\<lparr>rate_limit_log := hm_insert c (client_log g c @ [now]) (rate_limit_log g)\<rparr>
                else g);
          goes_on = (held = Some port \<or> reclaim \<or> port_owner g1 port = Some c);
          since = (case hm_get (held_since g1) port of
                     None \<Rightarrow> now | Some t \<Rightarrow> if goes_on then t else now);
          g2 = g1\<lparr>held_since := hm_insert port since (held_since g1)\<rparr>;
          al = \<lparr>external_port = port, internal_ip = c, internal_port = req_iport rq,
                alloc_proto = req_slot_proto rq, expires_at = now + lifetime rq\<rparr>
      in (a\<lparr>inner := insert_active al g2,
            counters := c_allocations_update (\<lambda>n. n + 1) (counters a)\<rparr>,
          Done (Inr al)))"

text \<open>Everything after the last question: refresh-reclaim, quota, reclaim, port choice, commit.\<close>

definition serve ::
  "allocator \<Rightarrow> (nat \<Rightarrow> nat) \<Rightarrow> map_request \<Rightarrow> ipv4 set \<Rightarrow> nat \<Rightarrow> u16 \<Rightarrow> bool \<Rightarrow> allocation list \<Rightarrow>
    allocator \<times> allocation list \<times> step" where
  "serve a rng rq ten bud s reclaim evicted =
     (let acquires = acquires_new_port (inner a) rq s in
      case drop_slots (same_tuple (inner a) rq) (inner a, None, evicted) of
        (g, held, evicted1) \<Rightarrow>
          if \<not> reuses_held_port g ten held s \<and> card (held_ports g ten) \<ge> bud then
            (a\<lparr>inner := g, counters := c_quota_exceeded_update (\<lambda>n. n + 1) (counters a)\<rparr>,
             evicted1, Done (Inl (QuotaExceeded (client_ip rq))))
          else
            let cs = (if reclaim then c_reclaimed_from_departed_peer_update (\<lambda>n. n + 1) (counters a)
                      else counters a);
                (g2, evicted2) = (if reclaim then reclaim_port s (g, evicted1) else (g, evicted1));
                a2 = a\<lparr>inner := g2, counters := cs\<rparr>;
                choice = (if s \<noteq> 0 then Some s
                          else pick_port g2 rng (port_range a) (req_slot_proto rq)
                            (case held of None \<Rightarrow> 0 | Some p \<Rightarrow> p) (client_ip rq) (req_now rq))
            in case choice of
                 None \<Rightarrow>
                   (a2\<lparr>counters := c_exhausted_update (\<lambda>n. n + 1) (counters a2)\<rparr>,
                    evicted2, Done (Inl Exhausted))
               | Some port \<Rightarrow>
                   (case commit_grant a2 rq acquires held reclaim port of
                      (a3, st) \<Rightarrow> (a3, evicted2, st)))"

text \<open>A quarantined suggestion reads as no preference.\<close>

definition effective_suggestion :: "inner \<Rightarrow> map_request \<Rightarrow> u16" where
  "effective_suggestion g rq = (if quarantined g (req_now rq) (suggested rq) then 0 else suggested rq)"

definition try_allocate ::
  "allocator \<Rightarrow> (nat \<Rightarrow> nat) \<Rightarrow> map_request \<Rightarrow> deployer_answers \<Rightarrow> allocation list \<Rightarrow>
    allocator \<times> allocation list \<times> step" where
  "try_allocate a rng rq ans evicted =
     (case sweep_expired (req_now rq) (cooldown a) (inner a) evicted of
        (g, evicted1) \<Rightarrow>
          let a1 = a\<lparr>inner := g\<rparr>; s = effective_suggestion g rq in
          case honour_suggestion a1 rq ans s of
            (a2, Inl st) \<Rightarrow> (a2, evicted1, st)
          | (a2, Inr reclaim) \<Rightarrow>
              (case rate_gate a2 rq s of
                 (a3, Some st) \<Rightarrow> (a3, evicted1, st)
               | (a3, None) \<Rightarrow>
                   (case (tenant ans, budget ans) of
                      (Some ten, Some bud) \<Rightarrow> serve a3 rng rq ten bud s reclaim evicted1
                    | _ \<Rightarrow> (a3, evicted1, Asks Q_QuotaInputs))))"

section \<open>The request loop\<close>

definition report_released :: "allocator \<Rightarrow> allocation list \<Rightarrow> allocator" where
  "report_released a removed =
     (if removed \<noteq> [] \<and> release_observer a then a\<lparr>reported := reported a @ [removed]\<rparr> else a)"

definition report_evicted :: "allocator \<Rightarrow> allocation list \<Rightarrow> allocation option \<Rightarrow> allocator" where
  "report_evicted a evicted granted =
     (if \<not> release_observer a then a
      else report_released a
        (filter (\<lambda>e. case granted of None \<Rightarrow> True
           | Some g \<Rightarrow> (external_port e, alloc_proto e, internal_ip e)
               \<noteq> (external_port g, alloc_proto g, internal_ip g)) evicted))"

definition unasked :: "allocator \<Rightarrow> ipv4 \<Rightarrow> deployer_answers" where
  "unasked a c =
     \<lparr>tenant = (if quota_peers a = None then Some {c} else None),
      budget = (if port_budget a = None then Some (quota_per_client a) else None),
      holder_live = None\<rparr>"

definition ask_tenant :: "allocator \<Rightarrow> ipv4 \<Rightarrow> ipv4 set" where
  "ask_tenant a c = (case quota_peers a of None \<Rightarrow> {c} | Some peers \<Rightarrow> set (peers c @ [c]))"

definition ask_budget :: "allocator \<Rightarrow> ipv4 \<Rightarrow> nat" where
  "ask_budget a c =
     (case port_budget a of None \<Rightarrow> quota_per_client a
      | Some b \<Rightarrow> (case b c of None \<Rightarrow> quota_per_client a | Some n \<Rightarrow> n))"

fun ask :: "allocator \<Rightarrow> question \<Rightarrow> ipv4 \<Rightarrow> deployer_answers \<Rightarrow> deployer_answers" where
  "ask a Q_Tenant c ans = ans\<lparr>tenant := Some (ask_tenant a c)\<rparr>"
| "ask a Q_QuotaInputs c ans =
     ans\<lparr>tenant := (if tenant ans = None then Some (ask_tenant a c) else tenant ans),
         budget := (if budget ans = None then Some (ask_budget a c) else budget ans)\<rparr>"
| "ask a (Q_HolderLive holder) c ans =
     ans\<lparr>holder_live := Some (holder,
       case live_sessions a of None \<Rightarrow> True | Some sessions \<Rightarrow> sessions holder)\<rparr>"

text \<open>How many questions are still open; each pass that asks closes at least one.\<close>

definition open_questions :: "deployer_answers \<Rightarrow> nat" where
  "open_questions ans =
     (if tenant ans = None then 1 else 0) + (if budget ans = None then 1 else 0)
       + (if holder_live ans = None then 1 else 0)"

fun pending :: "question \<Rightarrow> deployer_answers \<Rightarrow> bool" where
  "pending Q_Tenant ans \<longleftrightarrow> tenant ans = None"
| "pending Q_QuotaInputs ans \<longleftrightarrow> tenant ans = None \<or> budget ans = None"
| "pending (Q_HolderLive _) ans \<longleftrightarrow> holder_live ans = None"

lemma cheap_grantable_pending: "cheap_grantable a rq ans s = Inl q \<Longrightarrow> pending q ans"
  by (auto simp: cheap_grantable_def Let_def split: if_splits option.splits)

lemma departed_reclaim_pending: "departed_reclaim a rq ans s ch = (a', Inl q) \<Longrightarrow> pending q ans"
  by (auto simp: departed_reclaim_def split: if_splits option.splits prod.splits)

lemma honour_suggestion_pending:
  "honour_suggestion a rq ans s = (a', Inl (Asks q)) \<Longrightarrow> pending q ans"
  by (auto simp: honour_suggestion_def refuse_suggestion_def Let_def
      dest: cheap_grantable_pending departed_reclaim_pending
      split: if_splits sum.splits prod.splits)

lemma rate_gate_never_asks: "rate_gate a rq s = (a', Some st) \<Longrightarrow> st \<noteq> Asks q"
  by (auto simp: rate_gate_def Let_def split: if_splits)

lemma serve_never_asks: "serve a rng rq ten bud s reclaim ev = (a', ev', st) \<Longrightarrow> st \<noteq> Asks q"
  by (auto simp: serve_def commit_grant_def Let_def split: if_splits prod.splits option.splits)

lemma try_allocate_pending:
  "try_allocate a rng rq ans ev = (a', ev', Asks q) \<Longrightarrow> pending q ans"
  by (auto simp: try_allocate_def Let_def
      dest: honour_suggestion_pending rate_gate_never_asks serve_never_asks
      split: prod.splits sum.splits option.splits)

lemma ask_closes: "pending q ans \<Longrightarrow> open_questions (ask a q c ans) < open_questions ans"
  by (cases q) (auto simp: open_questions_def)

function allocate_loop ::
  "allocator \<Rightarrow> (nat \<Rightarrow> nat) \<Rightarrow> (nat \<Rightarrow> inner \<Rightarrow> inner) \<Rightarrow> map_request \<Rightarrow> nat \<Rightarrow>
    deployer_answers \<Rightarrow> allocation list \<Rightarrow> allocator \<times> allocate_outcome \<times> nat" where
  "allocate_loop a rng interfere rq locks ans evicted =
     (case try_allocate a rng rq ans evicted of
        (a', evicted', Done result) \<Rightarrow>
          (report_evicted a' evicted' (case result of Inl _ \<Rightarrow> None | Inr al \<Rightarrow> Some al),
           \<lparr>outcome_result = result, outcome_evicted = evicted'\<rparr>, Suc locks)
      | (a', evicted', Asks q) \<Rightarrow>
          allocate_loop (a'\<lparr>inner := interfere locks (inner a')\<rparr>) rng interfere rq (Suc locks)
            (ask a' q (client_ip rq) ans) evicted')"
  by pat_completeness auto
termination
  by (relation "measure (\<lambda>(a, rng, interfere, rq, locks, ans, evicted). open_questions ans)")
    (auto intro!: ask_closes try_allocate_pending [OF sym])

declare allocate_loop.simps [simp del]

definition mk_request :: "ipv4 \<Rightarrow> proto \<Rightarrow> u16 \<Rightarrow> u16 \<Rightarrow> u32 \<Rightarrow> instant \<Rightarrow> map_request" where
  "mk_request c p iport sug secs now =
     \<lparr>client_ip = c, req_slot_proto = p, req_iport = iport, suggested = sug,
      lifetime = clamp_lifetime secs, req_now = now\<rparr>"

definition allocate_at_collecting ::
  "allocator \<Rightarrow> (nat \<Rightarrow> nat) \<Rightarrow> (nat \<Rightarrow> inner \<Rightarrow> inner) \<Rightarrow> ipv4 \<Rightarrow> proto \<Rightarrow> u16 \<Rightarrow> u16 \<Rightarrow> u32 \<Rightarrow>
    instant \<Rightarrow> allocator \<times> allocate_outcome \<times> nat" where
  "allocate_at_collecting a rng interfere c p iport sug secs now =
     allocate_loop (a\<lparr>inner := trim_side_maps now (rate_limit_window a) (inner a)\<rparr>) rng interfere
       (mk_request c p iport sug secs now) 0 (unasked a c) []"

definition allocate_at ::
  "allocator \<Rightarrow> (nat \<Rightarrow> nat) \<Rightarrow> (nat \<Rightarrow> inner \<Rightarrow> inner) \<Rightarrow> ipv4 \<Rightarrow> proto \<Rightarrow> u16 \<Rightarrow> u16 \<Rightarrow> u32 \<Rightarrow>
    instant \<Rightarrow> allocator \<times> (natpmp_error + allocation)" where
  "allocate_at a rng interfere c p iport sug secs now =
     (case allocate_at_collecting a rng interfere c p iport sug secs now of
        (a', outcome, _) \<Rightarrow> (a', outcome_result outcome))"

section \<open>Construction and wiring\<close>

definition empty_inner :: inner where
  "empty_inner =
     \<lparr>active = [], next_expiry = None, cooldown_until = [], abuse_quarantine_until = [],
      held_since = [], last_user_per_port = [], rate_limit_log = []\<rparr>"

definition zero_counters :: allocator_counters where
  "zero_counters =
     \<lparr>c_allocations = 0, c_releases = 0, c_evictions = 0, c_quota_exceeded = 0,
      c_rate_limited = 0, c_exhausted = 0, c_suggested_in_use = 0,
      c_reclaimed_from_departed_peer = 0, c_abuse_revocations = 0\<rparr>"

text \<open>\<open>from_config\<close> panics (\<open>None\<close>) on an empty port range.\<close>

definition from_config :: "allocator_config \<Rightarrow> allocator option" where
  "from_config config =
     (if fst (port_range config) \<le> snd (port_range config) then
        Some (allocator_config.extend config
          \<lparr>inner = empty_inner, quota_peers = None, port_budget = None, live_sessions = None,
           release_observer = False, counters = zero_counters, reported = []\<rparr>)
      else None)"

definition with_config :: "u16 \<times> u16 \<Rightarrow> duration \<Rightarrow> nat \<Rightarrow> duration \<Rightarrow> allocator option" where
  "with_config r cd mx window =
     from_config \<lparr>port_range = r, cooldown = cd, rate_limit_max = mx, rate_limit_window = window,
                  quota_per_client = 2 ^ 64 - 1\<rparr>"

definition set_quota_peers :: "allocator \<Rightarrow> (ipv4 \<Rightarrow> ipv4 list) \<Rightarrow> allocator \<times> bool" where
  "set_quota_peers a peers =
     (if quota_peers a = None then (a\<lparr>quota_peers := Some peers\<rparr>, True) else (a, False))"

definition set_port_budget :: "allocator \<Rightarrow> (ipv4 \<Rightarrow> nat option) \<Rightarrow> allocator \<times> bool" where
  "set_port_budget a b =
     (if port_budget a = None then (a\<lparr>port_budget := Some b\<rparr>, True) else (a, False))"

definition set_live_sessions :: "allocator \<Rightarrow> (ipv4 \<Rightarrow> bool) \<Rightarrow> allocator \<times> bool" where
  "set_live_sessions a sessions =
     (if live_sessions a = None then (a\<lparr>live_sessions := Some sessions\<rparr>, True) else (a, False))"

definition set_release_observer :: "allocator \<Rightarrow> allocator \<times> bool" where
  "set_release_observer a =
     (if release_observer a then (a, False) else (a\<lparr>release_observer := True\<rparr>, True))"

section \<open>Releases, revocations, restore\<close>

definition release_at :: "allocator \<Rightarrow> allocation \<Rightarrow> instant \<Rightarrow> allocator" where
  "release_at a al now =
     (let g = inner a; key = (external_port al, alloc_proto al); until = now + cooldown a in
      case hm_get (active g) key of
        None \<Rightarrow> a
      | Some removed \<Rightarrow>
          report_released
            (a\<lparr>inner := g\<lparr>active := hm_remove key (active g),
                 cooldown_until := hm_insert (external_port al) until (cooldown_until g),
                 last_user_per_port := hm_insert (external_port al) (internal_ip al, until)
                   (last_user_per_port g)\<rparr>,
               counters := c_releases_update (\<lambda>n. n + 1) (counters a)\<rparr>)
            [removed])"

definition release_by_client_at ::
  "allocator \<Rightarrow> ipv4 \<Rightarrow> u16 \<Rightarrow> proto \<Rightarrow> instant \<Rightarrow> allocator \<times> allocation option" where
  "release_by_client_at a c iport p now =
     (let g = inner a; until = now + cooldown a in
      case find (\<lambda>e. snd (fst e) = p \<and> internal_ip (snd e) = c \<and> internal_port (snd e) = iport)
             (active g) of
        None \<Rightarrow> (a, None)
      | Some (key, al) \<Rightarrow>
          (report_released
             (a\<lparr>inner := g\<lparr>active := hm_remove key (active g),
                  cooldown_until := hm_insert (fst key) until (cooldown_until g),
                  last_user_per_port := hm_insert (fst key) (internal_ip al, until)
                    (last_user_per_port g)\<rparr>,
                counters := c_releases_update (\<lambda>n. n + 1) (counters a)\<rparr>)
             [al],
           Some al))"

definition restore_one :: "instant \<Rightarrow> allocation \<Rightarrow> inner \<times> allocation list \<Rightarrow> inner \<times> allocation list" where
  "restore_one now entry st =
     (case st of (g, kept) \<Rightarrow>
       if expires_at entry \<le> now
          \<or> hm_contains (active g) (external_port entry, alloc_proto entry)
          \<or> (case port_owner g (external_port entry) of None \<Rightarrow> False
             | Some ow \<Rightarrow> ow \<noteq> internal_ip entry)
       then (g, kept)
       else
         (insert_active entry
            (g\<lparr>last_user_per_port := hm_insert (external_port entry) (internal_ip entry, now)
                 (last_user_per_port g),
               held_since := (if hm_contains (held_since g) (external_port entry) then held_since g
                 else hm_insert (external_port entry) now (held_since g))\<rparr>),
          kept @ [entry]))"

definition restore_at :: "allocator \<Rightarrow> allocation list \<Rightarrow> instant \<Rightarrow> allocator \<times> allocation list" where
  "restore_at a entries now =
     (case fold (restore_one now) entries (inner a, []) of (g, kept) \<Rightarrow> (a\<lparr>inner := g\<rparr>, kept))"

definition snapshot_active :: "allocator \<Rightarrow> allocation list" where
  "snapshot_active a = hm_values (active (inner a))"

definition names_address :: "allocator \<Rightarrow> ipv4 \<Rightarrow> bool" where
  "names_address a c = list_ex (\<lambda>al. internal_ip al = c) (hm_values (active (inner a)))"

definition count_evictions :: "nat \<Rightarrow> allocator_counters \<Rightarrow> allocator_counters" where
  "count_evictions n cs =
     (if n = 0 then cs
      else c_evictions_update (\<lambda>k. k + of_nat n) (c_releases_update (\<lambda>k. k + of_nat n) cs))"

definition take_active_for_port_at :: "allocator \<Rightarrow> u16 \<Rightarrow> instant \<Rightarrow> allocator \<times> allocation list" where
  "take_active_for_port_at a port now =
     (case take_port (inner a) port (now + cooldown a) of
        (g, removed) \<Rightarrow>
          (a\<lparr>inner := g, counters := count_evictions (length removed) (counters a)\<rparr>, removed))"

abbreviation MAX_ABUSE_QUARANTINE :: duration where
  "MAX_ABUSE_QUARANTINE \<equiv> from_secs (365 * 24 * 3600)"

definition revoke_for_abuse_at ::
  "allocator \<Rightarrow> u16 \<Rightarrow> duration \<Rightarrow> instant \<Rightarrow> allocator \<times> revoked_allocation list" where
  "revoke_for_abuse_at a port quarantine now =
     (let until = now + min quarantine MAX_ABUSE_QUARANTINE;
          g = inner a;
          slot = (case hm_get (abuse_quarantine_until g) port of
                    None \<Rightarrow> until | Some t \<Rightarrow> if until > t then until else t);
          g1 = g\<lparr>abuse_quarantine_until := hm_insert port slot (abuse_quarantine_until g)\<rparr>
      in case take_port g1 port (now + cooldown a) of
           (g2, removed) \<Rightarrow>
             let since = (case hm_get (held_since g2) port of None \<Rightarrow> now | Some t \<Rightarrow> t);
                 g3 = g2\<lparr>held_since := hm_remove port (held_since g2)\<rparr>;
                 cs = count_evictions (length removed) (counters a);
                 cs' = (if removed = [] then cs
                        else c_abuse_revocations_update (\<lambda>n. n + 1) cs)
             in (a\<lparr>inner := g3, counters := cs'\<rparr>,
                 map (\<lambda>al. \<lparr>rev_allocation = al, rev_held_since = since\<rparr>) removed))"

definition take_active_for_slot :: "allocator \<Rightarrow> u16 \<Rightarrow> proto \<Rightarrow> allocator \<times> allocation option" where
  "take_active_for_slot a port p =
     (a\<lparr>inner := (inner a)\<lparr>active := hm_remove (port, p) (active (inner a))\<rparr>\<rparr>,
      hm_get (active (inner a)) (port, p))"

fun take_keys :: "instant \<Rightarrow> slot list \<Rightarrow> inner \<times> allocation list \<Rightarrow> inner \<times> allocation list" where
  "take_keys until [] st = st"
| "take_keys until (key # keys) (g, removed) =
     (case hm_get (active g) key of
        None \<Rightarrow> take_keys until keys (g, removed)
      | Some al \<Rightarrow>
          take_keys until keys
            (g\<lparr>active := hm_remove key (active g),
               cooldown_until := hm_insert (fst key) until (cooldown_until g),
               last_user_per_port := hm_insert (fst key) (internal_ip al, until)
                 (last_user_per_port g)\<rparr>,
             removed @ [al]))"

definition take_active_for_ip_at :: "allocator \<Rightarrow> ipv4 \<Rightarrow> instant \<Rightarrow> allocator \<times> allocation list" where
  "take_active_for_ip_at a c now =
     (let keys = map fst (filter (\<lambda>e. internal_ip (snd e) = c) (active (inner a))) in
      case take_keys (now + cooldown a) keys (inner a, []) of
        (g, removed) \<Rightarrow>
          (a\<lparr>inner := g, counters := count_evictions (length removed) (counters a)\<rparr>, removed))"

definition rate_limit_status_at :: "allocator \<Rightarrow> ipv4 \<Rightarrow> instant \<Rightarrow> allocator \<times> rate_limit_info" where
  "rate_limit_status_at a c now =
     (let window = rate_limit_window a; g = inner a in
      case hm_get (rate_limit_log g) c of
        None \<Rightarrow> (a, \<lparr>attempts_remaining = saturate_u8 (rate_limit_max a), window_reset_secs = 0\<rparr>)
      | Some log0 \<Rightarrow>
          let log = trim_window now window log0 in
          (a\<lparr>inner := g\<lparr>rate_limit_log := hm_insert c log (rate_limit_log g)\<rparr>\<rparr>,
           \<lparr>attempts_remaining = saturate_u8 (rate_limit_max a - length log),
            window_reset_secs = (case log of [] \<Rightarrow> 0 | t # _ \<Rightarrow> window_reset window (now - t))\<rparr>))"

end
