(* ===== verification/Natpmp_Allocator_Inv.thy ===== *)
theory Natpmp_Allocator_Inv
  imports Natpmp_Allocator
begin

text \<open>
  The invariant of the allocator's tables and its preservation by every operation of
  \<^verbatim>\<open>allocator.rs\<close>, request loop with interference included.
\<close>

section \<open>The invariant\<close>

definition tables_wf :: "inner \<Rightarrow> bool" where
  "tables_wf g \<longleftrightarrow> hm_wf (active g) \<and> hm_wf (cooldown_until g) \<and> hm_wf (abuse_quarantine_until g)
     \<and> hm_wf (held_since g) \<and> hm_wf (last_user_per_port g) \<and> hm_wf (rate_limit_log g)"

text \<open>Every mapping sits in the slot it names.\<close>

definition slots_ok :: "inner \<Rightarrow> bool" where
  "slots_ok g \<longleftrightarrow> (\<forall>e \<in> set (active g). fst e = (external_port (snd e), alloc_proto (snd e)))"

text \<open>Ownership is client-level: both slots of a port belong to the same address.\<close>

definition single_owner :: "inner \<Rightarrow> bool" where
  "single_owner g \<longleftrightarrow> (\<forall>e \<in> set (active g). \<forall>e' \<in> set (active g).
     fst (fst e) = fst (fst e') \<longrightarrow> internal_ip (snd e) = internal_ip (snd e'))"

text \<open>\<open>next_expiry\<close> is never later than the earliest expiry.\<close>

definition expiry_bound :: "inner \<Rightarrow> bool" where
  "expiry_bound g \<longleftrightarrow> (\<forall>e \<in> set (active g).
     case next_expiry g of None \<Rightarrow> False | Some t \<Rightarrow> t \<le> expires_at (snd e))"

text \<open>Every port held has a start-of-holding entry.\<close>

definition holding_recorded :: "inner \<Rightarrow> bool" where
  "holding_recorded g \<longleftrightarrow> (\<forall>e \<in> set (active g). hm_contains (held_since g) (fst (fst e)))"

definition inner_inv :: "inner \<Rightarrow> bool" where
  "inner_inv g \<longleftrightarrow>
     tables_wf g \<and> slots_ok g \<and> single_owner g \<and> expiry_bound g \<and> holding_recorded g"

lemmas inv_defs = inner_inv_def tables_wf_def slots_ok_def single_owner_def expiry_bound_def
  holding_recorded_def

lemma inner_inv_empty: "inner_inv empty_inner"
  by (simp add: inv_defs empty_inner_def)

lemma inner_inv_wfD:
  assumes "inner_inv g"
  shows "hm_wf (active g)" "hm_wf (cooldown_until g)" "hm_wf (abuse_quarantine_until g)"
    "hm_wf (held_since g)" "hm_wf (last_user_per_port g)" "hm_wf (rate_limit_log g)"
  using assms by (simp_all add: inner_inv_def tables_wf_def)

text \<open>An operation that only removes mappings keeps the invariant.\<close>

lemma inner_inv_shrink:
  assumes "inner_inv g" and "set (active g') \<subseteq> set (active g)"
    and "next_expiry g' = next_expiry g" and "held_since g' = held_since g"
    and "tables_wf g'"
  shows "inner_inv g'"
proof -
  note sub = subsetD [OF assms(2)]
  have "slots_ok g'" using assms(1) sub unfolding slots_ok_def inner_inv_def by blast
  moreover have "single_owner g'" using assms(1) sub unfolding single_owner_def inner_inv_def by blast
  moreover have "expiry_bound g'" using assms(1,3) sub unfolding expiry_bound_def inner_inv_def by simp
  moreover have "holding_recorded g'"
    using assms(1,4) sub unfolding holding_recorded_def inner_inv_def by simp
  ultimately show ?thesis using assms(5) by (simp add: inner_inv_def)
qed

text \<open>An operation that leaves the mappings alone keeps the invariant.\<close>

lemma inner_inv_same_active:
  assumes "inner_inv g" and "active g' = active g" and "next_expiry g' = next_expiry g"
    and "tables_wf g'" and "holding_recorded g'"
  shows "inner_inv g'"
  using assms(1,4,5)
  unfolding inner_inv_def slots_ok_def single_owner_def expiry_bound_def assms(2,3) by blast

text \<open>All mappings of a port, if any, belong to the client.\<close>

definition free_for :: "inner \<Rightarrow> u16 \<Rightarrow> ipv4 \<Rightarrow> bool" where
  "free_for g p c \<longleftrightarrow> (\<forall>e \<in> set (active g). fst (fst e) = p \<longrightarrow> internal_ip (snd e) = c)"

lemma inner_inv_insert_active:
  assumes "inner_inv g" and "free_for g (external_port al) (internal_ip al)"
    and "hm_contains (held_since g) (external_port al)"
  shows "inner_inv (insert_active al g)"
proof -
  let ?k = "(external_port al, alloc_proto al)"
  have wf: "hm_wf (active g)" using assms(1) by (rule inner_inv_wfD)
  have act: "set (active (insert_active al g)) = insert (?k, al) {e \<in> set (active g). fst e \<noteq> ?k}"
    using wf by (simp add: insert_active_def set_hm_insert)
  have "tables_wf (insert_active al g)"
    using assms(1) by (simp add: inner_inv_def tables_wf_def insert_active_def hm_wf_insert)
  moreover have "slots_ok (insert_active al g)"
    using assms(1) unfolding slots_ok_def act inner_inv_def by auto
  moreover have "single_owner (insert_active al g)"
    unfolding single_owner_def act
  proof (intro ballI impI)
    fix e e'
    assume e: "e \<in> insert (?k, al) {e \<in> set (active g). fst e \<noteq> ?k}"
      "e' \<in> insert (?k, al) {e \<in> set (active g). fst e \<noteq> ?k}" "fst (fst e) = fst (fst e')"
    have "internal_ip (snd e) = internal_ip (snd e')"
      if "e \<in> set (active g)" "e' \<in> set (active g)"
      using assms(1) that e(3) unfolding inner_inv_def single_owner_def by blast
    with e assms(2) show "internal_ip (snd e) = internal_ip (snd e')"
      unfolding free_for_def by auto
  qed
  moreover have "expiry_bound (insert_active al g)"
    using assms(1) unfolding expiry_bound_def act inner_inv_def
    by (cases "next_expiry g") (auto simp: insert_active_def note_expiry_def min.coboundedI1)
  moreover have "holding_recorded (insert_active al g)"
    using assms(1,3) unfolding holding_recorded_def act inner_inv_def
    by (auto simp: insert_active_def)
  ultimately show ?thesis by (simp add: inner_inv_def)
qed

section \<open>Owners and eligibility\<close>

lemma active_get_iff: "inner_inv g \<Longrightarrow> hm_get (active g) k = Some al \<longleftrightarrow> (k, al) \<in> set (active g)"
  by (simp add: hm_in_set_iff inner_inv_wfD)

lemma slot_of_entry: "inner_inv g \<Longrightarrow> (k, al) \<in> set (active g) \<Longrightarrow> k = (external_port al, alloc_proto al)"
  by (auto simp: inner_inv_def slots_ok_def)

lemma slot_of_port: "fst k = p \<longleftrightarrow> k = (p, Tcp) \<or> k = (p, Udp)" for k :: slot
  by (cases k; cases "snd k") auto

lemma port_owner_None_iff:
  "port_owner g p = None \<longleftrightarrow> (\<forall>e \<in> set (active g). fst (fst e) \<noteq> p)"
  by (auto simp: slot_of_port port_owner_def hm_get_None_iff split: option.splits)
    (force simp: hm_get_None_iff dest: hm_get_in_set)+

lemma port_owner_SomeD:
  assumes "port_owner g p = Some c"
  shows "\<exists>e \<in> set (active g). fst (fst e) = p \<and> internal_ip (snd e) = c"
proof -
  obtain q al where "hm_get (active g) (p, q) = Some al" "internal_ip al = c"
    using assms by (auto simp: port_owner_def split: option.splits)
  then show ?thesis by (force dest: hm_get_in_set)
qed

lemma port_owner_Some_iff:
  assumes "inner_inv g"
  shows "port_owner g p = Some c \<longleftrightarrow>
    (\<exists>e \<in> set (active g). fst (fst e) = p) \<and> free_for g p c"
proof
  assume "port_owner g p = Some c"
  then show "(\<exists>e \<in> set (active g). fst (fst e) = p) \<and> free_for g p c"
    using port_owner_SomeD assms unfolding free_for_def inner_inv_def single_owner_def by metis
next
  assume r: "(\<exists>e \<in> set (active g). fst (fst e) = p) \<and> free_for g p c"
  then obtain d where "port_owner g p = Some d"
    using port_owner_None_iff by blast
  then show "port_owner g p = Some c"
    using port_owner_SomeD r unfolding free_for_def by metis
qed

lemma free_for_iff:
  assumes "inner_inv g"
  shows "free_for g p c \<longleftrightarrow> port_owner g p = None \<or> port_owner g p = Some c"
  using port_owner_Some_iff [OF assms] port_owner_None_iff [of g p]
  unfolding free_for_def by auto

lemma free_for_shrink: "free_for g p c \<Longrightarrow> set (active g') \<subseteq> set (active g) \<Longrightarrow> free_for g' p c"
  unfolding free_for_def by blast

lemma no_leg_iff: "(\<not> hm_contains (active g) (p, Tcp) \<and> \<not> hm_contains (active g) (p, Udp))
    \<longleftrightarrow> port_owner g p = None"
  by (auto simp: port_owner_def hm_contains_def split: option.splits)

lemma port_eligible_unowned: "port_eligible g p c now r \<Longrightarrow> port_owner g p = None"
  by (auto simp: port_eligible_def no_leg_iff [symmetric] split: if_splits)

lemma port_eligible_not_quarantined: "port_eligible g p c now r \<Longrightarrow> \<not> quarantined g now p"
  by (auto simp: port_eligible_def split: if_splits)

section \<open>The expiry sweep and the side maps\<close>

lemma tables_wf_active: "tables_wf g \<Longrightarrow> hm_wf (active g)"
  by (simp add: tables_wf_def)

lemma tables_wf_log: "tables_wf g \<Longrightarrow> hm_wf (rate_limit_log g)"
  by (simp add: tables_wf_def)

lemma tables_wf_update:
  "tables_wf g \<Longrightarrow> hm_wf m \<Longrightarrow> tables_wf (g\<lparr>active := m\<rparr>)"
  "tables_wf g \<Longrightarrow> hm_wf m \<Longrightarrow> tables_wf (g\<lparr>active := m, next_expiry := t\<rparr>)"
  "tables_wf g \<Longrightarrow> hm_wf l \<Longrightarrow> tables_wf (g\<lparr>rate_limit_log := l\<rparr>)"
  "tables_wf g \<Longrightarrow> hm_wf h \<Longrightarrow> tables_wf (g\<lparr>held_since := h\<rparr>)"
  by (simp_all add: tables_wf_def)

lemma arm_expired_frame [simp]:
  "active (arm_expired now cd e g) = active g"
  "next_expiry (arm_expired now cd e g) = next_expiry g"
  "abuse_quarantine_until (arm_expired now cd e g) = abuse_quarantine_until g"
  "held_since (arm_expired now cd e g) = held_since g"
  "rate_limit_log (arm_expired now cd e g) = rate_limit_log g"
  by (simp_all add: arm_expired_def Let_def split: prod.splits)

lemma fold_arm_frame [simp]:
  "active (fold (arm_expired now cd) es g) = active g"
  "next_expiry (fold (arm_expired now cd) es g) = next_expiry g"
  "abuse_quarantine_until (fold (arm_expired now cd) es g) = abuse_quarantine_until g"
  "held_since (fold (arm_expired now cd) es g) = held_since g"
  "rate_limit_log (fold (arm_expired now cd) es g) = rate_limit_log g"
  by (induction es arbitrary: g) simp_all

lemma tables_wf_arm: "tables_wf g \<Longrightarrow> tables_wf (arm_expired now cd e g)"
  by (auto simp: arm_expired_def tables_wf_def Let_def intro: wf_table split: prod.splits)

lemma tables_wf_fold_arm: "tables_wf g \<Longrightarrow> tables_wf (fold (arm_expired now cd) es g)"
  by (induction es arbitrary: g) (auto intro: tables_wf_arm)

lemma fold_note_expiry:
  "case fold (\<lambda>e t. note_expiry t (expires_at (snd e))) xs ini of
     None \<Rightarrow> ini = None \<and> xs = []
   | Some t \<Rightarrow> (\<forall>e \<in> set xs. t \<le> expires_at (snd e)) \<and> (\<forall>u. ini = Some u \<longrightarrow> t \<le> u)"
proof (induction xs arbitrary: ini)
  case (Cons x xs)
  show ?case
    using Cons.IH [of "note_expiry ini (expires_at (snd x))"]
    by (auto simp: note_expiry_def split: option.splits)
qed (simp split: option.splits)

definition live :: "instant \<Rightarrow> (slot, allocation) hmap \<Rightarrow> (slot, allocation) hmap" where
  "live now m = filter (\<lambda>e. now < expires_at (snd e)) m"

definition dead :: "instant \<Rightarrow> (slot, allocation) hmap \<Rightarrow> (slot, allocation) hmap" where
  "dead now m = filter (\<lambda>e. expires_at (snd e) \<le> now) m"

lemma live_idem [simp]: "live now (live now m) = live now m"
  by (simp add: live_def)

lemma set_live_subset: "set (live now m) \<subseteq> set m"
  by (auto simp: live_def)

lemma early_exit_all_live:
  assumes "inner_inv g" and "case next_expiry g of None \<Rightarrow> True | Some t \<Rightarrow> t > now"
  shows "live now (active g) = active g" "dead now (active g) = []"
proof -
  have "\<forall>e \<in> set (active g). now < expires_at (snd e)"
    using assms by (auto simp: inner_inv_def expiry_bound_def split: option.splits)
  then show "live now (active g) = active g" "dead now (active g) = []"
    by (auto simp: live_def dead_def filter_id_conv filter_empty_conv)
qed

text \<open>What one sweep does: it removes exactly the expired mappings and hands them back.\<close>

lemma sweep_expired_spec:
  assumes "inner_inv g" and "sweep_expired now cd g ev = (g', ev')"
  shows "active g' = live now (active g)" "ev' = ev @ map snd (dead now (active g))"
    "abuse_quarantine_until g' = abuse_quarantine_until g" "held_since g' = held_since g"
    "rate_limit_log g' = rate_limit_log g" "inner_inv g'"
proof -
  show act: "active g' = live now (active g)" and "ev' = ev @ map snd (dead now (active g))"
    and fr: "abuse_quarantine_until g' = abuse_quarantine_until g" "held_since g' = held_since g"
    "rate_limit_log g' = rate_limit_log g"
    using assms early_exit_all_live [OF assms(1)]
    by (auto simp: sweep_expired_def Let_def hm_retain_def live_def dead_def not_less
        split: if_splits)
  show "inner_inv g'"
  proof (cases "case next_expiry g of None \<Rightarrow> True | Some t \<Rightarrow> t > now")
    case True
    then show ?thesis using assms by (simp add: sweep_expired_def)
  next
    case False
    then have ne: "next_expiry g' = fold (\<lambda>e t. note_expiry t (expires_at (snd e))) (active g') None"
      and "tables_wf g'"
      using assms by (auto simp: sweep_expired_def Let_def inner_inv_def tables_wf_update
          hm_wf_retain tables_wf_active intro!: tables_wf_fold_arm)
    have "expiry_bound g'"
      using fold_note_expiry [where xs = "active g'" and ini = None] unfolding expiry_bound_def ne
      by (auto split: option.splits)
    with assms(1) \<open>tables_wf g'\<close> show ?thesis
      using set_live_subset [of now "active g"]
      unfolding inner_inv_def slots_ok_def single_owner_def holding_recorded_def act fr
      by blast
  qed
qed

lemma trim_side_maps_frame [simp]:
  "active (trim_side_maps now w g) = active g"
  "next_expiry (trim_side_maps now w g) = next_expiry g"
  by (simp_all add: trim_side_maps_def)

lemma inner_inv_trim_side_maps:
  assumes "inner_inv g"
  shows "inner_inv (trim_side_maps now w g)"
proof -
  have "tables_wf (trim_side_maps now w g)"
    using assms by (auto simp: inner_inv_def tables_wf_def trim_side_maps_def hm_wf_map_values
        intro: wf_table hm_wf_filter)
  moreover have "holding_recorded (trim_side_maps now w g)"
    unfolding holding_recorded_def
  proof
    fix e
    assume e: "e \<in> set (active (trim_side_maps now w g))"
    obtain p q al where [simp]: "e = ((p, q), al)" by (cases e) auto
    have "hm_contains (active g) (p, q)"
      using e by (force simp: hm_contains_def hm_get_None_iff)
    then show "hm_contains (held_since (trim_side_maps now w g)) (fst (fst e))"
      using assms e
      by (cases q) (auto simp: trim_side_maps_def hm_contains_def hm_get_retain inner_inv_def
          tables_wf_def holding_recorded_def split: option.splits)
  qed
  ultimately show ?thesis
    using assms by (auto intro: inner_inv_same_active)
qed

section \<open>The stages before the table changes\<close>

text \<open>The stages before \<open>serve\<close> touch the rate-limit log and the counters only.\<close>

definition log_only :: "allocator \<Rightarrow> allocator \<Rightarrow> bool" where
  "log_only a a' \<longleftrightarrow> (\<exists>log cs.
     a' = a\<lparr>inner := (inner a)\<lparr>rate_limit_log := log\<rparr>, counters := cs\<rparr>
     \<and> (hm_wf (rate_limit_log (inner a)) \<longrightarrow> hm_wf log))"

lemma log_onlyI:
  "hm_wf (rate_limit_log (inner a)) \<longrightarrow> hm_wf log \<Longrightarrow>
    log_only a (a\<lparr>inner := (inner a)\<lparr>rate_limit_log := log\<rparr>, counters := cs\<rparr>)"
  unfolding log_only_def by blast

lemma log_onlyI':
  "hm_wf (rate_limit_log (inner a)) \<longrightarrow> hm_wf log \<Longrightarrow>
    log_only a (a\<lparr>inner := (inner a)\<lparr>rate_limit_log := log\<rparr>\<rparr>)"
  unfolding log_only_def by (rule exI [of _ log], rule exI [of _ "counters a"]) (cases a, simp)

lemma log_only_refl: "log_only a a"
  using log_onlyI' [of a "rate_limit_log (inner a)"] by simp

lemma log_only_trans: "log_only a b \<Longrightarrow> log_only b c \<Longrightarrow> log_only a c"
  unfolding log_only_def by (elim exE conjE) (simp, blast)

lemma log_frame [simp]:
  "port_owner (g\<lparr>rate_limit_log := l\<rparr>) p = port_owner g p"
  "quarantined (g\<lparr>rate_limit_log := l\<rparr>) now p = quarantined g now p"
  "port_eligible (g\<lparr>rate_limit_log := l\<rparr>) p c now r = port_eligible g p c now r"
  "same_tuple (g\<lparr>rate_limit_log := l\<rparr>) rq = same_tuple g rq"
  "acquires_new_port (g\<lparr>rate_limit_log := l\<rparr>) rq s = acquires_new_port g rq s"
  "held_ports (g\<lparr>rate_limit_log := l\<rparr>) ten = held_ports g ten"
  "free_for (g\<lparr>rate_limit_log := l\<rparr>) p c = free_for g p c"
  by (simp_all add: port_owner_def quarantined_def port_eligible_def same_tuple_def
      acquires_new_port_def held_ports_def free_for_def cong: option.case_cong)

lemma log_onlyD:
  assumes "log_only a a'"
  shows "active (inner a') = active (inner a)"
    "next_expiry (inner a') = next_expiry (inner a)"
    "cooldown_until (inner a') = cooldown_until (inner a)"
    "abuse_quarantine_until (inner a') = abuse_quarantine_until (inner a)"
    "held_since (inner a') = held_since (inner a)"
    "last_user_per_port (inner a') = last_user_per_port (inner a)"
    "port_range a' = port_range a" "cooldown a' = cooldown a"
    "rate_limit_max a' = rate_limit_max a" "rate_limit_window a' = rate_limit_window a"
    "quota_per_client a' = quota_per_client a" "quota_peers a' = quota_peers a"
    "port_budget a' = port_budget a" "live_sessions a' = live_sessions a"
    "release_observer a' = release_observer a" "reported a' = reported a"
    "port_owner (inner a') p = port_owner (inner a) p"
    "quarantined (inner a') now p = quarantined (inner a) now p"
    "port_eligible (inner a') p c now r = port_eligible (inner a) p c now r"
    "same_tuple (inner a') rq = same_tuple (inner a) rq"
    "acquires_new_port (inner a') rq s = acquires_new_port (inner a) rq s"
    "free_for (inner a') p c = free_for (inner a) p c"
    "held_ports (inner a') ten = held_ports (inner a) ten"
  using assms by (auto simp: log_only_def)

lemma log_only_inv: "log_only a a' \<Longrightarrow> inner_inv (inner a) \<Longrightarrow> inner_inv (inner a')"
  by (rule inner_inv_shrink [of "inner a"])
    (auto simp: log_only_def inner_inv_def tables_wf_update tables_wf_log)

lemma log_only_departed: "departed_reclaim a rq ans s ch = (a', r) \<Longrightarrow> log_only a a'"
  by (auto simp: departed_reclaim_def within_rate_budget_def Let_def log_only_refl
      intro!: log_onlyI' hm_wf_insert split: option.splits if_splits)

lemma log_only_refuse: "refuse_suggestion a rq s = (a', st) \<Longrightarrow> log_only a a'"
  by (auto simp: refuse_suggestion_def Let_def intro!: log_onlyI hm_wf_insert split: if_splits)

lemma log_only_honour: "honour_suggestion a rq ans s = (a', r) \<Longrightarrow> log_only a a'"
  by (auto simp: honour_suggestion_def log_only_refl
      dest: log_only_departed log_only_refuse intro: log_only_trans
      split: if_splits sum.splits prod.splits)

lemma log_only_rate_gate: "rate_gate a rq s = (a', r) \<Longrightarrow> log_only a a'"
  by (auto simp: rate_gate_def Let_def log_only_refl
      intro!: log_onlyI log_onlyI' hm_wf_insert split: if_splits)

text \<open>What passing the suggestion stage guarantees about the port.\<close>

lemma cheap_grantable_True:
  assumes "cheap_grantable a rq ans s = Inr True"
  shows "port_in_range s (port_range a)"
    "port_owner (inner a) s = None \<or> port_owner (inner a) s = Some (client_ip rq)"
    "port_owner (inner a) s = None \<Longrightarrow>
       port_eligible (inner a) s (client_ip rq) (req_now rq) None
       \<or> (\<exists>ten. tenant ans = Some ten
            \<and> port_eligible (inner a) s (client_ip rq) (req_now rq) (Some ten))"
  using assms
  by (cases "req_slot_proto rq";
      auto simp: cheap_grantable_def Let_def port_owner_def split: if_splits option.splits)+

lemma departed_reclaim_True:
  assumes "departed_reclaim a rq ans s ch = (a', Inr True)"
  obtains holder ten where "port_owner (inner a) s = Some holder" "holder \<noteq> client_ip rq"
    "port_in_range s (port_range a)" "tenant ans = Some ten" "holder \<in> ten"
    "holder_live ans = Some (holder, False)" "live_sessions a \<noteq> None"
  using assms by (auto simp: departed_reclaim_def split: if_splits option.splits prod.splits)

lemma honour_suggestion_pass:
  assumes "honour_suggestion a rq ans s = (a', Inr reclaim)" and "s \<noteq> 0"
  shows "if reclaim then \<exists>b. departed_reclaim a rq ans s False = (b, Inr True)
         else cheap_grantable a rq ans s = Inr True"
  using assms
  by (auto simp: honour_suggestion_def departed_reclaim_def
      split: if_splits sum.splits prod.splits option.splits)

section \<open>Serving a request\<close>

definition tuple_match :: "map_request \<Rightarrow> slot \<times> allocation \<Rightarrow> bool" where
  "tuple_match rq e \<longleftrightarrow> snd (fst e) = req_slot_proto rq \<and> internal_ip (snd e) = client_ip rq
     \<and> internal_port (snd e) = req_iport rq"

definition others :: "map_request \<Rightarrow> (slot, allocation) hmap \<Rightarrow> (slot, allocation) hmap" where
  "others rq m = filter (\<lambda>e. \<not> tuple_match rq e) m"

definition renewed :: "map_request \<Rightarrow> (slot, allocation) hmap \<Rightarrow> allocation list" where
  "renewed rq m = map snd (filter (tuple_match rq) m)"

definition previous_port :: "inner \<Rightarrow> map_request \<Rightarrow> u16 option" where
  "previous_port g rq =
     (if same_tuple g rq = [] then None else Some (fst (last (same_tuple g rq))))"

lemma same_tuple_eq: "same_tuple g rq = map fst (filter (tuple_match rq) (active g))"
  by (simp add: same_tuple_def tuple_match_def [abs_def])

lemma drop_slots_spec:
  assumes "distinct keys" and "set keys \<subseteq> fst ` set (active g)"
  shows "drop_slots keys (g, held, ev) =
    (g\<lparr>active := filter (\<lambda>e. fst e \<notin> set keys) (active g)\<rparr>,
     if keys = [] then held else Some (fst (last keys)),
     ev @ map (\<lambda>k. the (hm_get (active g) k)) keys)"
  using assms
proof (induction keys arbitrary: g held ev)
  case Nil
  then show ?case by simp
next
  case (Cons k keys)
  obtain al where k: "hm_get (active g) k = Some al"
    using Cons.prems(2) by (metis hm_get_None_iff list.set_intros(1) not_Some_eq subsetD)
  let ?g = "g\<lparr>active := hm_remove k (active g)\<rparr>"
  have "set keys \<subseteq> fst ` set (active ?g)"
  proof
    fix x
    assume "x \<in> set keys"
    then have "x \<in> fst ` set (active g)" "x \<noteq> k"
      using Cons.prems by (auto simp del: fst_conv)
    then show "x \<in> fst ` set (active ?g)" by (auto simp: hm_remove_def)
  qed
  then have "drop_slots keys (?g, Some (fst k), ev @ [al]) =
    (?g\<lparr>active := filter (\<lambda>e. fst e \<notin> set keys) (active ?g)\<rparr>,
     if keys = [] then Some (fst k) else Some (fst (last keys)),
     (ev @ [al]) @ map (\<lambda>k. the (hm_get (active ?g) k)) keys)"
    using Cons.IH Cons.prems(1) by simp
  moreover have "map (\<lambda>k. the (hm_get (active ?g) k)) keys = map (\<lambda>k. the (hm_get (active g) k)) keys"
    using Cons.prems(1) by (auto simp: table)
  moreover have "filter (\<lambda>e. fst e \<notin> set keys) (active ?g) =
      filter (\<lambda>e. fst e \<notin> set (k # keys)) (active g)"
    by (auto simp: hm_remove_def intro!: filter_cong)
  ultimately show ?case
    by (simp add: k)
qed

lemma wf_filter_keys:
  assumes "hm_wf m"
  shows "filter (\<lambda>e. fst e \<notin> fst ` set (filter P m)) m = filter (\<lambda>e. \<not> P e) m"
proof (rule filter_cong)
  fix e
  assume e: "e \<in> set m"
  have "e = e'" if "e' \<in> set m" "fst e = fst e'" for e'
    using assms e that unfolding hm_wf_def by (metis distinct_map inj_on_def)
  then show "(fst e \<notin> fst ` set (filter P m)) = (\<not> P e)"
    using e by auto
qed simp

lemma map_get_keys:
  assumes "hm_wf m"
  shows "map (\<lambda>k. the (hm_get m k)) (map fst (filter P m)) = map snd (filter P m)"
  using assms by (auto simp: hm_in_set_iff)

lemma drop_same_tuple:
  assumes "hm_wf (active g)"
  shows "drop_slots (same_tuple g rq) (g, None, ev) =
    (g\<lparr>active := others rq (active g)\<rparr>, previous_port g rq, ev @ renewed rq (active g))"
proof -
  have "distinct (same_tuple g rq)"
    using assms by (simp add: same_tuple_eq hm_wf_filter [unfolded hm_wf_def] hm_wf_def)
  moreover have "set (same_tuple g rq) \<subseteq> fst ` set (active g)"
    by (auto simp: same_tuple_eq)
  ultimately show ?thesis
    using assms wf_filter_keys [OF assms, of "tuple_match rq"] map_get_keys [OF assms, of "tuple_match rq"]
    by (simp add: drop_slots_spec others_def renewed_def previous_port_def same_tuple_eq)
qed

text \<open>Both legs of a port.\<close>

definition legs :: "(slot, allocation) hmap \<Rightarrow> u16 \<Rightarrow> allocation list" where
  "legs m s = (case hm_get m (s, Tcp) of None \<Rightarrow> [] | Some al \<Rightarrow> [al])
    @ (case hm_get m (s, Udp) of None \<Rightarrow> [] | Some al \<Rightarrow> [al])"

definition without_port :: "u16 \<Rightarrow> (slot, allocation) hmap \<Rightarrow> (slot, allocation) hmap" where
  "without_port s m = filter (\<lambda>e. fst (fst e) \<noteq> s) m"

lemma hm_remove_absent: "hm_get m k = None \<Longrightarrow> hm_remove k m = m"
  by (force simp: hm_get_None_iff hm_remove_def filter_id_conv)

lemma remove_both_legs: "hm_remove (s, Udp) (hm_remove (s, Tcp) m) = without_port s m"
  by (auto simp: hm_remove_def without_port_def slot_of_port intro!: filter_cong)

lemma set_legs:
  assumes "hm_wf m"
  shows "set (legs m s) = snd ` {e \<in> set m. fst (fst e) = s}"
proof -
  have "set (legs m s) = {al. ((s, Tcp), al) \<in> set m \<or> ((s, Udp), al) \<in> set m}"
    using assms by (auto simp: legs_def hm_in_set_iff split: option.splits)
  also have "\<dots> = snd ` {e \<in> set m. fst (fst e) = s}"
    by (force simp: slot_of_port image_iff)
  finally show ?thesis .
qed

lemma reclaim_port_spec:
  "reclaim_port s (g, ev) =
     (g\<lparr>active := without_port s (active g)\<rparr>, ev @ legs (active g) s)"
  by (cases "hm_get (active g) (s, Tcp)"; cases "hm_get (active g) (s, Udp)")
    (simp_all add: reclaim_port_def legs_def table hm_remove_absent remove_both_legs [symmetric])

definition granted :: "map_request \<Rightarrow> u16 \<Rightarrow> allocation" where
  "granted rq port =
     \<lparr>external_port = port, internal_ip = client_ip rq, internal_port = req_iport rq,
      alloc_proto = req_slot_proto rq, expires_at = req_now rq + lifetime rq\<rparr>"

lemma granted_simps [simp]:
  "external_port (granted rq p) = p" "internal_ip (granted rq p) = client_ip rq"
  "internal_port (granted rq p) = req_iport rq" "alloc_proto (granted rq p) = req_slot_proto rq"
  "expires_at (granted rq p) = req_now rq + lifetime rq"
  by (simp_all add: granted_def)

lemma commit_grant_spec:
  assumes "commit_grant a rq acq held reclaim port = (a', st)"
  obtains log since where "st = Done (Inr (granted rq port))"
    "inner a' = insert_active (granted rq port)
       ((inner a)\<lparr>rate_limit_log := log, held_since := hm_insert port since (held_since (inner a))\<rparr>)"
    "hm_wf (rate_limit_log (inner a)) \<Longrightarrow> hm_wf log"
    "log = (if acq then hm_insert (client_ip rq) (client_log (inner a) (client_ip rq) @ [req_now rq])
              (rate_limit_log (inner a)) else rate_limit_log (inner a))"
    "since = (case hm_get (held_since (inner a)) port of None \<Rightarrow> req_now rq
       | Some t \<Rightarrow> if held = Some port \<or> reclaim \<or> port_owner (inner a) port = Some (client_ip rq)
           then t else req_now rq)"
    "a' = a\<lparr>inner := inner a', counters := c_allocations_update (\<lambda>n. n + 1) (counters a)\<rparr>"
proof -
  let ?log = "if acq then hm_insert (client_ip rq) (client_log (inner a) (client_ip rq) @ [req_now rq])
              (rate_limit_log (inner a)) else rate_limit_log (inner a)"
  show ?thesis
    using assms
    by (intro that [where log = ?log])
      (cases acq; auto simp: commit_grant_def Let_def granted_def intro: wf_table cong: option.case_cong)+
qed

definition served_inner :: "inner \<Rightarrow> map_request \<Rightarrow> u16 \<Rightarrow> bool \<Rightarrow> inner" where
  "served_inner g rq s reclaim =
     g\<lparr>active := (if reclaim then without_port s (others rq (active g)) else others rq (active g))\<rparr>"

definition served_removed :: "inner \<Rightarrow> map_request \<Rightarrow> u16 \<Rightarrow> bool \<Rightarrow> allocation list" where
  "served_removed g rq s reclaim =
     renewed rq (active g) @ (if reclaim then legs (others rq (active g)) s else [])"

lemma serve_cases:
  assumes "serve a rng rq ten bud s reclaim ev = (a', ev', st)" and "inner_inv (inner a)"
  obtains
    (quota) "st = Done (Inl (QuotaExceeded (client_ip rq)))"
      "inner a' = served_inner (inner a) rq s False" "ev' = ev @ served_removed (inner a) rq s False"
      "\<not> reuses_held_port (served_inner (inner a) rq s False) ten (previous_port (inner a) rq) s"
      "bud \<le> card (held_ports (served_inner (inner a) rq s False) ten)"
  | (exhausted) "st = Done (Inl Exhausted)" "s = 0"
      "inner a' = served_inner (inner a) rq s reclaim" "ev' = ev @ served_removed (inner a) rq s reclaim"
      "pick_port (inner a') rng (port_range a) (req_slot_proto rq)
         (case previous_port (inner a) rq of None \<Rightarrow> 0 | Some p \<Rightarrow> p) (client_ip rq) (req_now rq) = None"
  | (granted) port cs where "ev' = ev @ served_removed (inner a) rq s reclaim"
      "(a', st) = commit_grant (a\<lparr>inner := served_inner (inner a) rq s reclaim, counters := cs\<rparr>) rq
         (acquires_new_port (inner a) rq s) (previous_port (inner a) rq) reclaim port"
      "s \<noteq> 0 \<Longrightarrow> port = s"
      "s = 0 \<Longrightarrow> pick_port (served_inner (inner a) rq s reclaim) rng (port_range a) (req_slot_proto rq)
         (case previous_port (inner a) rq of None \<Rightarrow> 0 | Some p \<Rightarrow> p) (client_ip rq) (req_now rq)
         = Some port"
      "reuses_held_port (served_inner (inner a) rq s False) ten (previous_port (inner a) rq) s
       \<or> card (held_ports (served_inner (inner a) rq s False) ten) < bud"
proof -
  let ?g = "(inner a)\<lparr>active := others rq (active (inner a))\<rparr>"
  have d: "drop_slots (same_tuple (inner a) rq) (inner a, None, ev) =
      (?g, previous_port (inner a) rq, ev @ renewed rq (active (inner a)))"
    using assms(2) by (simp add: drop_same_tuple inner_inv_wfD)
  have sf: "served_inner (inner a) rq s False = ?g"
    "served_removed (inner a) rq s False = renewed rq (active (inner a))"
    by (simp_all add: served_inner_def served_removed_def)
  show ?thesis
  proof (cases "\<not> reuses_held_port ?g ten (previous_port (inner a) rq) s
      \<and> bud \<le> card (held_ports ?g ten)")
    case True
    then show ?thesis
      using assms(1) sf by (intro quota) (auto simp: serve_def Let_def d)
  next
    case False
    have r: "(if reclaim then reclaim_port s (?g, ev @ renewed rq (active (inner a)))
        else (?g, ev @ renewed rq (active (inner a)))) =
      (served_inner (inner a) rq s reclaim, ev @ served_removed (inner a) rq s reclaim)"
      by (simp add: reclaim_port_spec served_inner_def served_removed_def)
    let ?cs = "if reclaim then c_reclaimed_from_departed_peer_update (\<lambda>n. n + 1) (counters a)
                      else counters a"
    let ?choice = "if s \<noteq> 0 then Some s
      else pick_port (served_inner (inner a) rq s reclaim) rng (port_range a) (req_slot_proto rq)
        (case previous_port (inner a) rq of None \<Rightarrow> 0 | Some p \<Rightarrow> p) (client_ip rq) (req_now rq)"
    have e: "serve a rng rq ten bud s reclaim ev =
      (case ?choice of
         None \<Rightarrow> (a\<lparr>inner := served_inner (inner a) rq s reclaim,
                   counters := c_exhausted_update (\<lambda>n. n + 1) ?cs\<rparr>,
                 ev @ served_removed (inner a) rq s reclaim, Done (Inl Exhausted))
       | Some port \<Rightarrow> (case commit_grant (a\<lparr>inner := served_inner (inner a) rq s reclaim, counters := ?cs\<rparr>)
             rq (acquires_new_port (inner a) rq s) (previous_port (inner a) rq) reclaim port of
           (a3, st) \<Rightarrow> (a3, ev @ served_removed (inner a) rq s reclaim, st)))"
      using False unfolding serve_def d Let_def prod.case if_not_P [OF False] r
      by (simp split: option.split)
    show ?thesis
    proof (cases ?choice)
      case None
      then have "s = 0" by (simp split: if_splits)
      then show ?thesis
        using None e assms(1) by (intro exhausted) (auto split: if_splits)
    next
      case (Some port)
      then show ?thesis
        using e assms(1) False sf
        by (intro granted [where port = port and cs = ?cs]) (auto split: prod.splits if_splits)
    qed
  qed
qed

section \<open>The port choice\<close>

lemma pick_port_cases:
  assumes "pick_port g rng r p reuse c now = Some q"
  obtains (reuse) "q = reuse" "port_owner g q = Some c" "port_in_range q r"
  | (eligible) "port_eligible g q c now None"
  using assms by (auto simp: pick_port_def split: if_splits option.splits dest!: find_SomeD)

lemma unat_draw:
  assumes "fst r \<le> snd r" and "k < range_size r"
  shows "unat (fst r + of_nat k) = unat (fst r) + k" "unat (fst r) + k \<le> unat (snd r)"
proof -
  have "unat (snd r - fst r) = unat (snd r) - unat (fst r)"
    using assms(1) by (simp add: unat_sub)
  then show le: "unat (fst r) + k \<le> unat (snd r)"
    using assms by (simp add: range_size_def word_le_nat_alt)
  have "unat (snd r) < 2 ^ 16" using unsigned_less [of "snd r"] by simp
  with le have "unat (of_nat k :: u16) = k" "unat (fst r) + k < 2 ^ 16"
    by (simp_all add: unat_of_nat)
  then show "unat (fst r + of_nat k) = unat (fst r) + k"
    by (simp add: unat_word_ariths)
qed

lemma pick_port_in_range:
  assumes "pick_port g rng r p reuse c now = Some q"
    and "fst r \<le> snd r" and "\<And>i. rng i < range_size r"
  shows "port_in_range q r"
proof -
  have "port_in_range (fst r + of_nat (rng i)) r" for i
    using unat_draw [OF assms(2) assms(3)] by (simp add: port_in_range_def word_le_nat_alt)
  moreover have "port_in_range (of_nat k) r" if "unat (fst r) \<le> k" "k \<le> unat (snd r)" for k
  proof -
    have "unat (snd r) < 2 ^ 16" using unsigned_less [of "snd r"] by simp
    then have "k < 2 ^ 16" using that by simp
    then show ?thesis using that by (simp add: port_in_range_def word_le_nat_alt unat_of_nat)
  qed
  ultimately show ?thesis
    using assms(1)
    by (auto simp: pick_port_def less_Suc_eq_le simp del: upt_Suc
        split: if_splits option.splits dest!: find_SomeD)
qed

lemma pick_port_None:
  assumes "pick_port g rng r p reuse c now = None" and "port_in_range q r"
  shows "\<not> port_eligible g q c now None"
proof -
  have "find (\<lambda>q. port_eligible g q c now None) (map of_nat [unat (fst r)..<Suc (unat (snd r))]) = None"
    using assms(1) by (auto simp: pick_port_def split: if_splits option.splits)
  moreover have "q \<in> set (map of_nat [unat (fst r)..<Suc (unat (snd r))])"
    using assms(2)
    by (auto simp: port_in_range_def word_le_nat_alt less_Suc_eq_le simp del: upt_Suc
        intro!: image_eqI [of q _ "unat q"])
  ultimately show ?thesis
    by (auto simp: find_None_iff)
qed

section \<open>Every pass keeps the invariant\<close>

lemma served_inner_frame [simp]:
  "next_expiry (served_inner g rq s r) = next_expiry g"
  "cooldown_until (served_inner g rq s r) = cooldown_until g"
  "abuse_quarantine_until (served_inner g rq s r) = abuse_quarantine_until g"
  "held_since (served_inner g rq s r) = held_since g"
  "last_user_per_port (served_inner g rq s r) = last_user_per_port g"
  "rate_limit_log (served_inner g rq s r) = rate_limit_log g"
  by (simp_all add: served_inner_def)

lemma set_served_inner:
  "set (active (served_inner g rq s r)) =
     {e \<in> set (active g). \<not> tuple_match rq e \<and> \<not> (r \<and> fst (fst e) = s)}"
  by (auto simp: served_inner_def others_def without_port_def)

lemma inner_inv_served: "inner_inv g \<Longrightarrow> inner_inv (served_inner g rq s r)"
  by (rule inner_inv_shrink [of g])
    (auto simp: set_served_inner, auto simp: served_inner_def others_def without_port_def
      inner_inv_def intro!: tables_wf_update hm_wf_filter tables_wf_active)

lemma commit_grant_inv:
  assumes "commit_grant a rq acq held reclaim port = (a', st)" and "inner_inv (inner a)"
    and "free_for (inner a) port (client_ip rq)"
  shows "inner_inv (inner a')"
proof -
  obtain log since where i: "inner a' = insert_active (granted rq port)
      ((inner a)\<lparr>rate_limit_log := log, held_since := hm_insert port since (held_since (inner a))\<rparr>)"
    and "hm_wf (rate_limit_log (inner a)) \<Longrightarrow> hm_wf log"
    using assms(1) by (elim commit_grant_spec) blast
  let ?g = "(inner a)\<lparr>rate_limit_log := log, held_since := hm_insert port since (held_since (inner a))\<rparr>"
  have "tables_wf ?g"
    using assms(2) \<open>hm_wf (rate_limit_log (inner a)) \<Longrightarrow> hm_wf log\<close>
    by (simp add: inner_inv_def tables_wf_def hm_wf_insert)
  moreover have "holding_recorded ?g"
    using assms(2) by (simp add: inner_inv_def holding_recorded_def table)
  ultimately have "inner_inv ?g"
    using assms(2) by (auto intro: inner_inv_same_active)
  then show ?thesis
    unfolding i using assms(3) by (intro inner_inv_insert_active) (simp_all add: free_for_def table)
qed

lemma serve_free:
  assumes "inner_inv (inner a)"
    and "s \<noteq> 0 \<Longrightarrow> \<not> reclaim \<Longrightarrow> free_for (inner a) s (client_ip rq)"
    and "s \<noteq> 0 \<Longrightarrow> port = s"
    and "s = 0 \<Longrightarrow> pick_port (served_inner (inner a) rq s reclaim) rng (port_range a) p reuse
      (client_ip rq) now = Some port"
  shows "free_for (served_inner (inner a) rq s reclaim) port (client_ip rq)"
proof (cases "s = 0")
  case False
  then show ?thesis
    using assms(2,3) by (cases reclaim) (auto simp: free_for_def set_served_inner)
next
  case True
  then show ?thesis
    using assms(4) port_eligible_unowned
    by (auto simp: free_for_iff inner_inv_served [OF assms(1)] elim!: pick_port_cases)
qed

lemma serve_inv:
  assumes "serve a rng rq ten bud s reclaim ev = (a', ev', st)" and "inner_inv (inner a)"
    and "s \<noteq> 0 \<Longrightarrow> \<not> reclaim \<Longrightarrow> free_for (inner a) s (client_ip rq)"
  shows "inner_inv (inner a')"
  using assms(1,2)
proof (cases rule: serve_cases)
  case (granted port cs)
  show ?thesis
  proof (rule commit_grant_inv [OF granted(2) [symmetric]])
    show "free_for (inner (a\<lparr>inner := served_inner (inner a) rq s reclaim, counters := cs\<rparr>)) port
        (client_ip rq)"
      using serve_free [OF assms(2,3) granted(3,4)] by simp
  qed (simp add: inner_inv_served assms(2))
qed (simp_all add: inner_inv_served assms(2))

text \<open>
  How one critical section changes the per-client logs: a client's log stays or is trimmed to the
  window, except that the charged client's log is trimmed, has room left, and gets the new instant.
\<close>

definition log_evolves :: "instant \<Rightarrow> duration \<Rightarrow> nat \<Rightarrow> ipv4 option \<Rightarrow> inner \<Rightarrow> inner \<Rightarrow> bool" where
  "log_evolves now w mx ch g g' \<longleftrightarrow> (\<forall>c.
     if ch = Some c
     then client_log g' c = trim_window now w (client_log g c) @ [now]
       \<and> length (trim_window now w (client_log g c)) < mx
     else client_log g' c = client_log g c \<or> client_log g' c = trim_window now w (client_log g c))"

lemma log_evolves_refl: "rate_limit_log g' = rate_limit_log g \<Longrightarrow> log_evolves now w mx None g g'"
  by (simp add: log_evolves_def client_log_def)

lemma log_evolves_trans:
  "log_evolves now w mx None g1 g2 \<Longrightarrow> log_evolves now w mx ch g2 g3 \<Longrightarrow> log_evolves now w mx ch g1 g3"
  unfolding log_evolves_def by (metis option.distinct(1) trim_window_idem)

lemma client_log_insert:
  "client_log (g\<lparr>rate_limit_log := hm_insert c l (rate_limit_log g)\<rparr>) c' = (if c' = c then l else client_log g c')"
  by (simp add: client_log_def table)

lemma departed_reclaim_log:
  "departed_reclaim a rq ans s ch = (a', r) \<Longrightarrow>
     log_evolves (req_now rq) (rate_limit_window a) mx None (inner a) (inner a')"
  by (auto simp: departed_reclaim_def within_rate_budget_def Let_def log_evolves_def client_log_insert
      split: option.splits if_splits)

lemma refuse_suggestion_log:
  "refuse_suggestion a rq s = (a', st) \<Longrightarrow>
     \<exists>ch. log_evolves (req_now rq) (rate_limit_window a) (rate_limit_max a) ch (inner a) (inner a')"
  by (intro exI [of _ "if rate_limit_max a \<le> length (trim_window (req_now rq) (rate_limit_window a)
        (client_log (inner a) (client_ip rq))) then None else Some (client_ip rq)"])
    (auto simp: refuse_suggestion_def Let_def log_evolves_def client_log_insert split: if_splits)

lemma honour_suggestion_log:
  assumes "honour_suggestion a rq ans s = (a', r)"
  shows "\<exists>ch. log_evolves (req_now rq) (rate_limit_window a) (rate_limit_max a) ch (inner a) (inner a')
    \<and> ((\<exists>b. r = Inr b) \<longrightarrow> ch = None)"
proof (cases "s = 0 \<or> (\<exists>q. cheap_grantable a rq ans s = Inl q)")
  case True
  then show ?thesis
    using assms by (auto simp: honour_suggestion_def intro: log_evolves_refl split: sum.splits if_splits)
next
  case False
  then obtain cheap where cheap: "cheap_grantable a rq ans s = Inr cheap" "s \<noteq> 0"
    by (cases "cheap_grantable a rq ans s") auto
  obtain b d where d: "departed_reclaim a rq ans s cheap = (b, d)" by fastforce
  have ev: "log_evolves (req_now rq) (rate_limit_window a) (rate_limit_max a) None (inner a) (inner b)"
    and cfg: "rate_limit_window b = rate_limit_window a" "rate_limit_max b = rate_limit_max a"
    using departed_reclaim_log [OF d] log_onlyD(9,10) [OF log_only_departed [OF d]] by simp_all
  show ?thesis
  proof (cases "\<exists>x. d = Inr x \<and> \<not> cheap \<and> \<not> x")
    case True
    then obtain st where r: "refuse_suggestion b rq s = (a', st)" "r = Inl st"
      using assms cheap d by (auto simp: honour_suggestion_def split: prod.splits)
    then show ?thesis
      using refuse_suggestion_log [OF r(1)] log_evolves_trans [OF ev] cfg by auto
  next
    case False
    then have "a' = b"
      using assms cheap d by (auto simp: honour_suggestion_def split: sum.splits prod.splits if_splits)
    then show ?thesis using ev by blast
  qed
qed

lemma rate_gate_log:
  "rate_gate a rq s = (a', r) \<Longrightarrow>
     log_evolves (req_now rq) (rate_limit_window a) mx None (inner a) (inner a')
     \<and> (acquires_new_port (inner a) rq s \<longrightarrow>
          trim_window (req_now rq) (rate_limit_window a) (client_log (inner a') (client_ip rq))
            = client_log (inner a') (client_ip rq))"
  by (auto simp: rate_gate_def Let_def log_evolves_def client_log_insert split: if_splits)

text \<open>
  One pass either stops before the table changes, with a refusal or a question, or it serves the
  request with both quota answers in hand and the suggestion vetted.
\<close>

definition swept :: "allocator \<Rightarrow> instant \<Rightarrow> inner" where
  "swept a now = fst (sweep_expired now (cooldown a) (inner a) [])"

lemma sweep_swept:
  "sweep_expired now (cooldown a) (inner a) ev =
     (swept a now, ev @ snd (sweep_expired now (cooldown a) (inner a) []))"
  by (simp add: swept_def sweep_expired_def Let_def)

lemma swept_spec:
  assumes "inner_inv (inner a)"
  shows "active (swept a now) = live now (active (inner a))"
    "abuse_quarantine_until (swept a now) = abuse_quarantine_until (inner a)"
    "held_since (swept a now) = held_since (inner a)"
    "rate_limit_log (swept a now) = rate_limit_log (inner a)" "inner_inv (swept a now)"
    "sweep_expired now (cooldown a) (inner a) ev = (swept a now, ev @ map snd (dead now (active (inner a))))"
  using sweep_expired_spec [OF assms sweep_swept [of now a "[]"]]
    sweep_expired_spec(2) [OF assms sweep_swept [of now a ev]] sweep_swept [of now a ev]
  by simp_all

definition vetted :: "allocator \<Rightarrow> map_request \<Rightarrow> deployer_answers \<Rightarrow> u16 \<Rightarrow> bool \<Rightarrow> bool" where
  "vetted a rq ans s reclaim \<longleftrightarrow>
     (if s = 0 then \<not> reclaim
      else if reclaim then \<exists>b. departed_reclaim a rq ans s False = (b, Inr True)
      else cheap_grantable a rq ans s = Inr True)"

definition refusal :: "map_request \<Rightarrow> natpmp_error \<Rightarrow> bool" where
  "refusal rq err \<longleftrightarrow> (\<exists>s. err = SuggestedPortInUse s) \<or> (\<exists>n. err = RateLimited (client_ip rq) n)"

lemma honour_suggestion_refusal:
  "honour_suggestion a rq ans s = (a', Inl (Done r)) \<Longrightarrow> \<exists>err. r = Inl err \<and> refusal rq err"
  by (auto simp: honour_suggestion_def refuse_suggestion_def rate_limited_error_def refusal_def Let_def
      split: if_splits sum.splits prod.splits)

lemma rate_gate_stop:
  "rate_gate a rq s = (a', Some st) \<Longrightarrow> \<exists>err. st = Done (Inl err) \<and> refusal rq err"
  by (auto simp: rate_gate_def rate_limited_error_def refusal_def Let_def split: if_splits)

lemma rate_gate_pass:
  "rate_gate a rq s = (a', None) \<Longrightarrow> acquires_new_port (inner a) rq s \<Longrightarrow>
     length (client_log (inner a') (client_ip rq)) < rate_limit_max a"
  by (auto simp: rate_gate_def client_log_def table Let_def split: if_splits)

lemma try_allocate_cases:
  assumes "try_allocate a rng rq ans ev = (a', ev', st)" and "inner_inv (inner a)"
    and "g = swept a (req_now rq)" and "s = effective_suggestion g rq"
  obtains
    (stopped) "log_only (a\<lparr>inner := g\<rparr>) a'" "ev' = ev @ map snd (dead (req_now rq) (active (inner a)))"
      "\<And>r. st = Done r \<Longrightarrow> \<exists>err. r = Inl err \<and> refusal rq err"
      "\<exists>ch. log_evolves (req_now rq) (rate_limit_window a) (rate_limit_max a) ch g (inner a')"
  | (served) a3 ten bud reclaim where "log_only (a\<lparr>inner := g\<rparr>) a3"
      "serve a3 rng rq ten bud s reclaim (ev @ map snd (dead (req_now rq) (active (inner a)))) = (a', ev', st)"
      "tenant ans = Some ten" "budget ans = Some bud" "vetted (a\<lparr>inner := g\<rparr>) rq ans s reclaim"
      "acquires_new_port g rq s \<Longrightarrow> length (client_log (inner a3) (client_ip rq)) < rate_limit_max a"
      "log_evolves (req_now rq) (rate_limit_window a) (rate_limit_max a) None g (inner a3)"
      "acquires_new_port g rq s \<Longrightarrow> trim_window (req_now rq) (rate_limit_window a)
         (client_log (inner a3) (client_ip rq)) = client_log (inner a3) (client_ip rq)"
proof -
  let ?a1 = "a\<lparr>inner := g\<rparr>" and ?ev1 = "ev @ map snd (dead (req_now rq) (active (inner a)))"
  have sw: "sweep_expired (req_now rq) (cooldown a) (inner a) ev = (g, ?ev1)"
    using swept_spec(6) [OF assms(2)] assms(3) by simp
  obtain a2 r where h: "honour_suggestion ?a1 rq ans s = (a2, r)" by fastforce
  obtain a3 gate where rg: "rate_gate a2 rq s = (a3, gate)" by fastforce
  have l2: "log_only ?a1 a2" and l3: "log_only a2 a3"
    using h rg by (auto intro: log_only_honour log_only_rate_gate)
  then have l: "log_only ?a1 a3" by (rule log_only_trans)
  have frame: "acquires_new_port (inner a2) rq s = acquires_new_port g rq s"
    "rate_limit_max a2 = rate_limit_max a" "rate_limit_window a2 = rate_limit_window a"
    using log_onlyD [OF l2] by simp_all
  obtain ch where e2: "log_evolves (req_now rq) (rate_limit_window a) (rate_limit_max a) ch g (inner a2)"
    and pass: "(\<exists>b. r = Inr b) \<longrightarrow> ch = None"
    using honour_suggestion_log [OF h] by auto
  note e3 = rate_gate_log [OF rg, unfolded frame]
  have ev: "log_evolves (req_now rq) (rate_limit_window a) (rate_limit_max a) None g (inner a3)" if "r = Inr b" for b
    using log_evolves_trans [of _ _ _ g "inner a2"] e2 e3 pass that by blast
  have t: "(a', ev', st) = (case r of Inl st \<Rightarrow> (a2, ?ev1, st)
    | Inr reclaim \<Rightarrow> (case gate of Some st \<Rightarrow> (a3, ?ev1, st)
      | None \<Rightarrow> (case (tenant ans, budget ans) of
          (Some ten, Some bud) \<Rightarrow> serve a3 rng rq ten bud s reclaim ?ev1
        | _ \<Rightarrow> (a3, ?ev1, Asks Q_QuotaInputs))))"
    using assms(1,4) sw h rg by (cases gate; cases "tenant ans"; cases "budget ans")
      (simp_all add: try_allocate_def Let_def split: sum.splits)
  show ?thesis
  proof (cases r)
    case (Inl st')
    then show ?thesis
      using t l2 h e2 by (intro stopped) (auto dest: honour_suggestion_refusal)
  next
    case r: (Inr reclaim)
    show ?thesis
    proof (cases "gate = None \<and> tenant ans \<noteq> None \<and> budget ans \<noteq> None")
      case True
      then obtain ten bud where tb: "tenant ans = Some ten" "budget ans = Some bud" by auto
      have "vetted ?a1 rq ans s reclaim"
        using h r honour_suggestion_pass [of ?a1 rq ans s a2 reclaim]
        by (auto simp: vetted_def honour_suggestion_def split: if_splits)
      then show ?thesis
        using t r True tb rg l frame ev [OF r] e3 by (intro served) (auto dest: rate_gate_pass)
    next
      case False
      then show ?thesis
        using t r l rg ev [OF r] by (intro stopped) (auto split: option.splits dest: rate_gate_stop)
    qed
  qed
qed

lemma vetted_free:
  assumes "vetted a rq ans s reclaim" and "inner_inv (inner a)" and "s \<noteq> 0" and "\<not> reclaim"
  shows "free_for (inner a) s (client_ip rq)"
  using assms cheap_grantable_True(2) [of a rq ans s] by (auto simp: vetted_def free_for_iff)

lemma try_allocate_inv:
  assumes "try_allocate a rng rq ans ev = (a', ev', st)" and "inner_inv (inner a)"
  shows "inner_inv (inner a')"
proof -
  define g where "g = swept a (req_now rq)"
  have g: "inner_inv g" using swept_spec(5) [OF assms(2)] by (simp add: g_def)
  show ?thesis
    using assms g_def refl [of "effective_suggestion g rq"]
  proof (cases rule: try_allocate_cases)
    case stopped
    then show ?thesis using g by (auto intro: log_only_inv)
  next
    case (served a3 ten bud reclaim)
    have "inner_inv (inner a3)" using served(1) g by (auto intro: log_only_inv)
    then show ?thesis
      using served(2) vetted_free [OF served(5)] g log_onlyD(22) [OF served(1)]
      by (auto intro: serve_inv)
  qed
qed

lemma report_frame [simp]:
  "inner (report_released a xs) = inner a" "inner (report_evicted a xs o') = inner a"
  by (simp_all add: report_released_def report_evicted_def)

text \<open>Other threads may do anything that keeps the invariant while the lock is released.\<close>

lemma allocate_loop_inv:
  assumes "\<And>i g. inner_inv g \<Longrightarrow> inner_inv (interfere i g)" and "inner_inv (inner a)"
    and "allocate_loop a rng interfere rq locks ans ev = (a', out, n)"
  shows "inner_inv (inner a')"
  using assms(2,3,1)
proof (induction a rng interfere rq locks ans ev rule: allocate_loop.induct)
  case (1 a rng interfere rq locks ans ev)
  obtain b ev1 st where t: "try_allocate a rng rq ans ev = (b, ev1, st)"
    by (cases "try_allocate a rng rq ans ev") auto
  then have "inner_inv (inner b)" using "1.prems"(1) by (rule try_allocate_inv)
  note unfold = allocate_loop.simps [of a rng interfere rq locks ans ev]
  show ?case
  proof (cases st)
    case (Done result)
    then show ?thesis using "1.prems"(2) t \<open>inner_inv (inner b)\<close> by (auto simp: unfold)
  next
    case (Asks q)
    have "inner_inv (inner (b\<lparr>inner := interfere locks (inner b)\<rparr>))"
      using \<open>inner_inv (inner b)\<close> "1.prems"(3) by simp
    then show ?thesis
      using "1.prems"(2,3) "1.IH" [OF t [symmetric] refl Asks] t Asks by (simp add: unfold)
  qed
qed

section \<open>Releases, revocations, restore\<close>

lemma hm_insert_twice [simp]: "hm_insert k v (hm_insert k w m) = hm_insert k v m"
  by (induction m) auto

lemma take_port_spec:
  assumes "take_port g port until = (g', removed)"
  shows "active g' = without_port port (active g)" "removed = legs (active g) port"
    "next_expiry g' = next_expiry g" "held_since g' = held_since g"
    "abuse_quarantine_until g' = abuse_quarantine_until g" "rate_limit_log g' = rate_limit_log g"
    "cooldown_until g' = (if removed = [] then cooldown_until g
       else hm_insert port until (cooldown_until g))"
    "last_user_per_port g' = (if removed = [] then last_user_per_port g
       else hm_insert port (internal_ip (last removed), until) (last_user_per_port g))"
  using assms
  by (cases "hm_get (active g) (port, Tcp)"; cases "hm_get (active g) (port, Udp)";
      auto simp: take_port_def legs_def table hm_remove_absent remove_both_legs [symmetric])+

lemma hm_wf_without_port: "hm_wf m \<Longrightarrow> hm_wf (without_port p m)"
  by (simp add: without_port_def hm_wf_filter)

lemma take_port_inv:
  assumes "take_port g port until = (g', removed)" and "inner_inv g"
  shows "inner_inv g'"
proof (rule inner_inv_shrink [OF assms(2)])
  show "set (active g') \<subseteq> set (active g)"
    using take_port_spec(1) [OF assms(1)] by (auto simp: without_port_def)
  show "tables_wf g'"
    using assms(2) take_port_spec [OF assms(1)]
    by (auto simp: inner_inv_def tables_wf_def intro: wf_table hm_wf_without_port)
qed (simp_all add: take_port_spec [OF assms(1)])

lemma take_active_for_port_inv:
  assumes "take_active_for_port_at a port now = (a', removed)" and "inner_inv (inner a)"
  shows "inner_inv (inner a')"
  using assms by (auto simp: take_active_for_port_at_def split: prod.splits intro: take_port_inv)

lemma inner_inv_quarantine:
  "inner_inv g \<Longrightarrow> inner_inv (g\<lparr>abuse_quarantine_until := hm_insert p t (abuse_quarantine_until g)\<rparr>)"
  by (rule inner_inv_same_active)
    (auto simp: inner_inv_def tables_wf_def holding_recorded_def intro: wf_table)

lemma inner_inv_forget_holding:
  assumes "inner_inv g" and "\<forall>e \<in> set (active g). fst (fst e) \<noteq> p"
  shows "inner_inv (g\<lparr>held_since := hm_remove p (held_since g)\<rparr>)"
proof (rule inner_inv_same_active [OF assms(1)])
  show "holding_recorded (g\<lparr>held_since := hm_remove p (held_since g)\<rparr>)"
    using assms by (auto simp: inner_inv_def holding_recorded_def table)
qed (use assms in \<open>auto simp: inner_inv_def tables_wf_def intro: wf_table\<close>)

lemma revoke_for_abuse_inv:
  assumes "revoke_for_abuse_at a port q now = (a', revoked)" and "inner_inv (inner a)"
  shows "inner_inv (inner a')"
proof -
  let ?until = "now + min q MAX_ABUSE_QUARANTINE"
  let ?slot = "case hm_get (abuse_quarantine_until (inner a)) port of
      None \<Rightarrow> ?until | Some t \<Rightarrow> if ?until > t then ?until else t"
  let ?g1 = "(inner a)\<lparr>abuse_quarantine_until := hm_insert port ?slot (abuse_quarantine_until (inner a))\<rparr>"
  obtain g2 removed where t: "take_port ?g1 port (now + cooldown a) = (g2, removed)"
    by fastforce
  have "inner_inv g2"
    using t inner_inv_quarantine [OF assms(2)] by (rule take_port_inv)
  moreover have "\<forall>e \<in> set (active g2). fst (fst e) \<noteq> port"
    using take_port_spec(1) [OF t] by (auto simp: without_port_def)
  moreover have "inner a' = g2\<lparr>held_since := hm_remove port (held_since g2)\<rparr>"
    using assms(1) unfolding revoke_for_abuse_at_def Let_def t by auto
  ultimately show ?thesis
    by (simp add: inner_inv_forget_holding)
qed

text \<open>Removing one slot and arming its cooldown, as the release paths do.\<close>

lemma inner_inv_release_slot:
  "inner_inv g \<Longrightarrow> inner_inv (g\<lparr>active := hm_remove k (active g),
     cooldown_until := hm_insert p t (cooldown_until g),
     last_user_per_port := hm_insert p u (last_user_per_port g)\<rparr>)"
  by (rule inner_inv_shrink) (auto simp: inner_inv_def tables_wf_def hm_remove_def
      intro: wf_table hm_wf_filter)

lemma release_inv: "inner_inv (inner a) \<Longrightarrow> inner_inv (inner (release_at a al now))"
  by (auto simp: release_at_def Let_def intro: inner_inv_release_slot split: option.splits)

lemma release_by_client_inv:
  assumes "release_by_client_at a c iport p now = (a', r)" and "inner_inv (inner a)"
  shows "inner_inv (inner a')"
  using assms by (auto simp: release_by_client_at_def Let_def intro: inner_inv_release_slot
      split: option.splits)

lemma take_active_for_slot_inv:
  assumes "take_active_for_slot a port p = (a', r)" and "inner_inv (inner a)"
  shows "inner_inv (inner a')"
proof -
  have eq: "inner a' = (inner a)\<lparr>active := hm_remove (port, p) (active (inner a))\<rparr>"
    using assms(1) by (auto simp: take_active_for_slot_def)
  have "tables_wf (inner a')"
    using assms(2) unfolding eq by (auto simp: inner_inv_def tables_wf_def intro: wf_table)
  then show ?thesis
    using inner_inv_shrink [OF assms(2), of "inner a'"] by (auto simp: eq hm_remove_def)
qed

lemma take_keys_inv: "inner_inv g \<Longrightarrow> inner_inv (fst (take_keys until keys (g, removed)))"
proof (induction keys arbitrary: g removed)
  case (Cons k keys)
  then show ?case by (auto simp: inner_inv_release_slot split: option.splits)
qed simp

lemma take_active_for_ip_inv:
  assumes "take_active_for_ip_at a c now = (a', removed)" and "inner_inv (inner a)"
  shows "inner_inv (inner a')"
proof -
  have "inner a' = fst (take_keys (now + cooldown a)
      (map fst (filter (\<lambda>e. internal_ip (snd e) = c) (active (inner a)))) (inner a, []))"
    using assms(1) by (auto simp: take_active_for_ip_at_def Let_def split: prod.splits)
  then show ?thesis using assms(2) by (simp add: take_keys_inv)
qed

lemma restore_one_inv:
  assumes "inner_inv (fst st)"
  shows "inner_inv (fst (restore_one now e st))"
proof -
  obtain g kept where [simp]: "st = (g, kept)" by (cases st)
  let ?g = "g\<lparr>last_user_per_port := hm_insert (external_port e) (internal_ip e, now) (last_user_per_port g),
      held_since := (if hm_contains (held_since g) (external_port e) then held_since g
        else hm_insert (external_port e) now (held_since g))\<rparr>"
  have "holding_recorded ?g" "tables_wf ?g"
    using assms by (auto simp: inner_inv_def tables_wf_def holding_recorded_def table intro: wf_table)
  then have "inner_inv ?g"
    using assms by (auto intro: inner_inv_same_active)
  moreover have "free_for ?g (external_port e) (internal_ip e)"
    if "case port_owner g (external_port e) of None \<Rightarrow> True | Some ow \<Rightarrow> ow = internal_ip e"
    using that assms free_for_iff [of g "external_port e" "internal_ip e"]
    by (auto simp: free_for_def split: option.splits)
  ultimately show ?thesis
    using assms inner_inv_insert_active [of ?g e]
    by (auto simp: restore_one_def table split: option.splits)
qed

lemma restore_inv:
  assumes "restore_at a entries now = (a', kept)" and "inner_inv (inner a)"
  shows "inner_inv (inner a')"
proof -
  have "inner_inv (fst (fold (restore_one now) entries st))" if "inner_inv (fst st)" for st
    using that by (induction entries arbitrary: st) (simp_all add: restore_one_inv)
  from this [of "(inner a, [])"] show ?thesis
    using assms by (auto simp: restore_at_def split: prod.splits)
qed

lemma rate_limit_status_inv:
  assumes "rate_limit_status_at a c now = (a', info)" and "inner_inv (inner a)"
  shows "inner_inv (inner a')"
proof -
  have "log_only a a'"
    using assms(1) by (auto simp: rate_limit_status_at_def Let_def log_only_refl
        intro!: log_onlyI' hm_wf_insert split: option.splits)
  then show ?thesis using assms(2) by (rule log_only_inv)
qed

end
