(* ===== verification/Natpmp_Allocator_Grants.thy ===== *)
theory Natpmp_Allocator_Grants
  imports Natpmp_Allocator_Inv
begin

text \<open>
  What a successful pass of the allocator did: the state it leaves (\<open>granted_pass\<close>) and the four ways a
  port can come to be granted (\<open>grant_kinds\<close>): it was the client's own, it was taken back from a
  departed address of the tenant, it was free, or the tenant reclaimed it from its cooldown.
\<close>

section \<open>What a grant guarantees\<close>

lemma log_frame_pick [simp]:
  "pick_port (g\<lparr>rate_limit_log := l\<rparr>) rng r p reuse c now = pick_port g rng r p reuse c now"
  unfolding pick_port_def log_frame by simp

lemma log_frame_served [simp]:
  "served_inner (g\<lparr>rate_limit_log := l\<rparr>) rq s rc = (served_inner g rq s rc)\<lparr>rate_limit_log := l\<rparr>"
  "served_removed (g\<lparr>rate_limit_log := l\<rparr>) rq s rc = served_removed g rq s rc"
  "previous_port (g\<lparr>rate_limit_log := l\<rparr>) rq = previous_port g rq"
  "reuses_held_port (g\<lparr>rate_limit_log := l\<rparr>) ten h s = reuses_held_port g ten h s"
  by (simp_all add: served_inner_def served_removed_def previous_port_def reuses_held_port_def)

lemma commit_grant_fields:
  assumes "commit_grant a rq acq held reclaim port = (a', st)"
  shows "st = Done (Inr (granted rq port))"
    "active (inner a') = hm_insert (port, req_slot_proto rq) (granted rq port) (active (inner a))"
    "held_since (inner a') = hm_insert port
       (case hm_get (held_since (inner a)) port of None \<Rightarrow> req_now rq
        | Some t \<Rightarrow> if held = Some port \<or> reclaim \<or> port_owner (inner a) port = Some (client_ip rq)
            then t else req_now rq) (held_since (inner a))"
    "rate_limit_log (inner a') = (if acq then
       hm_insert (client_ip rq) (client_log (inner a) (client_ip rq) @ [req_now rq])
         (rate_limit_log (inner a))
      else rate_limit_log (inner a))"
  using assms
  by (cases acq; auto simp: commit_grant_def Let_def granted_def insert_active_def
      cong: option.case_cong)+

lemma granted_pass:
  assumes "try_allocate a rng rq ans ev = (a', ev', Done (Inr al))" and "inner_inv (inner a)"
    and "g = swept a (req_now rq)" and "s = effective_suggestion g rq"
  obtains log ten bud reclaim where "al = granted rq (external_port al)"
    "tenant ans = Some ten" "budget ans = Some bud" "vetted (a\<lparr>inner := g\<rparr>) rq ans s reclaim"
    "s \<noteq> 0 \<longrightarrow> external_port al = s"
    "s = 0 \<longrightarrow> pick_port (served_inner g rq s reclaim) rng (port_range a) (req_slot_proto rq)
      (case previous_port g rq of None \<Rightarrow> 0 | Some p \<Rightarrow> p) (client_ip rq) (req_now rq)
      = Some (external_port al)"
    "active (inner a') = hm_insert (external_port al, req_slot_proto rq) al
      (active (served_inner g rq s reclaim))"
    "ev' = ev @ map snd (dead (req_now rq) (active (inner a))) @ served_removed g rq s reclaim"
    "reuses_held_port (served_inner g rq s False) ten (previous_port g rq) s
      \<or> card (held_ports (served_inner g rq s False) ten) < bud"
    "held_since (inner a') = hm_insert (external_port al)
       (case hm_get (held_since g) (external_port al) of None \<Rightarrow> req_now rq
        | Some t \<Rightarrow> if previous_port g rq = Some (external_port al) \<or> reclaim
             \<or> port_owner (served_inner g rq s reclaim) (external_port al) = Some (client_ip rq)
            then t else req_now rq) (held_since g)"
    "rate_limit_log (inner a') = (if acquires_new_port g rq s then
       hm_insert (client_ip rq) (client_log (g\<lparr>rate_limit_log := log\<rparr>) (client_ip rq) @ [req_now rq]) log
      else log)"
    "acquires_new_port g rq s \<longrightarrow>
       length (client_log (g\<lparr>rate_limit_log := log\<rparr>) (client_ip rq)) < rate_limit_max a"
proof -
  note i = swept_spec(5) [OF assms(2), of "req_now rq", folded assms(3)]
  show ?thesis
    using assms
  proof (cases rule: try_allocate_cases)
    case stopped
    then show ?thesis by auto
  next
    case (served a3 ten bud reclaim)
    obtain log where a3: "inner a3 = g\<lparr>rate_limit_log := log\<rparr>"
      using served(1) by (auto simp: log_only_def)
    have "inner_inv (inner a3)" using served(1) i by (auto intro: log_only_inv)
    with served(2) show ?thesis
    proof (cases rule: serve_cases)
      case (granted port cs)
      note c = commit_grant_fields [OF granted(2) [symmetric]]
      have "client_log (served_inner g' rq s reclaim) c' = client_log g' c'" for g' c'
        by (simp add: client_log_def)
      with granted(1,3-5) c log_onlyD(7) [OF served(1)] served(6) show ?thesis
        by (intro that [OF _ served(3-5), of log])
          (simp_all add: a3 client_log_def cong: option.case_cong)
    qed auto
  qed
qed

text \<open>How the granted port was held when the request was decided.\<close>

lemma port_owner_entry:
  assumes "inner_inv g" and "e \<in> set (active g)"
  shows "port_owner g (fst (fst e)) = Some (internal_ip (snd e))"
  using assms unfolding port_owner_Some_iff [OF assms(1)] free_for_def inner_inv_def single_owner_def
  by blast

lemma port_owner_served:
  assumes "inner_inv g" and "port_owner (served_inner g rq s reclaim) port = None"
    and "\<not> reclaim \<or> port \<noteq> s"
  shows "port_owner g port = None \<or> port_owner g port = Some (client_ip rq)"
proof (cases "port_owner g port")
  case (Some ow)
  then obtain e where e: "e \<in> set (active g)" "fst (fst e) = port" "internal_ip (snd e) = ow"
    by (auto dest: port_owner_SomeD)
  then have "tuple_match rq e"
    using assms(2,3) unfolding port_owner_None_iff set_served_inner by blast
  then show ?thesis using e Some by (auto simp: tuple_match_def)
qed simp

lemma port_eligible_served:
  "port_owner g p = None \<Longrightarrow> port_eligible (served_inner g rq s reclaim) p c now None \<Longrightarrow>
    port_eligible g p c now None"
  by (frule port_eligible_unowned)
    (simp add: port_eligible_def no_leg_iff quarantined_def split: if_splits)

lemma grant_kinds:
  assumes "try_allocate a rng rq ans ev = (a', ev', Done (Inr al))" and "inner_inv (inner a)"
    and "g = swept a (req_now rq)" and "s = effective_suggestion g rq"
  obtains
    (own) "port_owner g (external_port al) = Some (client_ip rq)"
  | (departed) holder ten where "port_owner g (external_port al) = Some holder"
      "holder \<noteq> client_ip rq" "s = external_port al" "s \<noteq> 0" "tenant ans = Some ten" "holder \<in> ten"
      "holder_live ans = Some (holder, False)"
      "\<forall>e \<in> set (active g). fst (fst e) = s \<longrightarrow> snd e \<in> set ev'"
  | (free) "port_owner g (external_port al) = None"
      "port_eligible g (external_port al) (client_ip rq) (req_now rq) None"
  | (reclaimed) ten where "port_owner g (external_port al) = None" "s = external_port al" "s \<noteq> 0"
      "tenant ans = Some ten"
      "port_eligible g (external_port al) (client_ip rq) (req_now rq) (Some ten)"
proof -
  note i = swept_spec(5) [OF assms(2), of "req_now rq", folded assms(3)]
  from assms obtain ten reclaim where f: "tenant ans = Some ten"
    "vetted (a\<lparr>inner := g\<rparr>) rq ans s reclaim" "s \<noteq> 0 \<longrightarrow> external_port al = s"
    "s = 0 \<longrightarrow> pick_port (served_inner g rq s reclaim) rng (port_range a) (req_slot_proto rq)
      (case previous_port g rq of None \<Rightarrow> 0 | Some p \<Rightarrow> p) (client_ip rq) (req_now rq)
      = Some (external_port al)"
    "ev' = ev @ map snd (dead (req_now rq) (active (inner a))) @ served_removed g rq s reclaim"
    by (elim granted_pass) blast
  consider (chosen) "s = 0" "\<not> reclaim" | (cheap) "s \<noteq> 0" "cheap_grantable (a\<lparr>inner := g\<rparr>) rq ans s = Inr True"
    | (dep) b where "s \<noteq> 0" "reclaim" "departed_reclaim (a\<lparr>inner := g\<rparr>) rq ans s False = (b, Inr True)"
    using f(2) by (auto simp: vetted_def split: if_splits)
  then show ?thesis
  proof cases
    case chosen
    then have "pick_port (served_inner g rq s reclaim) rng (port_range a) (req_slot_proto rq)
      (case previous_port g rq of None \<Rightarrow> 0 | Some p \<Rightarrow> p) (client_ip rq) (req_now rq)
      = Some (external_port al)" using f(4) by blast
    then show ?thesis
    proof (cases rule: pick_port_cases)
      case reuse
      then obtain e where "e \<in> set (active g)" "fst (fst e) = external_port al"
          "internal_ip (snd e) = client_ip rq"
        using port_owner_SomeD [OF reuse(2)] by (auto simp: set_served_inner)
      then have "port_owner g (external_port al) = Some (client_ip rq)"
        using port_owner_entry [OF i] by metis
      then show ?thesis by (rule own)
    next
      case eligible
      then have "port_owner (served_inner g rq s reclaim) (external_port al) = None"
        by (rule port_eligible_unowned)
      then have "port_owner g (external_port al) = None \<or> port_owner g (external_port al) = Some (client_ip rq)"
        using port_owner_served i chosen(2) by blast
      moreover have "port_eligible g (external_port al) (client_ip rq) (req_now rq) None"
        if "port_owner g (external_port al) = None"
        using that eligible by (rule port_eligible_served)
      ultimately show ?thesis using own free by blast
    qed
  next
    case cheap
    note c = cheap_grantable_True [OF cheap(2)]
    have port: "external_port al = s" using f(3) cheap(1) by blast
    show ?thesis
    proof (cases "port_owner g s")
      case None
      then consider "port_eligible g s (client_ip rq) (req_now rq) None"
        | "port_eligible g s (client_ip rq) (req_now rq) (Some ten)"
        using c(3) f(1) by auto
      then show ?thesis
        using None port cheap(1) f(1) by cases (rule free, simp_all, rule reclaimed, simp_all)
    next
      case (Some ow)
      then show ?thesis using c(2) port by (intro own) auto
    qed
  next
    case dep
    then have "snd e \<in> set ev'" if "e \<in> set (active g)" "fst (fst e) = s" for e
      using that f(5) set_legs [of "others rq (active g)" s] inner_inv_wfD [OF i]
      by (cases "tuple_match rq e")
        (auto simp: served_removed_def renewed_def others_def hm_wf_filter)
    then have gone: "\<forall>e \<in> set (active g). fst (fst e) = s \<longrightarrow> snd e \<in> set ev'" by blast
    have port: "external_port al = s" using f(3) dep(1) by blast
    from dep(3) show ?thesis
    proof (rule departed_reclaim_True)
      fix holder ten'
      assume "port_owner (inner (a\<lparr>inner := g\<rparr>)) s = Some holder" "holder \<noteq> client_ip rq"
        "tenant ans = Some ten'" "holder \<in> ten'" "holder_live ans = Some (holder, False)"
      then show ?thesis using port dep(1) gone by (intro departed [of holder ten']) simp_all
    qed
  qed
qed

section \<open>The cooldown of an ended mapping\<close>

text \<open>The port is cooling down until \<open>d\<close> at least, after a mapping of client \<open>c\<close>.\<close>

definition cooling :: "inner \<Rightarrow> u16 \<Rightarrow> ipv4 \<Rightarrow> instant \<Rightarrow> bool" where
  "cooling g p c d \<longleftrightarrow> (\<exists>t \<ge> d. hm_get (cooldown_until g) p = Some t)
     \<and> (\<exists>t. hm_get (last_user_per_port g) p = Some (c, t))"

definition overtaken :: "inner \<Rightarrow> u16 \<Rightarrow> ipv4 \<Rightarrow> instant \<Rightarrow> bool" where
  "overtaken g p c d \<longleftrightarrow> (\<forall>u t. hm_get (last_user_per_port g) p = Some (u, t) \<longrightarrow> u = c \<or> t < d)"

lemma arm_keeps_cooling:
  "cooling g p c d \<Longrightarrow> fst x = p \<longrightarrow> fst (snd x) = c \<Longrightarrow> cooling (arm_expired now cd x g) p c d"
  by (cases x) (auto simp: cooling_def arm_expired_def Let_def table max_def)

lemma arm_keeps_overtaken:
  "overtaken g p c d \<Longrightarrow> fst x = p \<longrightarrow> fst (snd x) = c \<Longrightarrow> overtaken (arm_expired now cd x g) p c d"
  by (cases x) (auto simp: overtaken_def arm_expired_def Let_def table split: option.splits if_splits)

lemma arm_starts_cooling:
  "overtaken g p c (e + cd) \<Longrightarrow> now < e + cd \<Longrightarrow> cooling (arm_expired now cd (p, c, e) g) p c (e + cd)"
  by (auto simp: cooling_def overtaken_def arm_expired_def Let_def table split: option.splits)

lemma fold_arm_keeps_cooling:
  "cooling g p c d \<Longrightarrow> \<forall>x \<in> set xs. fst x = p \<longrightarrow> fst (snd x) = c \<Longrightarrow>
    cooling (fold (arm_expired now cd) xs g) p c d"
  by (induction xs arbitrary: g) (simp_all add: arm_keeps_cooling)

lemma fold_arm_starts_cooling:
  assumes "(p, c, e) \<in> set xs" and "\<forall>x \<in> set xs. fst x = p \<longrightarrow> fst (snd x) = c"
    and "now < e + cd" and "overtaken g p c (e + cd)"
  shows "cooling (fold (arm_expired now cd) xs g) p c (e + cd)"
  using assms
proof (induction xs arbitrary: g)
  case (Cons x xs)
  show ?case
  proof (cases "x = (p, c, e)")
    case True
    then show ?thesis
      using Cons.prems by (simp add: fold_arm_keeps_cooling arm_starts_cooling)
  next
    case False
    then show ?thesis
      using Cons.prems by (simp add: Cons.IH arm_keeps_overtaken)
  qed
qed simp

lemma single_owner_ip:
  assumes "inner_inv g" and "e \<in> set (active g)" and "e' \<in> set (active g)" and "fst (fst e) = fst (fst e')"
  shows "internal_ip (snd e) = internal_ip (snd e')"
  using assms unfolding inner_inv_def single_owner_def by blast

lemma swept_keeps_cooling:
  assumes "inner_inv (inner a)" and "cooling (inner a) p c d" and "free_for (inner a) p c"
  shows "cooling (swept a now) p c d"
proof -
  have "cooling ((inner a)\<lparr>active := act, next_expiry := ne\<rparr>) p c d" for act ne
    using assms(2) by (simp add: cooling_def)
  then show ?thesis
    using assms(2,3) unfolding swept_def sweep_expired_def Let_def
    by (auto simp: free_for_def intro!: fold_arm_keeps_cooling)
qed

lemma swept_starts_cooling:
  assumes "inner_inv (inner a)" and "e \<in> set (active (inner a))"
    and "expires_at (snd e) \<le> now" and "now < expires_at (snd e) + cooldown a"
    and "overtaken (inner a) (fst (fst e)) (internal_ip (snd e)) (expires_at (snd e) + cooldown a)"
  shows "cooling (swept a now) (fst (fst e)) (internal_ip (snd e)) (expires_at (snd e) + cooldown a)"
proof -
  let ?ports = "map (\<lambda>e. (fst (fst e), internal_ip (snd e), expires_at (snd e)))
      (filter (\<lambda>e. \<not> now < expires_at (snd e)) (active (inner a)))"
  have "\<not> (case next_expiry (inner a) of None \<Rightarrow> True | Some t \<Rightarrow> t > now)"
    using assms(1-3) by (auto simp: inner_inv_def expiry_bound_def split: option.splits)
  then obtain ne act where s: "swept a now =
      fold (arm_expired now (cooldown a)) ?ports ((inner a)\<lparr>active := act, next_expiry := ne\<rparr>)"
    by (simp add: swept_def sweep_expired_def Let_def)
  have "(fst (fst e), internal_ip (snd e), expires_at (snd e)) \<in> set ?ports"
    using assms(2,3) unfolding set_map set_filter by (intro image_eqI [of _ _ e]) auto
  moreover have "\<forall>x \<in> set ?ports. fst x = fst (fst e) \<longrightarrow> fst (snd x) = internal_ip (snd e)"
    using single_owner_ip [OF assms(1) _ assms(2)] by auto
  moreover have "overtaken ((inner a)\<lparr>active := act, next_expiry := ne\<rparr>) (fst (fst e))
      (internal_ip (snd e)) (expires_at (snd e) + cooldown a)"
    using assms(5) by (simp add: overtaken_def)
  ultimately show ?thesis
    unfolding s using assms(4) by (intro fold_arm_starts_cooling)
qed

text \<open>Nobody outside the tenant of the last user is granted a cooling port.\<close>

lemma cooling_port_not_granted:
  assumes "try_allocate a rng rq ans ev = (a', ev', Done (Inr al))" and "inner_inv (inner a)"
    and "cooling (swept a (req_now rq)) p c d" and "free_for (inner a) p c"
    and "req_now rq < d" and "client_ip rq \<noteq> c" and "\<And>ten. tenant ans = Some ten \<Longrightarrow> c \<notin> ten"
  shows "external_port al \<noteq> p"
proof
  assume p: "external_port al = p"
  let ?g = "swept a (req_now rq)"
  have owner: "ow = c" if "port_owner ?g p = Some ow" for ow
    using port_owner_SomeD [OF that] assms(2,4) by (auto simp: swept_spec live_def free_for_def)
  obtain t u where c: "hm_get (cooldown_until ?g) p = Some t" "d \<le> t"
    "hm_get (last_user_per_port ?g) p = Some (c, u)"
    using assms(3) by (auto simp: cooling_def)
  from assms(1,2) refl refl show False
  proof (cases rule: grant_kinds)
    case (reclaimed ten)
    then show ?thesis
      using c p assms(5,7) by (auto simp: port_eligible_def split: if_splits)
  next
    case free
    then show ?thesis
      using c p assms(5) by (auto simp: port_eligible_def split: if_splits)
  next
    case (departed holder ten)
    then show ?thesis using owner assms(7) p by auto
  qed (use owner assms(6) p in auto)
qed

section \<open>The quota of the tenant\<close>

lemma held_ports_finite [simp]: "finite (held_ports g ten)"
  by (simp add: held_ports_def)

lemma held_ports_iff:
  "p \<in> held_ports g ten \<longleftrightarrow> (\<exists>e \<in> set (active g). fst (fst e) = p \<and> internal_ip (snd e) \<in> ten)"
  by (auto simp: held_ports_def)

lemma held_ports_mono: "set (active h) \<subseteq> set (active g) \<Longrightarrow> held_ports h ten \<subseteq> held_ports g ten"
  unfolding subset_iff held_ports_iff by blast

lemma held_ports_served: "held_ports (served_inner g rq s r) ten \<subseteq> held_ports g ten"
  by (rule held_ports_mono) (auto simp: set_served_inner)

lemma previous_port_held:
  assumes "previous_port g rq = Some p" and "client_ip rq \<in> ten"
  shows "p \<in> held_ports g ten"
proof -
  have "(p, snd (last (same_tuple g rq))) \<in> set (same_tuple g rq)"
    using assms(1) by (auto simp: previous_port_def split: if_splits)
  then show ?thesis
    using assms(2) by (force simp: same_tuple_eq held_ports_iff tuple_match_def)
qed

text \<open>A refresh without a suggestion keeps its port whenever the other leg still holds it.\<close>

lemma refresh_keeps_paired_port:
  assumes "inner_inv g" and "previous_port g rq = Some p" and "p \<noteq> 0" and "port_in_range p r"
    and "port_owner (served_inner g rq s False) p = Some (client_ip rq)"
  shows "pick_port (served_inner g rq s False) rng r (req_slot_proto rq) p (client_ip rq) now = Some p"
proof -
  obtain e where e: "e \<in> set (active g)" "fst e = (p, req_slot_proto rq)" "tuple_match rq e"
  proof -
    have "last (same_tuple g rq) \<in> set (same_tuple g rq)" "fst (last (same_tuple g rq)) = p"
      using assms(2) by (auto simp: previous_port_def split: if_splits)
    then show ?thesis
      using that by (auto simp: same_tuple_eq tuple_match_def prod_eq_iff)
  qed
  have "\<not> hm_contains (active (served_inner g rq s False)) (p, req_slot_proto rq)"
  proof
    assume "hm_contains (active (served_inner g rq s False)) (p, req_slot_proto rq)"
    then obtain al where "((p, req_slot_proto rq), al) \<in> set (active (served_inner g rq s False))"
      by (auto simp: hm_contains_def dest: hm_get_in_set)
    then have "((p, req_slot_proto rq), al) \<in> set (active g)" "\<not> tuple_match rq ((p, req_slot_proto rq), al)"
      by (auto simp: set_served_inner)
    then show False
      using e hm_in_set_iff [OF inner_inv_wfD(1) [OF assms(1)]] by (metis option.inject prod.collapse)
  qed
  then show ?thesis
    using assms(3-5) by (simp add: pick_port_def)
qed

lemma previous_port_owner:
  assumes "inner_inv g" and "previous_port g rq = Some p"
  shows "port_owner g p = Some (client_ip rq)"
  using previous_port_held [OF assms(2), of "{client_ip rq}"] port_owner_entry [OF assms(1)]
  by (fastforce simp: held_ports_iff)

lemma served_owner:
  assumes "inner_inv g" and "p \<in> held_ports (served_inner g rq s r) ten" and "port_owner g p = Some c"
  shows "port_owner (served_inner g rq s r) p = Some c"
proof -
  obtain e where e: "e \<in> set (active (served_inner g rq s r))" "fst (fst e) = p"
    using assms(2) by (auto simp: held_ports_iff)
  then have "e \<in> set (active g)" by (simp add: set_served_inner)
  then show ?thesis
    using port_owner_entry [OF assms(1), of e] port_owner_entry [OF inner_inv_served [OF assms(1)] e(1)]
      e(2) assms(3) by simp
qed

lemma granted_ports:
  assumes "active g' = hm_insert (p, q) al (active h)" and "hm_wf (active h)"
  shows "held_ports g' ten \<subseteq> insert p (held_ports h ten)"
  unfolding held_ports_iff subset_iff insert_iff assms(1) set_hm_insert [OF assms(2)] by force

text \<open>A grant that the budget does not cover reuses a port of the tenant, or gives one up.\<close>

lemma reuse_cases:
  assumes "inner_inv g" and "reuses_held_port (served_inner g rq s False) ten (previous_port g rq) s"
    and "client_ip rq \<in> ten" and "\<forall>e \<in> set (active g). port_in_range (fst (fst e)) r" and "0 < fst r"
    and "s \<noteq> 0 \<longrightarrow> port = s"
    and "s = 0 \<longrightarrow> pick_port (served_inner g rq s False) rng r (req_slot_proto rq)
      (case previous_port g rq of None \<Rightarrow> 0 | Some p \<Rightarrow> p) (client_ip rq) now = Some port"
  shows "port \<in> held_ports g ten
    \<or> (\<exists>p \<in> held_ports g ten. p \<notin> held_ports (served_inner g rq s False) ten)"
proof (cases "s = 0")
  case True
  then obtain p where p: "previous_port g rq = Some p"
    using assms(2) by (auto simp: reuses_held_port_def)
  have h: "p \<in> held_ports g ten" using previous_port_held [OF p assms(3)] .
  then have "port_in_range p r" "p \<noteq> 0"
    using assms(4,5) by (auto simp: held_ports_iff port_in_range_def)
  moreover have "port_owner (served_inner g rq s False) p = Some (client_ip rq)"
    if "p \<in> held_ports (served_inner g rq s False) ten"
    using that previous_port_owner [OF assms(1) p] by (rule served_owner [OF assms(1)])
  ultimately have "port = p" if "p \<in> held_ports (served_inner g rq s False) ten"
    using that refresh_keeps_paired_port [OF assms(1) p] assms(7) True p by simp
  then show ?thesis using h by blast
next
  case False
  then have "s \<in> held_ports g ten"
    using assms(2) subsetD [OF held_ports_served] previous_port_held [OF _ assms(3)]
    by (auto simp: reuses_held_port_def)
  then show ?thesis using False assms(6) by simp
qed

lemma grant_within_quota:
  assumes "try_allocate a rng rq ans ev = (a', ev', Done (Inr al))" and "inner_inv (inner a)"
    and "tenant ans = Some ten" and "budget ans = Some bud" and "client_ip rq \<in> ten"
    and "g = swept a (req_now rq)" and "\<forall>e \<in> set (active g). port_in_range (fst (fst e)) (port_range a)"
    and "0 < fst (port_range a)"
  shows "card (held_ports (inner a') ten) \<le> max bud (card (held_ports g ten))"
proof -
  define s where "s = effective_suggestion g rq"
  note i = swept_spec(5) [OF assms(2), of "req_now rq", folded assms(6)]
  from assms(1,2,6) s_def obtain ten' bud' reclaim where "tenant ans = Some ten'" "budget ans = Some bud'"
    and f: "vetted (a\<lparr>inner := g\<rparr>) rq ans s reclaim" "s \<noteq> 0 \<longrightarrow> external_port al = s"
    "s = 0 \<longrightarrow> pick_port (served_inner g rq s reclaim) rng (port_range a) (req_slot_proto rq)
      (case previous_port g rq of None \<Rightarrow> 0 | Some p \<Rightarrow> p) (client_ip rq) (req_now rq)
      = Some (external_port al)"
    "active (inner a') = hm_insert (external_port al, req_slot_proto rq) al
      (active (served_inner g rq s reclaim))"
    "reuses_held_port (served_inner g rq s False) ten' (previous_port g rq) s
      \<or> card (held_ports (served_inner g rq s False) ten') < bud'"
    by (elim granted_pass) blast
  then have [simp]: "ten' = ten" "bud' = bud" using assms(3,4) by simp_all
  let ?h = "held_ports (served_inner g rq s False) ten"
  have "held_ports (served_inner g rq s reclaim) ten \<subseteq> ?h"
    by (rule held_ports_mono) (auto simp: set_served_inner)
  then have after: "held_ports (inner a') ten \<subseteq> insert (external_port al) ?h"
    using granted_ports [OF f(4)] inner_inv_wfD(1) [OF inner_inv_served [OF i]] by blast
  have "card (held_ports (inner a') ten) \<le> card (insert (external_port al) ?h)"
    using after by (intro card_mono) simp_all
  then have le: "card (held_ports (inner a') ten) \<le> Suc (card ?h)"
    by (simp add: card_insert_if split: if_splits)
  consider (within) "card ?h < bud" | (held) "external_port al \<in> held_ports g ten"
    | (moved) p where "p \<in> held_ports g ten" "p \<notin> ?h"
    using reuse_cases [OF i _ assms(5,7,8) f(2)] f(1,3,5) by (auto simp: vetted_def)
  then show ?thesis
  proof cases
    case within
    then show ?thesis using le by simp
  next
    case held
    then have "held_ports (inner a') ten \<subseteq> held_ports g ten"
      using after held_ports_served by blast
    then show ?thesis by (simp add: card_mono le_max_iff_disj)
  next
    case (moved p)
    then have "card (insert p ?h) \<le> card (held_ports g ten)"
      using held_ports_served by (intro card_mono) auto
    then show ?thesis using le moved(2) by simp
  qed
qed

section \<open>No mapping is lost\<close>

lemma cheap_slot:
  assumes "cheap_grantable a rq ans s = Inr True" and "((s, req_slot_proto rq), al) \<in> set (active (inner a))"
    and "hm_wf (active (inner a))"
  shows "tuple_match rq ((s, req_slot_proto rq), al)"
  using assms by (auto simp: cheap_grantable_def tuple_match_def hm_in_set_iff Let_def split: if_splits)

lemma grant_slot_free:
  assumes "inner_inv g" and "inner a = g" and "vetted a rq ans s reclaim" and "s \<noteq> 0 \<longrightarrow> port = s"
    and "s = 0 \<longrightarrow> pick_port (served_inner g rq s reclaim) rng r (req_slot_proto rq) reuse c now = Some port"
  shows "hm_get (active (served_inner g rq s reclaim)) (port, req_slot_proto rq) = None"
proof (cases "s = 0")
  case True
  then have p: "pick_port (served_inner g rq s reclaim) rng r (req_slot_proto rq) reuse c now = Some port"
    using assms(5) by blast
  then show ?thesis
  proof (cases "port = reuse \<and> \<not> hm_contains (active (served_inner g rq s reclaim)) (reuse, req_slot_proto rq)")
    case True
    then show ?thesis by (simp add: hm_contains_def)
  next
    case False
    then have "port_eligible (served_inner g rq s reclaim) port c now None"
      using p by (auto simp: pick_port_def split: if_splits option.splits dest!: find_SomeD)
    then show ?thesis
      by (cases "req_slot_proto rq") (auto simp: port_eligible_def hm_contains_def split: if_splits)
  qed
next
  case False
  then have port: "port = s" using assms(4) by blast
  show ?thesis
  proof (cases reclaim)
    case True
    then show ?thesis
      unfolding port hm_get_None_iff by (auto simp: set_served_inner)
  next
    case no: False
    then have "cheap_grantable a rq ans s = Inr True"
      using assms(3) False by (simp add: vetted_def)
    then show ?thesis
      using cheap_slot [of a rq ans s] inner_inv_wfD(1) [OF assms(1)] assms(2) no
      unfolding port hm_get_None_iff by (auto simp: set_served_inner)
  qed
qed

lemma served_accounts:
  assumes "inner_inv g" and "e \<in> set (active g)"
  shows "e \<in> set (active (served_inner g rq s r)) \<or> snd e \<in> set (served_removed g rq s r)"
  using assms set_legs [of "others rq (active g)" s] inner_inv_wfD(1) [OF assms(1)]
  by (auto simp: set_served_inner served_removed_def renewed_def others_def hm_wf_filter)

lemma served_removed_subset:
  assumes "inner_inv g"
  shows "set (served_removed g rq s r) \<subseteq> snd ` set (active g)"
  using set_legs [of "others rq (active g)" s] inner_inv_wfD(1) [OF assms]
  by (auto simp: served_removed_def renewed_def others_def hm_wf_filter split: if_splits)

lemma pass_accounts:
  assumes "try_allocate a rng rq ans ev = (a', ev', st)" and "inner_inv (inner a)"
  obtains removed where "ev' = ev @ removed" "set removed \<subseteq> snd ` set (active (inner a))"
    "\<forall>e \<in> set (active (inner a)). e \<in> set (active (inner a')) \<or> snd e \<in> set removed"
    "\<forall>e \<in> set (active (inner a')). e \<in> set (active (inner a)) \<or> st = Done (Inr (snd e))"
proof -
  note accounted = that
  define g where "g = swept a (req_now rq)"
  define s where "s = effective_suggestion g rq"
  let ?dead = "map snd (dead (req_now rq) (active (inner a)))"
  note i = swept_spec(5) [OF assms(2), of "req_now rq", folded g_def]
  have act: "active g = live (req_now rq) (active (inner a))" using swept_spec(1) [OF assms(2)] g_def by simp
  have split: "e \<in> set (active g) \<or> snd e \<in> set ?dead" if "e \<in> set (active (inner a))" for e
    using that by (auto simp: act live_def dead_def not_less)
  have sub: "set (active g) \<subseteq> set (active (inner a))" "set ?dead \<subseteq> snd ` set (active (inner a))"
    by (auto simp: act live_def dead_def)
  from assms g_def s_def show ?thesis
  proof (cases rule: try_allocate_cases)
    case stopped
    then show ?thesis
      using split sub log_onlyD(1) [OF stopped(1)] by (intro accounted [of ?dead]) auto
  next
    case (served a3 ten bud reclaim)
    obtain log where a3: "inner a3 = g\<lparr>rate_limit_log := log\<rparr>"
      using served(1) by (auto simp: log_only_def)
    have i3: "inner_inv (inner a3)" using served(1) i by (auto intro: log_only_inv)
    have accounts: thesis
      if "ev' = (ev @ ?dead) @ served_removed (inner a3) rq s r"
        and keep: "set (active (served_inner g rq s r)) \<subseteq> set (active (inner a'))"
        and new: "\<forall>e \<in> set (active (inner a')).
          e \<in> set (active (served_inner g rq s r)) \<or> st = Done (Inr (snd e))" for r
    proof (rule accounted [of "?dead @ served_removed g rq s r"])
      show "\<forall>e \<in> set (active (inner a)). e \<in> set (active (inner a'))
          \<or> snd e \<in> set (?dead @ served_removed g rq s r)"
        using split served_accounts [OF i] keep by fastforce
      show "\<forall>e \<in> set (active (inner a')). e \<in> set (active (inner a)) \<or> st = Done (Inr (snd e))"
        using new sub(1) set_served_inner by fastforce
      show "set (?dead @ served_removed g rq s r) \<subseteq> snd ` set (active (inner a))"
        using sub served_removed_subset [OF i, of rq s r] image_mono [OF sub(1), of snd] by auto
    qed (use that(1) in \<open>simp add: a3\<close>)
    from served(2) i3 show ?thesis
    proof (cases rule: serve_cases)
      case (granted port cs)
      note c = commit_grant_fields [OF granted(2) [symmetric]]
      have "hm_get (active (served_inner g rq s reclaim)) (port, req_slot_proto rq) = None"
        using granted(3,4) served(5) i a3 by (intro grant_slot_free) auto
      then show ?thesis
        using granted(1) c inner_inv_wfD(1) [OF inner_inv_served [OF i]]
        by (intro accounts [of reclaim]) (auto simp: a3 set_hm_insert hm_get_None_iff image_iff)
    qed (auto simp: a3 intro: accounts)
  qed
qed

end
