(* ===== verification/Natpmp_Allocator_Props.thy ===== *)
theory Natpmp_Allocator_Props
  imports Natpmp_Allocator_Grants
begin

text \<open>
  What the port allocator guarantees. \<open>lock_step\<close> is the transition system of the shared allocator,
  one transition per critical section of \<^verbatim>\<open>allocator.rs\<close>, so that its runs are all the interleavings
  of requests, releases, revocations, restores and status queries of any number of threads. The
  properties are over reachable states, over one pass of the decision, and over the whole request.
\<close>

section \<open>The shared allocator as a transition system\<close>

inductive lock_step :: "allocator \<Rightarrow> allocator \<Rightarrow> bool" where
  ls_trim: "lock_step a (a\<lparr>inner := trim_side_maps now (rate_limit_window a) (inner a)\<rparr>)"
| ls_pass: "try_allocate a rng rq ans ev = (a', ev', st) \<Longrightarrow> lock_step a a'"
| ls_release: "lock_step a (release_at a al now)"
| ls_release_by_client: "release_by_client_at a c iport p now = (a', r) \<Longrightarrow> lock_step a a'"
| ls_restore: "restore_at a entries now = (a', kept) \<Longrightarrow> lock_step a a'"
| ls_take_port: "take_active_for_port_at a port now = (a', removed) \<Longrightarrow> lock_step a a'"
| ls_revoke: "revoke_for_abuse_at a port q now = (a', revoked) \<Longrightarrow> lock_step a a'"
| ls_take_slot: "take_active_for_slot a port p = (a', r) \<Longrightarrow> lock_step a a'"
| ls_take_ip: "take_active_for_ip_at a c now = (a', removed) \<Longrightarrow> lock_step a a'"
| ls_status: "rate_limit_status_at a c now = (a', info) \<Longrightarrow> lock_step a a'"
| ls_report: "lock_step a (report_evicted a evicted kept_one)"
| ls_peers: "set_quota_peers a f = (a', ok) \<Longrightarrow> lock_step a a'"
| ls_budget: "set_port_budget a b = (a', ok) \<Longrightarrow> lock_step a a'"
| ls_sessions: "set_live_sessions a l = (a', ok) \<Longrightarrow> lock_step a a'"
| ls_observer: "set_release_observer a = (a', ok) \<Longrightarrow> lock_step a a'"

lemma lock_step_pass: "lock_step a (fst (try_allocate a rng rq ans ev))"
  by (metis ls_pass prod.collapse)

lemma lock_step_inv: "lock_step a a' \<Longrightarrow> inner_inv (inner a) \<Longrightarrow> inner_inv (inner a')"
proof (induction rule: lock_step.induct)
  case (ls_release a al now)
  then show ?case by (rule release_inv)
qed (auto intro: inner_inv_trim_side_maps try_allocate_inv release_by_client_inv restore_inv
    take_active_for_port_inv revoke_for_abuse_inv take_active_for_slot_inv take_active_for_ip_inv
    rate_limit_status_inv
    simp: set_quota_peers_def set_port_budget_def set_live_sessions_def set_release_observer_def
    split: if_splits option.splits)

interpretation allocator_sys: invariant_steps lock_step "\<lambda>a. inner_inv (inner a)"
  by unfold_locales (rule lock_step_inv)

lemma from_config_inv: "from_config cfg = Some a \<Longrightarrow> inner_inv (inner a)"
  by (auto simp: from_config_def allocator_config.defs inner_inv_empty split: if_splits)

text \<open>
  C1: In every state the allocator can reach from its construction, through any interleaving of
  requests, releases, abuse revocations, restores, evictions and status queries, the TCP leg and the
  UDP leg of an external port belong to one client address, and each mapping is stored under the
  port and protocol it names: no two clients ever share an external port.
\<close>

theorem ports_have_one_owner:
  assumes "from_config cfg = Some ini" and "lock_step\<^sup>*\<^sup>* ini a"
    and "hm_get (active (inner a)) (port, p) = Some x" and "hm_get (active (inner a)) (port, q) = Some y"
  shows "internal_ip x = internal_ip y \<and> external_port x = port \<and> alloc_proto x = p"
proof -
  have i: "inner_inv (inner a)"
    using allocator_sys.run_inv [OF assms(2) from_config_inv [OF assms(1)]] .
  then have "((port, p), x) \<in> set (active (inner a))" "((port, q), y) \<in> set (active (inner a))"
    using assms(3,4) by (auto intro: hm_get_in_set)
  then show ?thesis
    using i unfolding inner_inv_def slots_ok_def single_owner_def by fastforce
qed

lemma held_ports_run: "held_ports g ten =
  foldr (\<lambda>e ports. if internal_ip (snd e) \<in> ten then insert (fst (fst e)) ports else ports) (active g) {}"
proof -
  have "set (map (\<lambda>e. fst (fst e)) (filter (\<lambda>e. internal_ip (snd e) \<in> ten) m)) =
    foldr (\<lambda>e ports. if internal_ip (snd e) \<in> ten then insert (fst (fst e)) ports else ports) m {}" for m
    by (induction m) auto
  then show ?thesis by (simp add: held_ports_def)
qed

text \<open>The definitions that evaluate the decision on concrete tables.\<close>

lemmas run_pass =
  try_allocate_def sweep_expired_def effective_suggestion_def quarantined_def honour_suggestion_def
  cheap_grantable_def departed_reclaim_def refuse_suggestion_def rate_limited_error_def
  port_owner_def port_eligible_def port_in_range_def within_rate_budget_def client_log_def
  same_tuple_def acquires_new_port_def rate_gate_def serve_def held_ports_run reuses_held_port_def
  reclaim_port_def commit_grant_def insert_active_def note_expiry_def pick_port_def range_size_def
  trim_window_def arm_expired_def clamp_lifetime_def mk_request_def hm_retain_def hm_contains_def
  hm_remove_def hm_values_def hm_get_def from_secs_def Let_def
  upt_rec [of _ "numeral k" for k]

text \<open>A small concrete deployment, used to instantiate the properties.\<close>

definition demo_config :: allocator_config where
  "demo_config = \<lparr>port_range = (5000, 5003), cooldown = from_secs 300, rate_limit_max = 3,
     rate_limit_window = from_secs 60, quota_per_client = 2\<rparr>"

definition demo :: allocator where
  "demo = the (from_config demo_config)"

definition demo_answers :: deployer_answers where
  "demo_answers = \<lparr>tenant = Some {167772162, 167772163}, budget = Some 2, holder_live = None\<rparr>"

definition stranger :: deployer_answers where
  "stranger = \<lparr>tenant = Some {167772164}, budget = Some 2, holder_live = None\<rparr>"

text \<open>A TCP mapping of port 5000 for \<open>10.0.0.2\<close>, then its UDP leg.\<close>

definition demo_one :: allocator where
  "demo_one = fst (try_allocate demo (\<lambda>_. 0) (mk_request 167772162 Tcp 80 5000 600 (from_secs 10))
     demo_answers [])"

definition demo_pair :: allocator where
  "demo_pair = fst (try_allocate demo_one (\<lambda>_. 0) (mk_request 167772162 Udp 80 5000 600 (from_secs 20))
     demo_answers [])"

lemma demo_reachable: "from_config demo_config = Some demo" "lock_step\<^sup>*\<^sup>* demo demo_one"
  "lock_step\<^sup>*\<^sup>* demo demo_pair"
proof -
  show "from_config demo_config = Some demo"
    by (simp add: demo_def from_config_def demo_config_def)
  have "lock_step demo demo_one" "lock_step demo_one demo_pair"
    by (simp_all add: demo_one_def demo_pair_def lock_step_pass)
  then show "lock_step\<^sup>*\<^sup>* demo demo_one" "lock_step\<^sup>*\<^sup>* demo demo_pair"
    by auto
qed

lemmas demo_defs = demo_pair_def demo_one_def demo_def demo_config_def from_config_def empty_inner_def
  demo_answers_def stranger_def allocator_config.defs

lemma demo_inv: "inner_inv (inner demo)" "inner_inv (inner demo_one)" "inner_inv (inner demo_pair)"
  using allocator_sys.run_inv [OF _ from_config_inv [OF demo_reachable(1)]] demo_reachable(2,3) by auto

lemma demo_one_active: "active (inner demo_one) =
  [((5000, Tcp), \<lparr>external_port = 5000, internal_ip = 167772162, internal_port = 80,
     alloc_proto = Tcp, expires_at = from_secs 610\<rparr>)]"
  by (simp add: demo_defs run_pass)

lemma demo_pair_active: "active (inner demo_pair) =
  [((5000, Tcp), \<lparr>external_port = 5000, internal_ip = 167772162, internal_port = 80,
     alloc_proto = Tcp, expires_at = from_secs 610\<rparr>),
   ((5000, Udp), \<lparr>external_port = 5000, internal_ip = 167772162, internal_port = 80,
     alloc_proto = Udp, expires_at = from_secs 620\<rparr>)]"
  by (simp add: demo_defs run_pass)

theorem ports_have_one_owner_witness:
  "\<exists>x y. hm_get (active (inner demo_pair)) (5000, Tcp) = Some x
     \<and> hm_get (active (inner demo_pair)) (5000, Udp) = Some y \<and> internal_ip x = internal_ip y"
proof -
  have "\<exists>x y. hm_get (active (inner demo_pair)) (5000, Tcp) = Some x
     \<and> hm_get (active (inner demo_pair)) (5000, Udp) = Some y"
    by (simp add: demo_pair_active hm_get_def)
  then show ?thesis
    using ports_have_one_owner [OF demo_reachable(1,3)] by metis
qed

section \<open>The request loop\<close>

lemma allocate_loop_locks:
  "allocate_loop a rng interfere rq locks ans ev = (a', out, n) \<Longrightarrow>
     locks < n \<and> n \<le> Suc (locks + open_questions ans)"
proof (induction a rng interfere rq locks ans ev rule: allocate_loop.induct)
  case (1 a rng interfere rq locks ans ev)
  obtain b ev1 st where t: "try_allocate a rng rq ans ev = (b, ev1, st)"
    by (cases "try_allocate a rng rq ans ev") auto
  note unfold = allocate_loop.simps [of a rng interfere rq locks ans ev]
  show ?case
  proof (cases st)
    case (Done result)
    then show ?thesis using "1.prems" t by (simp add: unfold)
  next
    case (Asks q)
    then have "open_questions (ask b q (client_ip rq) ans) < open_questions ans"
      using t by (intro ask_closes) (auto dest: try_allocate_pending)
    moreover have "Suc locks < n \<and> n \<le> Suc (Suc locks + open_questions (ask b q (client_ip rq) ans))"
      using "1.IH" [OF t [symmetric] refl Asks] "1.prems" t Asks by (simp add: unfold)
    ultimately show ?thesis by linarith
  qed
qed

text \<open>
  C6: A mapping request always comes to a decision: whatever the deployer's callbacks answer and
  whatever other threads do to the tables while the lock is released, the loop ends after at most
  four acquisitions of the lock, and it leaves the tables consistent.
\<close>

theorem request_decides_within_four_locks:
  assumes "inner_inv (inner a)" and "\<And>i g. inner_inv g \<Longrightarrow> inner_inv (interfere i g)"
    and "allocate_at_collecting a rng interfere c p iport sug secs now = (a', out, n)"
  shows "1 \<le> n \<and> n \<le> 4 \<and> inner_inv (inner a')"
proof -
  let ?a = "a\<lparr>inner := trim_side_maps now (rate_limit_window a) (inner a)\<rparr>"
  have l: "allocate_loop ?a rng interfere (mk_request c p iport sug secs now) 0 (unasked a c) [] = (a', out, n)"
    using assms(3) by (simp add: allocate_at_collecting_def)
  have "open_questions (unasked a c) \<le> 3" by (simp add: open_questions_def)
  moreover have "inner_inv (inner a')"
    using allocate_loop_inv [OF assms(2) _ l] assms(1) by (simp add: inner_inv_trim_side_maps)
  ultimately show ?thesis
    using allocate_loop_locks [OF l] by auto
qed

theorem request_decides_within_four_locks_witness:
  "\<exists>a' out n. allocate_at_collecting demo (\<lambda>_. 0) (\<lambda>_ g. g) 167772162 Tcp 80 5000 600 (from_secs 10)
     = (a', out, n) \<and> 1 \<le> n \<and> n \<le> 4 \<and> inner_inv (inner a')"
  using request_decides_within_four_locks [OF demo_inv(1), of "\<lambda>_ g. g"] by (metis prod.collapse)

section \<open>What a grant guarantees\<close>

text \<open>
  C8: A suggestion is honoured or refused, never replaced: a pass that grants a request naming a
  port outside quarantine grants exactly that port.
\<close>

theorem suggestion_honoured_or_refused:
  assumes "inner_inv (inner a)" and "try_allocate a rng rq ans ev = (a', ev', Done (Inr al))"
    and "suggested rq \<noteq> 0" and "\<not> quarantined (inner a) (req_now rq) (suggested rq)"
  shows "external_port al = suggested rq"
proof -
  have "effective_suggestion (swept a (req_now rq)) rq = suggested rq"
    using assms(1,4) by (simp add: effective_suggestion_def quarantined_def swept_spec)
  then show ?thesis
    using granted_pass [OF assms(2,1) refl refl] assms(3) by metis
qed

theorem suggestion_honoured_or_refused_witness:
  "\<exists>a' ev' al. try_allocate demo (\<lambda>_. 0) (mk_request 167772162 Tcp 80 5001 600 (from_secs 10))
     demo_answers [] = (a', ev', Done (Inr al)) \<and> external_port al = 5001"
proof -
  let ?rq = "mk_request 167772162 Tcp 80 5001 600 (from_secs 10)"
  have "\<exists>a' ev' al. try_allocate demo (\<lambda>_. 0) ?rq demo_answers [] = (a', ev', Done (Inr al))"
    "\<not> quarantined (inner demo) (req_now ?rq) (suggested ?rq)" "suggested ?rq = 5001"
    by (simp_all add: demo_defs run_pass)
  then show ?thesis
    using suggestion_honoured_or_refused [OF demo_inv(1)] by fastforce
qed

text \<open>
  C2: A grant never takes a port from a client that is still there. If the granted port had a live
  mapping of another address, then that address belongs to the requester's tenant, the deployer
  answered that it has no live session, the requester asked for this very port, and every mapping
  it held on the port is handed back to the caller as evicted.
\<close>

theorem live_port_never_taken:
  assumes "inner_inv (inner a)" and "try_allocate a rng rq ans ev = (a', ev', Done (Inr al))"
    and "e \<in> set (active (inner a))" and "req_now rq < expires_at (snd e)"
    and "fst (fst e) = external_port al" and "internal_ip (snd e) \<noteq> client_ip rq"
  shows "(\<exists>ten. tenant ans = Some ten \<and> internal_ip (snd e) \<in> ten)
    \<and> holder_live ans = Some (internal_ip (snd e), False)
    \<and> suggested rq = external_port al \<and> snd e \<in> set ev'"
proof -
  let ?g = "swept a (req_now rq)"
  have e: "e \<in> set (active ?g)"
    using assms(1,3,4) by (simp add: swept_spec live_def)
  have o: "port_owner ?g (external_port al) = Some (internal_ip (snd e))"
    using port_owner_entry [OF swept_spec(5) [OF assms(1)] e] assms(5) by simp
  from assms(2,1) refl refl show ?thesis
  proof (cases rule: grant_kinds)
    case (departed holder ten)
    then have "suggested rq = external_port al"
      by (auto simp: effective_suggestion_def split: if_splits)
    then show ?thesis using departed o e assms(5) by auto
  qed (use o assms(6) in simp_all)
qed

text \<open>The address \<open>10.0.0.3\<close> of the same tenant takes port 5000 back from the departed \<open>10.0.0.2\<close>.\<close>

theorem live_port_never_taken_witness:
  "\<exists>a' ev' al. try_allocate (demo_one\<lparr>live_sessions := Some (\<lambda>_. False)\<rparr>) (\<lambda>_. 0)
     (mk_request 167772163 Tcp 80 5000 600 (from_secs 30))
     (demo_answers\<lparr>holder_live := Some (167772162, False)\<rparr>) [] = (a', ev', Done (Inr al))
   \<and> snd (hd (active (inner demo_one))) \<in> set ev'"
proof -
  let ?a = "demo_one\<lparr>live_sessions := Some (\<lambda>_. False)\<rparr>"
    and ?rq = "mk_request 167772163 Tcp 80 5000 600 (from_secs 30)"
    and ?ans = "demo_answers\<lparr>holder_live := Some (167772162, False)\<rparr>" and ?e = "hd (active (inner demo_one))"
  have "\<exists>a' ev' al. try_allocate ?a (\<lambda>_. 0) ?rq ?ans [] = (a', ev', Done (Inr al)) \<and> external_port al = 5000"
    by (simp add: demo_defs run_pass)
  moreover have "?e \<in> set (active (inner ?a))" "req_now ?rq < expires_at (snd ?e)" "fst (fst ?e) = 5000"
    "internal_ip (snd ?e) \<noteq> client_ip ?rq" "inner_inv (inner ?a)"
    using demo_inv(2) by (simp_all add: demo_one_active mk_request_def from_secs_def)
  ultimately show ?thesis
    using live_port_never_taken [of ?a _ ?rq ?ans "[]"] by metis
qed

text \<open>
  The abuse quarantine binds every path: a port in quarantine is granted only to the client that
  already has a live mapping on it.
\<close>

theorem quarantined_port_not_granted:
  assumes "inner_inv (inner a)" and "try_allocate a rng rq ans ev = (a', ev', Done (Inr al))"
    and "quarantined (inner a) (req_now rq) (external_port al)"
  shows "\<exists>e \<in> set (active (inner a)). fst (fst e) = external_port al
    \<and> internal_ip (snd e) = client_ip rq \<and> req_now rq < expires_at (snd e)"
proof -
  let ?g = "swept a (req_now rq)"
  have q: "quarantined ?g (req_now rq) (external_port al)"
    using assms(1,3) by (simp add: quarantined_def swept_spec)
  from assms(2,1) refl refl show ?thesis
  proof (cases rule: grant_kinds)
    case own
    then show ?thesis
      using swept_spec(1) [OF assms(1)] by (auto simp: live_def dest!: port_owner_SomeD)
  next
    case (departed holder ten)
    then show ?thesis using q by (auto simp: effective_suggestion_def split: if_splits)
  qed (use q port_eligible_not_quarantined in blast)+
qed

text \<open>A client renews one leg of a pair whose port went into quarantine.\<close>

theorem quarantined_port_not_granted_witness:
  "\<exists>a' ev' al. try_allocate (demo_pair\<lparr>inner := (inner demo_pair)\<lparr>abuse_quarantine_until :=
       hm_insert 5000 (from_secs 900) (abuse_quarantine_until (inner demo_pair))\<rparr>\<rparr>) (\<lambda>_. 0)
      (mk_request 167772162 Tcp 80 0 600 (from_secs 30)) demo_answers [] = (a', ev', Done (Inr al))
   \<and> (\<exists>e \<in> set (active (inner demo_pair)). fst (fst e) = external_port al
        \<and> internal_ip (snd e) = 167772162)"
proof -
  let ?g = "(inner demo_pair)\<lparr>abuse_quarantine_until :=
      hm_insert 5000 (from_secs 900) (abuse_quarantine_until (inner demo_pair))\<rparr>"
  let ?a = "demo_pair\<lparr>inner := ?g\<rparr>" and ?rq = "mk_request 167772162 Tcp 80 0 600 (from_secs 30)"
  obtain a' ev' al where t: "try_allocate ?a (\<lambda>_. 0) ?rq demo_answers [] = (a', ev', Done (Inr al))"
    and "external_port al = 5000"
    by (simp add: demo_defs run_pass)
  moreover have "quarantined (inner ?a) (req_now ?rq) 5000"
    by (simp add: quarantined_def table mk_request_def from_secs_def)
  moreover have "inner_inv (inner ?a)"
    using inner_inv_quarantine [OF demo_inv(3)] by simp
  ultimately have "\<exists>e \<in> set (active ?g). fst (fst e) = external_port al \<and> internal_ip (snd e) = client_ip ?rq"
    using quarantined_port_not_granted [OF _ t] by auto
  then show ?thesis
    using t by (auto simp: mk_request_def)
qed

lemma release_by_client_effect:
  assumes "release_by_client_at a c iport p now = (b, Some al)"
  obtains e where "e \<in> set (active (inner a))" "snd e = al" "internal_ip al = c"
    "cooling (inner b) (fst (fst e)) c (now + cooldown a)"
    "set (active (inner b)) \<subseteq> set (active (inner a))"
proof -
  obtain key where f: "find (\<lambda>e. snd (fst e) = p \<and> internal_ip (snd e) = c \<and> internal_port (snd e) = iport)
      (active (inner a)) = Some (key, al)"
    using assms by (auto simp: release_by_client_at_def Let_def split: option.splits)
  then have "internal_ip al = c" "(key, al) \<in> set (active (inner a))"
    using find_SomeD [OF f] by simp_all
  moreover have "cooling (inner b) (fst key) c (now + cooldown a)"
    "set (active (inner b)) \<subseteq> set (active (inner a))"
    using assms f \<open>internal_ip al = c\<close>
    by (auto simp: release_by_client_at_def Let_def cooling_def table hm_remove_def)
  ultimately show ?thesis by (intro that [of "(key, al)"]) simp_all
qed







section \<open>What a refusal leaves behind\<close>

text \<open>
  A refused suggestion and a rate-limited request cost nobody a mapping: the table afterwards is
  the table before without the expired entries.
\<close>

theorem refusal_keeps_mappings:
  assumes "inner_inv (inner a)" and "try_allocate a rng rq ans ev = (a', ev', Done (Inl err))"
    and "err = SuggestedPortInUse q \<or> err = RateLimited c n"
  shows "active (inner a') = filter (\<lambda>e. req_now rq < expires_at (snd e)) (active (inner a))"
  using assms(2,1) refl refl
proof (cases rule: try_allocate_cases)
  case stopped
  then show ?thesis
    using log_onlyD(1) [OF stopped(1)] assms(1) by (simp add: swept_spec live_def)
next
  case (served a3 ten bud reclaim)
  have "inner_inv (inner a3)"
    using served(1) assms(1) by (auto intro: log_only_inv simp: swept_spec)
  with served(2) show ?thesis
    by (cases rule: serve_cases) (use assms(3) in \<open>auto dest: commit_grant_fields(1) [OF sym]\<close>)
qed

theorem refusal_keeps_mappings_witness:
  "\<exists>a' ev'. try_allocate demo_one (\<lambda>_. 0) (mk_request 167772164 Tcp 80 5000 600 (from_secs 30))
     stranger [] = (a', ev', Done (Inl (SuggestedPortInUse 5000)))
   \<and> active (inner a') = active (inner demo_one)"
proof -
  let ?rq = "mk_request 167772164 Tcp 80 5000 600 (from_secs 30)"
  have "\<exists>a' ev'. try_allocate demo_one (\<lambda>_. 0) ?rq stranger [] = (a', ev', Done (Inl (SuggestedPortInUse 5000)))"
    by (simp add: demo_defs run_pass)
  moreover have "filter (\<lambda>e. req_now ?rq < expires_at (snd e)) (active (inner demo_one)) = active (inner demo_one)"
    by (simp add: demo_one_active mk_request_def from_secs_def)
  ultimately show ?thesis
    using refusal_keeps_mappings [OF demo_inv(2)] by metis
qed

text \<open>
  C7: No mapping is lost silently: in every pass, whatever its outcome, each mapping either stays in
  the table or is handed back to the caller, everything handed back was in the table, and the only
  mapping that appears is the one granted.
\<close>

theorem every_mapping_accounted_for:
  assumes "inner_inv (inner a)" and "try_allocate a rng rq ans ev = (a', ev', st)"
  shows "\<exists>removed. ev' = ev @ removed \<and> set removed \<subseteq> snd ` set (active (inner a))
    \<and> (\<forall>e \<in> set (active (inner a)). e \<in> set (active (inner a')) \<or> snd e \<in> set removed)
    \<and> (\<forall>e \<in> set (active (inner a')). e \<in> set (active (inner a)) \<or> st = Done (Inr (snd e)))"
  using pass_accounts [OF assms(2,1)] by metis

theorem every_mapping_accounted_for_witness:
  "\<exists>a' ev' st. try_allocate demo_pair (\<lambda>_. 0) (mk_request 167772162 Tcp 80 0 600 (from_secs 615))
     demo_answers [] = (a', ev', st)
   \<and> (\<forall>e \<in> set (active (inner demo_pair)). e \<in> set (active (inner a')) \<or> snd e \<in> set ev')"
  using every_mapping_accounted_for [OF demo_inv(3)] by (metis append_Nil prod.collapse)

text \<open>
  A request fails as exhausted only when the configured range really has no port left for the
  client: the random probes are backed by a full scan, so every port of the range is mapped, in
  quarantine, or cooling down.
\<close>

theorem exhausted_only_when_no_port_left:
  assumes "inner_inv (inner a)" and "try_allocate a rng rq ans ev = (a', ev', Done (Inl Exhausted))"
    and "port_in_range q (port_range a)"
  shows "\<not> port_eligible (inner a') q (client_ip rq) (req_now rq) None"
  using assms(2,1) refl refl
proof (cases rule: try_allocate_cases)
  case stopped
  then show ?thesis by (auto simp: refusal_def)
next
  case (served a3 ten bud reclaim)
  have "inner_inv (inner a3)"
    using served(1) assms(1) by (auto intro: log_only_inv simp: swept_spec)
  with served(2) show ?thesis
  proof (cases rule: serve_cases)
    case exhausted
    then show ?thesis
      using log_onlyD(7) [OF served(1)] pick_port_None [OF _ assms(3)] by fastforce
  qed (auto dest: commit_grant_fields(1) [OF sym])
qed

theorem exhausted_only_when_no_port_left_witness:
  "\<exists>a' ev'. try_allocate (demo_one\<lparr>port_range := (5000, 5000)\<rparr>) (\<lambda>_. 0)
     (mk_request 167772164 Tcp 80 0 600 (from_secs 30)) stranger [] = (a', ev', Done (Inl Exhausted))
   \<and> \<not> port_eligible (inner a') 5000 167772164 (from_secs 30) None"
proof -
  let ?a = "demo_one\<lparr>port_range := (5000, 5000)\<rparr>"
    and ?rq = "mk_request 167772164 Tcp 80 0 600 (from_secs 30)"
  have "\<exists>a' ev'. try_allocate ?a (\<lambda>_. 0) ?rq stranger [] = (a', ev', Done (Inl Exhausted))"
    by (simp add: demo_defs run_pass)
  moreover have "port_in_range 5000 (port_range ?a)" "inner_inv (inner ?a)"
    "client_ip ?rq = 167772164" "req_now ?rq = from_secs 30"
    using demo_inv(2) by (simp_all add: port_in_range_def mk_request_def)
  ultimately show ?thesis
    using exhausted_only_when_no_port_left [of ?a] by metis
qed

end
