(* ===== verification/Natpmp_Allocator_Rate.thy ===== *)
theory Natpmp_Allocator_Rate
  imports Natpmp_Allocator_Props "HOL-Library.Multiset"
begin

text \<open>
  The sliding-window limit of the allocator over whole executions. \<open>timed_run\<close> are the runs of the
  shared allocator under a clock that does not go back, together with the history of acquisitions:
  the grants that gave a client a port it did not hold. The limit is a property of that history.
\<close>

section \<open>Runs with a clock and a history\<close>

text \<open>The acquisition a pass makes, if its outcome is a grant that is not a refresh or a second leg.\<close>

definition acquisition :: "allocator \<Rightarrow> map_request \<Rightarrow> step \<Rightarrow> (ipv4 \<times> instant) list" where
  "acquisition a rq st =
     (case st of
        Done (Inr _) \<Rightarrow>
          if acquires_new_port (swept a (req_now rq)) rq (effective_suggestion (swept a (req_now rq)) rq)
          then [(client_ip rq, req_now rq)] else []
      | _ \<Rightarrow> [])"

inductive timed_run :: "allocator \<Rightarrow> instant \<Rightarrow> (ipv4 \<times> instant) list \<Rightarrow> bool" where
  tr_start: "from_config cfg = Some a \<Longrightarrow> timed_run a now []"
| tr_trim: "timed_run a t h \<Longrightarrow> t \<le> now \<Longrightarrow>
    timed_run (a\<lparr>inner := trim_side_maps now (rate_limit_window a) (inner a)\<rparr>) now h"
| tr_pass: "timed_run a t h \<Longrightarrow> t \<le> req_now rq \<Longrightarrow> try_allocate a rng rq ans ev = (a', ev', st) \<Longrightarrow>
    timed_run a' (req_now rq) (h @ acquisition a rq st)"
| tr_status: "timed_run a t h \<Longrightarrow> t \<le> now \<Longrightarrow> rate_limit_status_at a c now = (a', info) \<Longrightarrow>
    timed_run a' now h"
| tr_release: "timed_run a t h \<Longrightarrow> t \<le> now \<Longrightarrow> timed_run (release_at a al now) now h"
| tr_release_by_client: "timed_run a t h \<Longrightarrow> t \<le> now \<Longrightarrow>
    release_by_client_at a c iport p now = (a', r) \<Longrightarrow> timed_run a' now h"
| tr_restore: "timed_run a t h \<Longrightarrow> t \<le> now \<Longrightarrow> restore_at a entries now = (a', kept) \<Longrightarrow>
    timed_run a' now h"
| tr_take_port: "timed_run a t h \<Longrightarrow> t \<le> now \<Longrightarrow> take_active_for_port_at a port now = (a', removed) \<Longrightarrow>
    timed_run a' now h"
| tr_revoke: "timed_run a t h \<Longrightarrow> t \<le> now \<Longrightarrow> revoke_for_abuse_at a port q now = (a', revoked) \<Longrightarrow>
    timed_run a' now h"
| tr_take_slot: "timed_run a t h \<Longrightarrow> take_active_for_slot a port p = (a', r) \<Longrightarrow> timed_run a' t h"
| tr_take_ip: "timed_run a t h \<Longrightarrow> t \<le> now \<Longrightarrow> take_active_for_ip_at a c now = (a', removed) \<Longrightarrow>
    timed_run a' now h"
| tr_report: "timed_run a t h \<Longrightarrow> timed_run (report_evicted a evicted kept_one) t h"
| tr_peers: "timed_run a t h \<Longrightarrow> set_quota_peers a f = (a', ok) \<Longrightarrow> timed_run a' t h"
| tr_budget: "timed_run a t h \<Longrightarrow> set_port_budget a b = (a', ok) \<Longrightarrow> timed_run a' t h"
| tr_sessions: "timed_run a t h \<Longrightarrow> set_live_sessions a l = (a', ok) \<Longrightarrow> timed_run a' t h"
| tr_observer: "timed_run a t h \<Longrightarrow> set_release_observer a = (a', ok) \<Longrightarrow> timed_run a' t h"

section \<open>What each critical section does to the logs\<close>

lemma frames [simp]:
  "rate_limit_max (report_released a xs) = rate_limit_max a"
  "rate_limit_window (report_released a xs) = rate_limit_window a"
  "rate_limit_max (report_evicted a xs k) = rate_limit_max a"
  "rate_limit_window (report_evicted a xs k) = rate_limit_window a"
  by (simp_all add: report_released_def report_evicted_def)

text \<open>The sections that do not touch the logs.\<close>

definition log_frame_step :: "allocator \<Rightarrow> allocator \<Rightarrow> bool" where
  "log_frame_step a a' \<longleftrightarrow> rate_limit_log (inner a') = rate_limit_log (inner a)
     \<and> rate_limit_max a' = rate_limit_max a \<and> rate_limit_window a' = rate_limit_window a"

lemma take_keys_log: "rate_limit_log (fst (take_keys until keys (g, removed))) = rate_limit_log g"
  by (induction keys arbitrary: g removed) (auto split: option.splits)

lemma restore_one_log: "rate_limit_log (fst (restore_one now e st)) = rate_limit_log (fst st)"
  by (cases st) (auto simp: restore_one_def insert_active_def)

lemma fold_restore_log: "rate_limit_log (fst (fold (restore_one now) es st)) = rate_limit_log (fst st)"
  by (induction es arbitrary: st) (simp_all add: restore_one_log)

lemma log_frame_release: "log_frame_step a (release_at a al now)"
  by (simp add: log_frame_step_def release_at_def Let_def split: option.split)

lemma log_frame_release_by_client:
  "release_by_client_at a c iport p now = (a', r) \<Longrightarrow> log_frame_step a a'"
  by (auto simp: log_frame_step_def release_by_client_at_def Let_def split: option.splits)

lemma log_frame_restore: "restore_at a entries now = (a', kept) \<Longrightarrow> log_frame_step a a'"
  using fold_restore_log [of now entries "(inner a, [])"]
  by (auto simp: log_frame_step_def restore_at_def split: prod.splits)

lemma log_frame_take_port: "take_active_for_port_at a port now = (a', removed) \<Longrightarrow> log_frame_step a a'"
  by (auto simp: log_frame_step_def take_active_for_port_at_def dest: take_port_spec(6) split: prod.splits)

lemma log_frame_revoke: "revoke_for_abuse_at a port q now = (a', revoked) \<Longrightarrow> log_frame_step a a'"
  by (auto simp: log_frame_step_def revoke_for_abuse_at_def Let_def dest: take_port_spec(6) split: prod.splits)

lemma log_frame_take_ip: "take_active_for_ip_at a c now = (a', removed) \<Longrightarrow> log_frame_step a a'"
  by (auto simp: log_frame_step_def take_active_for_ip_at_def Let_def split: prod.splits)
    (metis fst_conv take_keys_log)

lemma wiring_inner:
  "set_quota_peers a f = (a', ok) \<Longrightarrow> inner a' = inner a"
  "set_port_budget a b = (a', ok) \<Longrightarrow> inner a' = inner a"
  "set_live_sessions a l = (a', ok) \<Longrightarrow> inner a' = inner a"
  "set_release_observer a = (a', ok) \<Longrightarrow> inner a' = inner a"
  by (auto simp: set_quota_peers_def set_port_budget_def set_live_sessions_def
      set_release_observer_def split: if_splits)

lemma log_frame_wiring:
  "log_frame_step a (report_evicted a evicted k)"
  "take_active_for_slot a port p = (a', r) \<Longrightarrow> log_frame_step a a'"
  "set_quota_peers a f = (a', ok) \<Longrightarrow> log_frame_step a a'"
  "set_port_budget a b = (a', ok) \<Longrightarrow> log_frame_step a a'"
  "set_live_sessions a l = (a', ok) \<Longrightarrow> log_frame_step a a'"
  "set_release_observer a = (a', ok) \<Longrightarrow> log_frame_step a a'"
  by (auto simp: log_frame_step_def take_active_for_slot_def set_quota_peers_def set_port_budget_def
      set_live_sessions_def set_release_observer_def split: if_splits)

lemma trim_side_maps_log:
  assumes "inner_inv g"
  shows "log_evolves now w mx None g (trim_side_maps now w g)"
proof -
  have "client_log (trim_side_maps now w g) c = trim_window now w (client_log g c)" for c
  proof -
    have wf: "hm_wf (rate_limit_log g)" using assms by (rule inner_inv_wfD)
    have "hm_get (filter (\<lambda>e. snd e \<noteq> []) (map (\<lambda>e. (fst e, trim_window now w (snd e))) m)) c =
        (case hm_get m c of None \<Rightarrow> None
         | Some l \<Rightarrow> if trim_window now w l = [] then None else Some (trim_window now w l))"
      if "hm_wf m" for m :: "(ipv4, instant list) hmap"
      using that by (induction m) (auto simp: hm_get_def hm_wf_def map_of_eq_None_iff image_iff split: option.splits)
    from this [OF wf] show ?thesis
      by (auto simp: client_log_def trim_side_maps_def split: option.splits)
  qed
  then show ?thesis by (simp add: log_evolves_def)
qed

lemma status_log:
  "rate_limit_status_at a c now = (a', info) \<Longrightarrow>
     log_evolves now (rate_limit_window a) mx None (inner a) (inner a')
     \<and> rate_limit_max a' = rate_limit_max a \<and> rate_limit_window a' = rate_limit_window a"
  by (auto simp: rate_limit_status_at_def log_evolves_def client_log_insert Let_def split: option.splits)
    (simp_all add: client_log_def)

section \<open>The limit\<close>

definition acquired :: "ipv4 \<Rightarrow> (ipv4 \<times> instant) list \<Rightarrow> instant list" where
  "acquired c h = map snd (filter (\<lambda>x. fst x = c) h)"

text \<open>The log of each client is chronological, within the limit, and lists its recent acquisitions.\<close>

definition rate_inv :: "duration \<Rightarrow> nat \<Rightarrow> inner \<Rightarrow> instant \<Rightarrow> (ipv4 \<times> instant) list \<Rightarrow> bool" where
  "rate_inv w mx g now h \<longleftrightarrow> (\<forall>c.
     sorted (client_log g c) \<and> (\<forall>t \<in> set (client_log g c). t \<le> now) \<and> length (client_log g c) \<le> mx
     \<and> mset (filter (\<lambda>t. now - t \<le> w) (acquired c h)) \<subseteq># mset (client_log g c))"

lemma recent_trimmed:
  assumes "mset (filter (\<lambda>t. t1 - t \<le> w) xs) \<subseteq># mset l" and "t1 \<le> t2" and "sorted l"
  shows "mset (filter (\<lambda>t. t2 - t \<le> w) xs) \<subseteq># mset (trim_window t2 w l)"
proof -
  have "filter (\<lambda>t. t2 - t \<le> w) xs = filter (\<lambda>t. t2 - t \<le> w) (filter (\<lambda>t. t1 - t \<le> w) xs)"
    using assms(2) by (auto simp: filter_filter intro!: filter_cong)
  also have "mset \<dots> = filter_mset (\<lambda>t. t2 - t \<le> w) (mset (filter (\<lambda>t. t1 - t \<le> w) xs))"
    by (rule mset_filter)
  also have "\<dots> \<subseteq># filter_mset (\<lambda>t. t2 - t \<le> w) (mset l)"
    using assms(1) by (rule multiset_filter_mono)
  finally show ?thesis
    by (simp add: trim_window_eq_filter [OF assms(3)])
qed

lemma trim_window_subseteq: "sorted l \<Longrightarrow> mset (trim_window t w l) \<subseteq># mset l"
  by (simp add: trim_window_eq_filter)

lemma rate_inv_evolves:
  assumes "rate_inv w mx g t1 h" and "t1 \<le> t2" and "log_evolves t2 w mx ch g g'"
    and "new = [] \<or> (\<exists>c. ch = Some c \<and> new = [(c, t2)])"
  shows "rate_inv w mx g' t2 (h @ new)"
  unfolding rate_inv_def
proof
  fix c
  let ?l = "client_log g c" and ?l' = "client_log g' c"
  have i: "sorted ?l" "\<forall>t \<in> set ?l. t \<le> t1" "length ?l \<le> mx"
    "mset (filter (\<lambda>t. t1 - t \<le> w) (acquired c h)) \<subseteq># mset ?l"
    using assms(1) by (auto simp: rate_inv_def)
  have tr: "sorted (trim_window t2 w ?l)" "\<forall>t \<in> set (trim_window t2 w ?l). t \<le> t2"
    "length (trim_window t2 w ?l) \<le> mx" "\<forall>t \<in> set ?l. t \<le> t2"
    using i assms(2) sorted_trim_window [OF i(1)] order_trans [OF length_trim_window i(3)]
    by (auto simp: trim_window_eq_filter [OF i(1)])
  have old: "mset (filter (\<lambda>t. t2 - t \<le> w) (acquired c h)) \<subseteq># mset (trim_window t2 w ?l)"
    using recent_trimmed [OF i(4) assms(2) i(1)] .
  show "sorted ?l' \<and> (\<forall>t \<in> set ?l'. t \<le> t2) \<and> length ?l' \<le> mx
     \<and> mset (filter (\<lambda>t. t2 - t \<le> w) (acquired c (h @ new))) \<subseteq># mset ?l'"
  proof (cases "ch = Some c")
    case True
    then have "?l' = trim_window t2 w ?l @ [t2]" "length (trim_window t2 w ?l) < mx"
      using assms(3) by (auto simp: log_evolves_def)
    moreover have "acquired c (h @ new) = acquired c h \<or> acquired c (h @ new) = acquired c h @ [t2]"
      using assms(4) True by (auto simp: acquired_def)
    ultimately show ?thesis
      using tr old by (auto simp: sorted_append intro: subset_mset.order_trans)
  next
    case False
    then have "acquired c (h @ new) = acquired c h" "?l' = ?l \<or> ?l' = trim_window t2 w ?l"
      using assms(3,4) by (auto simp: log_evolves_def acquired_def split: if_splits)
    from this(2) show ?thesis
    proof
      assume "?l' = ?l"
      then show ?thesis
        using tr(4) i(1,3) \<open>acquired c (h @ new) = acquired c h\<close>
          subset_mset.order_trans [OF old trim_window_subseteq [OF i(1)]] by simp
    next
      assume "?l' = trim_window t2 w ?l"
      then show ?thesis
        using tr old \<open>acquired c (h @ new) = acquired c h\<close> by simp
    qed
  qed
qed

lemma rate_inv_framed:
  assumes "rate_inv (rate_limit_window a) (rate_limit_max a) (inner a) t h" and "t \<le> now"
    and "log_frame_step a a'"
  shows "rate_inv (rate_limit_window a') (rate_limit_max a') (inner a') now h"
  using rate_inv_evolves [OF assms(1,2) log_evolves_refl, of "inner a'" "[]"] assms(3)
  by (simp add: log_frame_step_def)

lemma serve_config:
  assumes "serve a rng rq ten bud s reclaim ev = (a', ev', st)"
  shows "rate_limit_max a' = rate_limit_max a" "rate_limit_window a' = rate_limit_window a"
  using assms
  by (auto simp: serve_def commit_grant_def Let_def split: prod.splits if_splits option.splits)

lemma pass_log:
  assumes "try_allocate a rng rq ans ev = (a', ev', st)" and "inner_inv (inner a)"
  shows "\<exists>ch. log_evolves (req_now rq) (rate_limit_window a) (rate_limit_max a) ch (inner a) (inner a')
      \<and> (acquisition a rq st = [] \<or> (\<exists>c. ch = Some c \<and> acquisition a rq st = [(c, req_now rq)]))"
    and "rate_limit_max a' = rate_limit_max a \<and> rate_limit_window a' = rate_limit_window a"
proof -
  define g where "g = swept a (req_now rq)"
  define s where "s = effective_suggestion g rq"
  have i: "inner_inv g" using swept_spec(5) [OF assms(2)] by (simp add: g_def)
  have e0: "log_evolves (req_now rq) (rate_limit_window a) (rate_limit_max a) None (inner a) g"
    using swept_spec(4) [OF assms(2)] by (intro log_evolves_refl) (simp add: g_def)
  have "(\<exists>ch. log_evolves (req_now rq) (rate_limit_window a) (rate_limit_max a) ch g (inner a')
      \<and> (acquisition a rq st = [] \<or> (\<exists>c. ch = Some c \<and> acquisition a rq st = [(c, req_now rq)])))
    \<and> rate_limit_max a' = rate_limit_max a \<and> rate_limit_window a' = rate_limit_window a"
    using assms g_def s_def
  proof (cases rule: try_allocate_cases)
    case stopped
    then have "acquisition a rq st = []"
      by (fastforce simp: acquisition_def split: step.splits sum.splits)
    then show ?thesis using stopped(4) log_onlyD(9,10) [OF stopped(1)] by auto
  next
    case (served a3 ten bud reclaim)
    note cfg = log_onlyD(9,10) [OF served(1)] serve_config [OF served(2)]
    have i3: "inner_inv (inner a3)" using served(1) i by (auto intro: log_only_inv)
    have acq: "acquires_new_port (inner a3) rq s = acquires_new_port g rq s"
      using log_onlyD(21) [OF served(1)] by simp
    from served(2) i3 show ?thesis
    proof (cases rule: serve_cases)
      case (granted port cs)
      note c = commit_grant_fields [OF granted(2) [symmetric]]
      let ?ch = "if acquires_new_port g rq s then Some (client_ip rq) else None"
      have "log_evolves (req_now rq) (rate_limit_window a) (rate_limit_max a) ?ch (inner a3) (inner a')"
        using c(4) served(6,8) by (auto simp: log_evolves_def client_log_def acq table split: option.splits)
      then have "log_evolves (req_now rq) (rate_limit_window a) (rate_limit_max a) ?ch g (inner a')"
        using served(7) log_evolves_trans by blast
      moreover have "acquisition a rq st = (if acquires_new_port g rq s then [(client_ip rq, req_now rq)] else [])"
        using c(1) by (simp add: acquisition_def g_def s_def)
      ultimately show ?thesis using cfg by (cases "acquires_new_port g rq s") auto
    qed (use served(7) cfg in \<open>auto simp: acquisition_def log_evolves_def client_log_def\<close>)
  qed
  then show "\<exists>ch. log_evolves (req_now rq) (rate_limit_window a) (rate_limit_max a) ch (inner a) (inner a')
      \<and> (acquisition a rq st = [] \<or> (\<exists>c. ch = Some c \<and> acquisition a rq st = [(c, req_now rq)]))"
    and "rate_limit_max a' = rate_limit_max a \<and> rate_limit_window a' = rate_limit_window a"
    using log_evolves_trans [OF e0] by blast+
qed

lemma timed_run_inv:
  "timed_run a now h \<Longrightarrow> inner_inv (inner a) \<and> rate_inv (rate_limit_window a) (rate_limit_max a) (inner a) now h"
proof (induction rule: timed_run.induct)
  case (tr_start cfg a now)
  then have "rate_limit_log (inner a) = []"
    by (auto simp: from_config_def allocator_config.defs empty_inner_def split: if_splits)
  then show ?case
    using from_config_inv [OF tr_start] by (simp add: rate_inv_def client_log_def acquired_def)
next
  case (tr_trim a t h now)
  then show ?case
    using rate_inv_evolves [OF _ tr_trim.hyps(2) trim_side_maps_log, of _ _ _ _ "[]"]
    by (auto intro: inner_inv_trim_side_maps)
next
  case (tr_pass a t h rq rng ans ev a' ev' st)
  note l = pass_log [OF tr_pass.hyps(3) conjunct1 [OF tr_pass.IH]]
  then show ?case
    using tr_pass.IH tr_pass.hyps(2) try_allocate_inv [OF tr_pass.hyps(3)] rate_inv_evolves by fastforce
next
  case (tr_status a t h now c a' info)
  then show ?case
    using status_log [OF tr_status.hyps(3)] rate_limit_status_inv [OF tr_status.hyps(3)]
      rate_inv_evolves [of _ _ "inner a" t h now None "inner a'" "[]"] by fastforce
next
  case (tr_release a t h now al)
  then show ?case by (auto intro: rate_inv_framed log_frame_release release_inv)
next
  case (tr_report a t h evicted kept_one)
  then show ?case by (auto intro: rate_inv_framed log_frame_wiring(1))
qed (auto intro: rate_inv_framed dest: log_frame_release_by_client release_by_client_inv log_frame_restore restore_inv
    log_frame_take_port take_active_for_port_inv log_frame_revoke revoke_for_abuse_inv
    log_frame_take_ip take_active_for_ip_inv log_frame_wiring(2-6) wiring_inner take_active_for_slot_inv)



end
