(* ===== verification/Natpmp_Allocator_Ops.thy ===== *)
theory Natpmp_Allocator_Ops
  imports Natpmp_Allocator_Props
begin

text \<open>
  The operations around the allocation decision: abuse revocation, release by the client, eviction of
  a whole address, restore after a restart, the rate-limit status, and renewals.
\<close>

section \<open>Abuse revocation\<close>

lemma revoke_effect:
  assumes "revoke_for_abuse_at a port q now = (b, revoked)"
  shows "\<forall>e \<in> set (active (inner b)). fst (fst e) \<noteq> port"
    "\<exists>t \<ge> now + min q MAX_ABUSE_QUARANTINE. hm_get (abuse_quarantine_until (inner b)) port = Some t
       \<and> (\<forall>u. hm_get (abuse_quarantine_until (inner a)) port = Some u \<longrightarrow> u \<le> t)"
    "map rev_allocation revoked = legs (active (inner a)) port"
proof -
  let ?until = "now + min q MAX_ABUSE_QUARANTINE"
  let ?slot = "case hm_get (abuse_quarantine_until (inner a)) port of
      None \<Rightarrow> ?until | Some t \<Rightarrow> if ?until > t then ?until else t"
  let ?g1 = "(inner a)\<lparr>abuse_quarantine_until := hm_insert port ?slot (abuse_quarantine_until (inner a))\<rparr>"
  obtain g2 removed where t: "take_port ?g1 port (now + cooldown a) = (g2, removed)"
    by fastforce
  note spec = take_port_spec [OF t]
  have b: "inner b = g2\<lparr>held_since := hm_remove port (held_since g2)\<rparr>"
    "map rev_allocation revoked = removed"
    using assms unfolding revoke_for_abuse_at_def Let_def t by (auto simp: comp_def)
  show "\<forall>e \<in> set (active (inner b)). fst (fst e) \<noteq> port"
    by (auto simp: b spec without_port_def)
  show "\<exists>t \<ge> ?until. hm_get (abuse_quarantine_until (inner b)) port = Some t
       \<and> (\<forall>u. hm_get (abuse_quarantine_until (inner a)) port = Some u \<longrightarrow> u \<le> t)"
    by (intro exI [of _ ?slot]) (simp add: b spec table split: option.split)
  show "map rev_allocation revoked = legs (active (inner a)) port"
    using b(2) spec(2) by simp
qed



section \<open>Release by the client\<close>

text \<open>
  A client releases its own mapping and nothing else: the mapping handed back is that client's,
  for that internal port and protocol, every other mapping stays, and without such a mapping the
  allocator is unchanged.
\<close>

theorem release_by_client_only_its_own:
  assumes "inner_inv (inner a)" and "release_by_client_at a c iport p now = (a', r)"
  shows "case r of
      Some al \<Rightarrow> internal_ip al = c \<and> internal_port al = iport \<and> alloc_proto al = p
        \<and> (\<exists>k. hm_get (active (inner a)) k = Some al
             \<and> (\<forall>j. hm_get (active (inner a')) j = (if j = k then None else hm_get (active (inner a)) j)))
    | None \<Rightarrow> a' = a \<and> (\<forall>e \<in> set (active (inner a)).
        \<not> (internal_ip (snd e) = c \<and> internal_port (snd e) = iport \<and> alloc_proto (snd e) = p))"
proof -
  let ?P = "\<lambda>e. snd (fst e) = p \<and> internal_ip (snd e) = c \<and> internal_port (snd e) = iport"
  have slots: "fst e = (external_port (snd e), alloc_proto (snd e))" if "e \<in> set (active (inner a))" for e
    using assms(1) that unfolding inner_inv_def slots_ok_def by auto
  show ?thesis
  proof (cases "find ?P (active (inner a))")
    case None
    then have unchanged: "r = None" "a' = a"
      using assms(2) by (simp_all add: release_by_client_at_def Let_def)
    have none: "\<not> ?P e" if "e \<in> set (active (inner a))" for e
      using None that unfolding find_None_iff by blast
    have "\<not> (internal_ip (snd e) = c \<and> internal_port (snd e) = iport \<and> alloc_proto (snd e) = p)"
      if "e \<in> set (active (inner a))" for e
      using none [OF that] arg_cong [OF slots [OF that], of snd] by auto
    then show ?thesis using unchanged by simp
  next
    case (Some e)
    obtain key al where e: "e = (key, al)" by (cases e)
    then have f: "?P (key, al)" "(key, al) \<in> set (active (inner a))"
      using find_SomeD [OF Some] by simp_all
    moreover have "r = Some al" "active (inner a') = hm_remove key (active (inner a))"
      using assms(2) Some e by (auto simp: release_by_client_at_def Let_def)
    moreover have "hm_get (active (inner a)) key = Some al"
      using f(2) hm_in_set_iff inner_inv_wfD(1) [OF assms(1)] by metis
    ultimately show ?thesis
      using slots [OF f(2)] by (auto simp: table)
  qed
qed

theorem release_by_client_only_its_own_witness:
  "\<exists>a' al. release_by_client_at demo_pair 167772162 80 Udp (from_secs 30) = (a', Some al)
     \<and> internal_ip al = 167772162 \<and> alloc_proto al = Udp"
proof -
  have "\<exists>a' al. release_by_client_at demo_pair 167772162 80 Udp (from_secs 30) = (a', Some al)"
    by (simp add: release_by_client_at_def demo_pair_active Let_def)
  then show ?thesis
    using release_by_client_only_its_own [OF demo_inv(3)] by fastforce
qed

section \<open>Eviction of an address\<close>

lemma take_keys_spec:
  "hm_wf (active g) \<Longrightarrow> distinct keys \<Longrightarrow> set keys \<subseteq> fst ` set (active g) \<Longrightarrow>
    take_keys until keys (g, removed) = (g', removed') \<Longrightarrow>
    active g' = filter (\<lambda>e. fst e \<notin> set keys) (active g)
    \<and> removed' = removed @ map (\<lambda>k. the (hm_get (active g) k)) keys
    \<and> (\<forall>k \<in> set keys. hm_get (cooldown_until g') (fst k) = Some until)
    \<and> (\<forall>p. (\<forall>k \<in> set keys. fst k \<noteq> p) \<longrightarrow> hm_get (cooldown_until g') p = hm_get (cooldown_until g) p)"
proof (induction keys arbitrary: g removed)
  case (Cons k keys)
  obtain al where al: "hm_get (active g) k = Some al"
    using Cons.prems(3) by (metis hm_get_None_iff list.set_intros(1) not_Some_eq subsetD)
  let ?g = "g\<lparr>active := hm_remove k (active g),
       cooldown_until := hm_insert (fst k) until (cooldown_until g),
       last_user_per_port := hm_insert (fst k) (internal_ip al, until) (last_user_per_port g)\<rparr>"
  have t: "take_keys until keys (?g, removed @ [al]) = (g', removed')"
    using Cons.prems(4) al by simp
  have "x \<in> fst ` set (active ?g)" if "x \<in> set keys" for x
  proof -
    have "x \<in> fst ` set (active g)" "x \<noteq> k" using Cons.prems(2,3) that by (auto simp del: fst_conv)
    then show ?thesis by (auto simp: hm_remove_def)
  qed
  moreover have "hm_wf (active ?g)" "distinct keys"
    using Cons.prems(1,2) by (auto simp: hm_remove_def intro: hm_wf_filter)
  ultimately have ih: "active g' = filter (\<lambda>e. fst e \<notin> set keys) (active ?g)
    \<and> removed' = (removed @ [al]) @ map (\<lambda>k. the (hm_get (active ?g) k)) keys
    \<and> (\<forall>k \<in> set keys. hm_get (cooldown_until g') (fst k) = Some until)
    \<and> (\<forall>p. (\<forall>k \<in> set keys. fst k \<noteq> p) \<longrightarrow> hm_get (cooldown_until g') p = hm_get (cooldown_until ?g) p)"
    using Cons.IH [OF _ _ _ t] by blast
  have "map (\<lambda>k. the (hm_get (active ?g) k)) keys = map (\<lambda>k. the (hm_get (active g) k)) keys"
    using Cons.prems(2) by (auto simp: table)
  moreover have "filter (\<lambda>e. fst e \<notin> set keys) (active ?g) = filter (\<lambda>e. fst e \<notin> set (k # keys)) (active g)"
    by (auto simp: hm_remove_def intro!: filter_cong)
  moreover have "hm_get (cooldown_until g') (fst k) = Some until"
    using ih by (cases "\<exists>j \<in> set keys. fst j = fst k") (auto simp: table)
  ultimately show ?case
    using ih al by (auto simp: table)
qed simp

text \<open>
  Evicting an address takes exactly the mappings of that address out of the table, all of them,
  hands them back, and puts each of their ports into cooldown.
\<close>

theorem eviction_takes_exactly_the_address:
  assumes "inner_inv (inner a)" and "take_active_for_ip_at a c now = (a', removed)"
  shows "active (inner a') = filter (\<lambda>e. internal_ip (snd e) \<noteq> c) (active (inner a))
    \<and> removed = map snd (filter (\<lambda>e. internal_ip (snd e) = c) (active (inner a)))
    \<and> (\<forall>al \<in> set removed. hm_get (cooldown_until (inner a')) (external_port al) = Some (now + cooldown a))"
proof -
  let ?P = "\<lambda>e. internal_ip (snd e) = c" and ?m = "active (inner a)"
  let ?keys = "map fst (filter ?P ?m)"
  have wf: "hm_wf ?m" using assms(1) by (rule inner_inv_wfD)
  have t: "take_keys (now + cooldown a) ?keys (inner a, []) = (inner a', removed)"
    using assms(2) by (auto simp: take_active_for_ip_at_def Let_def split: prod.splits)
  have "distinct ?keys" using hm_wf_filter [OF wf] by (simp add: hm_wf_def)
  note spec = take_keys_spec [OF wf this _ t]
  have act: "active (inner a') = filter (\<lambda>e. fst e \<notin> set ?keys) ?m" "removed = map (\<lambda>k. the (hm_get ?m k)) ?keys"
    and cool: "\<forall>k \<in> set ?keys. hm_get (cooldown_until (inner a')) (fst k) = Some (now + cooldown a)"
    using spec by auto
  have rem: "removed = map snd (filter ?P ?m)"
    using act(2) map_get_keys [OF wf] by simp
  moreover have "active (inner a') = filter (\<lambda>e. \<not> ?P e) ?m"
    using act(1) wf_filter_keys [OF wf, of ?P] by simp
  moreover have "hm_get (cooldown_until (inner a')) (external_port al) = Some (now + cooldown a)"
    if al: "al \<in> set removed" for al
  proof -
    obtain e where e: "e \<in> set ?m" "?P e" "al = snd e" using al rem by auto
    then have "fst (fst e) = external_port al"
      using assms(1) unfolding inner_inv_def slots_ok_def by auto
    moreover have "fst e \<in> set ?keys" using e by simp
    ultimately show ?thesis using cool by metis
  qed
  ultimately show ?thesis by blast
qed

theorem eviction_takes_exactly_the_address_witness:
  "\<exists>a' removed. take_active_for_ip_at demo_pair 167772162 (from_secs 30) = (a', removed)
     \<and> active (inner a') = [] \<and> length removed = 2"
proof -
  obtain a' removed where t: "take_active_for_ip_at demo_pair 167772162 (from_secs 30) = (a', removed)"
    by fastforce
  then show ?thesis
    using eviction_takes_exactly_the_address [OF demo_inv(3) t] by (simp add: demo_pair_active)
qed

section \<open>Restore after a restart\<close>

lemma restore_one_spec:
  assumes "inner_inv g" and "restore_one now e (g, kept) = (g', kept')"
  shows "(\<forall>k al. hm_get (active g) k = Some al \<longrightarrow> hm_get (active g') k = Some al)
    \<and> (\<forall>k al. hm_get (active g') k = Some al \<longrightarrow> hm_get (active g) k = Some al \<or> al = e \<and> now < expires_at e)
    \<and> (kept' = kept \<and> active g' = active g
       \<or> kept' = kept @ [e] \<and> now < expires_at e
         \<and> hm_get (active g') (external_port e, alloc_proto e) = Some e)"
  using assms(2) by (auto simp: restore_one_def insert_active_def table hm_contains_def split: if_splits)

lemma fold_restore_spec:
  assumes "inner_inv g" and "fold (restore_one now) es (g, kept) = (g', kept')"
  shows "(\<forall>k al. hm_get (active g) k = Some al \<longrightarrow> hm_get (active g') k = Some al)
    \<and> (\<forall>k al. hm_get (active g') k = Some al \<longrightarrow>
         hm_get (active g) k = Some al \<or> al \<in> set es \<and> now < expires_at al)
    \<and> (\<exists>new. kept' = kept @ new \<and> set new \<subseteq> set es
         \<and> (\<forall>e \<in> set new. now < expires_at e \<and> hm_get (active g') (external_port e, alloc_proto e) = Some e))"
  using assms
proof (induction es arbitrary: g kept)
  case (Cons e es)
  obtain g1 kept1 where r: "restore_one now e (g, kept) = (g1, kept1)" by fastforce
  have i: "inner_inv g1"
    using restore_one_inv [of "(g, kept)" now e] Cons.prems(1) r by simp
  have f: "fold (restore_one now) es (g1, kept1) = (g', kept')" using Cons.prems(2) r by simp
  note one = restore_one_spec [OF Cons.prems(1) r] and rest = Cons.IH [OF i f]
  have first: "\<forall>k al. hm_get (active g) k = Some al \<longrightarrow> hm_get (active g') k = Some al"
    and second: "\<forall>k al. hm_get (active g') k = Some al \<longrightarrow>
         hm_get (active g) k = Some al \<or> al \<in> set (e # es) \<and> now < expires_at al"
    using one rest by fastforce+
  obtain new where new: "kept' = kept1 @ new" "set new \<subseteq> set es"
    "\<forall>e \<in> set new. now < expires_at e \<and> hm_get (active g') (external_port e, alloc_proto e) = Some e"
    using rest by blast
  have "\<exists>new. kept' = kept @ new \<and> set new \<subseteq> set (e # es)
     \<and> (\<forall>e \<in> set new. now < expires_at e \<and> hm_get (active g') (external_port e, alloc_proto e) = Some e)"
  proof (cases "kept1 = kept")
    case True
    then show ?thesis using new by auto
  next
    case False
    then have "kept1 = kept @ [e]" "now < expires_at e"
      "hm_get (active g') (external_port e, alloc_proto e) = Some e"
      using one rest by blast+
    then show ?thesis using new by (intro exI [of _ "e # new"]) auto
  qed
  then show ?case using first second by blast
qed simp

text \<open>
  Restore after a restart is first-wins: it never displaces a mapping already in the table, it
  adds only unexpired entries of the snapshot, and the entries it reports as kept are exactly in
  force, each under its own port and protocol.
\<close>

theorem restore_is_first_wins:
  assumes "inner_inv (inner a)" and "restore_at a entries now = (a', kept)"
  shows "(\<forall>k al. hm_get (active (inner a)) k = Some al \<longrightarrow> hm_get (active (inner a')) k = Some al)
    \<and> (\<forall>k al. hm_get (active (inner a')) k = Some al \<longrightarrow>
         hm_get (active (inner a)) k = Some al \<or> al \<in> set entries \<and> now < expires_at al)
    \<and> (\<forall>e \<in> set kept. e \<in> set entries \<and> now < expires_at e
         \<and> hm_get (active (inner a')) (external_port e, alloc_proto e) = Some e)"
proof -
  have "fold (restore_one now) entries (inner a, []) = (inner a', kept)"
    using assms(2) by (auto simp: restore_at_def split: prod.splits)
  from fold_restore_spec [OF assms(1) this] show ?thesis by auto
qed

theorem restore_is_first_wins_witness:
  "\<exists>a' kept. restore_at demo (snapshot_active demo_pair) (from_secs 30) = (a', kept)
     \<and> kept = snapshot_active demo_pair
     \<and> (\<forall>e \<in> set kept. hm_get (active (inner a')) (external_port e, alloc_proto e) = Some e)"
proof -
  have "\<exists>a'. restore_at demo (snapshot_active demo_pair) (from_secs 30) = (a', snapshot_active demo_pair)"
    by (simp add: snapshot_active_def hm_values_def demo_pair_active restore_at_def restore_one_def
        hm_contains_def port_owner_def hm_get_def insert_active_def demo_def demo_config_def
        from_config_def allocator_config.defs empty_inner_def from_secs_def)
  then show ?thesis
    using restore_is_first_wins [OF demo_inv(1)] by metis
qed

text \<open>
  The last-user record a restore writes carries the instant of the restore as its deadline, so it is
  over as soon as it is written and never gives the restored owner a head start on its port.
\<close>

lemma restore_records_an_expired_owner:
  assumes "restore_one now e (g, kept) = (g', kept @ [e])"
  shows "hm_get (last_user_per_port g') (external_port e) = Some (internal_ip e, now)"
  using assms by (auto simp: restore_one_def insert_active_def table split: if_splits)

section \<open>Renewals\<close>

lemma arm_other:
  "fst x \<noteq> p \<Longrightarrow> hm_get (cooldown_until (arm_expired now cd x g)) p = hm_get (cooldown_until g) p
     \<and> hm_get (last_user_per_port (arm_expired now cd x g)) p = hm_get (last_user_per_port g) p"
  by (cases x) (auto simp: arm_expired_def table Let_def)

lemma fold_arm_other:
  "\<forall>x \<in> set xs. fst x \<noteq> p \<Longrightarrow>
     hm_get (cooldown_until (fold (arm_expired now cd) xs g)) p = hm_get (cooldown_until g) p
     \<and> hm_get (last_user_per_port (fold (arm_expired now cd) xs g)) p = hm_get (last_user_per_port g) p"
  by (induction xs arbitrary: g) (simp_all add: arm_other)

lemma swept_other:
  assumes "\<forall>e \<in> set (active (inner a)). fst (fst e) = p \<longrightarrow> now < expires_at (snd e)"
  shows "hm_get (cooldown_until (swept a now)) p = hm_get (cooldown_until (inner a)) p"
    "hm_get (last_user_per_port (swept a now)) p = hm_get (last_user_per_port (inner a)) p"
proof -
  have "hm_get (cooldown_until (swept a now)) p = hm_get (cooldown_until (inner a)) p
    \<and> hm_get (last_user_per_port (swept a now)) p = hm_get (last_user_per_port (inner a)) p"
  proof (cases "case next_expiry (inner a) of None \<Rightarrow> True | Some t \<Rightarrow> t > now")
    case False
    let ?xs = "map (\<lambda>e. (fst (fst e), internal_ip (snd e), expires_at (snd e)))
        (filter (\<lambda>e. \<not> now < expires_at (snd e)) (active (inner a)))"
    have "\<forall>x \<in> set ?xs. fst x \<noteq> p" using assms by auto
    from fold_arm_other [OF this, of now "cooldown a"] False show ?thesis
      by (simp add: swept_def sweep_expired_def Let_def)
  qed (simp add: swept_def sweep_expired_def)
  then show "hm_get (cooldown_until (swept a now)) p = hm_get (cooldown_until (inner a)) p"
    "hm_get (last_user_per_port (swept a now)) p = hm_get (last_user_per_port (inner a)) p" by simp_all
qed

text \<open>
  Port stability: a renewal that names no port keeps the external port it renews, and with it
  the start of the holding, provided the port is neither cooling down nor in quarantine and all its
  mappings are still alive.
\<close>

theorem renewal_keeps_port:
  assumes "inner_inv (inner a)" and "try_allocate a rng rq ans ev = (a', ev', Done (Inr al))"
    and "suggested rq = 0" and "previous_port (swept a (req_now rq)) rq = Some port"
    and "port_in_range port (port_range a)" and "port \<noteq> 0"
    and "\<forall>e \<in> set (active (inner a)). fst (fst e) = port \<longrightarrow> req_now rq < expires_at (snd e)"
    and "\<not> quarantined (inner a) (req_now rq) port"
    and "\<And>t. hm_get (cooldown_until (inner a)) port = Some t \<Longrightarrow> t \<le> req_now rq"
    and "\<And>u t. hm_get (last_user_per_port (inner a)) port = Some (u, t) \<Longrightarrow> t \<le> req_now rq"
  shows "external_port al = port
    \<and> hm_get (held_since (inner a')) port = hm_get (held_since (inner a)) port"
proof -
  let ?g = "swept a (req_now rq)"
  define h where "h = served_inner ?g rq 0 False"
  have i: "inner_inv ?g" using swept_spec(5) [OF assms(1)] .
  have s: "effective_suggestion ?g rq = 0" using assms(3) by (simp add: effective_suggestion_def)
  from assms(2,1) refl s [symmetric] obtain reclaim where f: "vetted (a\<lparr>inner := ?g\<rparr>) rq ans 0 reclaim"
    "(0 :: u16) = 0 \<longrightarrow> pick_port (served_inner ?g rq 0 reclaim) rng (port_range a) (req_slot_proto rq)
      (case previous_port ?g rq of None \<Rightarrow> 0 | Some p \<Rightarrow> p) (client_ip rq) (req_now rq) = Some (external_port al)"
    "held_since (inner a') = hm_insert (external_port al)
       (case hm_get (held_since ?g) (external_port al) of None \<Rightarrow> req_now rq
        | Some t \<Rightarrow> if previous_port ?g rq = Some (external_port al) \<or> reclaim
             \<or> port_owner (served_inner ?g rq 0 reclaim) (external_port al) = Some (client_ip rq)
            then t else req_now rq) (held_since ?g)"
    by (elim granted_pass) blast
  have "\<not> reclaim" using f(1) by (simp add: vetted_def)
  then have pick: "pick_port h rng (port_range a) (req_slot_proto rq) port (client_ip rq) (req_now rq)
      = Some (external_port al)"
    using f(2) assms(4) by (simp add: h_def)
  have port: "external_port al = port"
  proof (cases "port_owner h port")
    case (Some ow)
    then have "port_owner h port = Some (client_ip rq)"
      using served_owner [OF i, of port rq 0 False UNIV] previous_port_owner [OF i assms(4)] port_owner_SomeD [OF Some]
      by (auto simp: h_def held_ports_iff)
    then show ?thesis
      using refresh_keeps_paired_port [OF i assms(4,6,5), of 0] pick by (simp add: h_def)
  next
    case None
    have "port_eligible h port (client_ip rq) (req_now rq) None"
      using None assms(8-10) swept_other [OF assms(7)] assms(1)
      by (auto simp: port_eligible_def no_leg_iff [symmetric] quarantined_def h_def swept_spec split: option.splits)
    moreover have "\<not> hm_contains (active h) (port, req_slot_proto rq)"
      using None by (cases "req_slot_proto rq") (simp_all add: no_leg_iff [symmetric])
    ultimately show ?thesis
      using pick assms(5,6) by (simp add: pick_port_def)
  qed
  obtain e where "e \<in> set (active ?g)" "fst (fst e) = port"
    using previous_port_owner [OF i assms(4)] port_owner_SomeD by blast
  then have "hm_get (held_since ?g) port \<noteq> None"
    using i by (auto simp: inner_inv_def holding_recorded_def hm_contains_def)
  then show ?thesis
    using f(3) port assms(1,4) by (auto simp: table swept_spec)
qed

theorem renewal_keeps_port_witness:
  "\<exists>a' ev' al. try_allocate demo_one (\<lambda>_. 2) (mk_request 167772162 Tcp 80 0 600 (from_secs 300))
     demo_answers [] = (a', ev', Done (Inr al)) \<and> external_port al = 5000"
proof -
  let ?rq = "mk_request 167772162 Tcp 80 0 600 (from_secs 300)"
  obtain a' ev' al where t: "try_allocate demo_one (\<lambda>_. 2) ?rq demo_answers [] = (a', ev', Done (Inr al))"
    by (simp add: demo_defs run_pass)
  have "suggested ?rq = 0" "previous_port (swept demo_one (req_now ?rq)) ?rq = Some 5000"
    "port_in_range 5000 (port_range demo_one)" "\<not> quarantined (inner demo_one) (req_now ?rq) 5000"
    "\<And>t. hm_get (cooldown_until (inner demo_one)) 5000 = Some t \<Longrightarrow> t \<le> req_now ?rq"
    "\<And>u t. hm_get (last_user_per_port (inner demo_one)) 5000 = Some (u, t) \<Longrightarrow> t \<le> req_now ?rq"
    by (simp_all add: previous_port_def swept_def demo_defs run_pass)
  moreover have "\<forall>e \<in> set (active (inner demo_one)). fst (fst e) = 5000 \<longrightarrow> req_now ?rq < expires_at (snd e)"
    by (simp add: demo_one_active mk_request_def from_secs_def)
  ultimately show ?thesis
    using renewal_keeps_port [OF demo_inv(2) t] t by simp
qed

text \<open>
  Releasing one leg of a pair arms the cooldown of the port while the other leg still holds it. A
  renewal of that other leg then drops its mapping and moves to another port.
\<close>

lemma renewal_hops_after_companion_release:
  "\<exists>b r a' ev' al. release_by_client_at demo_pair 167772162 80 Udp (from_secs 30) = (b, r)
     \<and> try_allocate b (\<lambda>_. 2) (mk_request 167772162 Tcp 80 0 600 (from_secs 40)) demo_answers []
         = (a', ev', Done (Inr al)) \<and> external_port al = 5002"
  by (simp add: release_by_client_at_def report_released_def demo_defs run_pass)

text \<open>
  C11: A request refused for the quota has already given up the mapping it was meant to renew: no
  mapping of the same client, internal port and protocol is left in the table. (A renewal that moves
  one leg of a pair to another port at full quota therefore loses the leg, as in the witness.)
\<close>

theorem quota_refusal_drops_renewed_mapping:
  assumes "inner_inv (inner a)"
    and "try_allocate a rng rq ans ev = (a', ev', Done (Inl (QuotaExceeded c)))"
  shows "\<forall>e \<in> set (active (inner a')). \<not> (snd (fst e) = req_slot_proto rq
    \<and> internal_ip (snd e) = client_ip rq \<and> internal_port (snd e) = req_iport rq)"
  using assms(2,1) refl refl
proof (cases rule: try_allocate_cases)
  case stopped
  then show ?thesis by (auto simp: refusal_def)
next
  case (served a3 ten bud reclaim)
  have "inner_inv (inner a3)"
    using served(1) assms(1) by (auto intro: log_only_inv simp: swept_spec)
  with served(2) show ?thesis
  proof (cases rule: serve_cases)
    case quota
    then show ?thesis by (auto simp: set_served_inner tuple_match_def)
  qed (auto dest: commit_grant_fields(1) [OF sym])
qed

theorem quota_refusal_drops_renewed_mapping_witness:
  "\<exists>a' ev'. try_allocate demo_pair (\<lambda>_. 0) (mk_request 167772162 Tcp 80 5001 600 (from_secs 30))
     (demo_answers\<lparr>budget := Some 1\<rparr>) [] = (a', ev', Done (Inl (QuotaExceeded 167772162)))
   \<and> hm_get (active (inner demo_pair)) (5000, Tcp) \<noteq> None
   \<and> (\<forall>e \<in> set (active (inner a')). \<not> (snd (fst e) = Tcp \<and> internal_ip (snd e) = 167772162
        \<and> internal_port (snd e) = 80))"
proof -
  let ?rq = "mk_request 167772162 Tcp 80 5001 600 (from_secs 30)"
  obtain a' ev' where t: "try_allocate demo_pair (\<lambda>_. 0) ?rq (demo_answers\<lparr>budget := Some 1\<rparr>) []
      = (a', ev', Done (Inl (QuotaExceeded 167772162)))"
    by (simp add: demo_defs run_pass)
  have "hm_get (active (inner demo_pair)) (5000, Tcp) \<noteq> None"
    by (simp add: demo_pair_active hm_get_def)
  then show ?thesis
    using quota_refusal_drops_renewed_mapping [OF demo_inv(3) t] t by (simp add: mk_request_def)
qed

end
