(* ===== verification/Natpmp_Nft.thy ===== *)
theory Natpmp_Nft
  imports Natpmp_Allocator_Ops
begin

text \<open>
  The nft scripts of \<^verbatim>\<open>crates/warrenguard-natpmp-server/src/nftables.rs\<close>: the renderers, as string
  functions, and a reading of the element commands they produce. \<open>nft_exec\<close> is a small model of
  \<^verbatim>\<open>nft -f -\<close> over those commands; it instantiates the contract the backend theory assumes of the
  executor.
\<close>

section \<open>Decimal and dotted-quad printing\<close>

definition digit :: "nat \<Rightarrow> char" where
  "digit n = char_of (48 + n)"

fun dec :: "nat \<Rightarrow> string" where
  "dec n = (if n < 10 then [digit n] else dec (n div 10) @ [digit (n mod 10)])"

declare dec.simps [simp del]

definition show_ipv4 :: "ipv4 \<Rightarrow> string" where
  "show_ipv4 ip =
     dec (unat ip div 2 ^ 24) @ ''.'' @ dec (unat ip div 2 ^ 16 mod 256) @ ''.''
       @ dec (unat ip div 2 ^ 8 mod 256) @ ''.'' @ dec (unat ip mod 256)"

section \<open>The renderers\<close>

definition DEFAULT_TABLE :: string where "DEFAULT_TABLE = ''warren''"
definition DEFAULT_CHAIN :: string where "DEFAULT_CHAIN = ''prerouting_natpmp''"
definition MAP_TCP :: string where "MAP_TCP = ''natpmp_tcp_dnat''"
definition MAP_UDP :: string where "MAP_UDP = ''natpmp_udp_dnat''"
definition newline :: string where "newline = [CHR 0x0A]"
definition quote :: string where "quote = [CHR 0x22]"

fun map_name :: "proto \<Rightarrow> string" where
  "map_name Tcp = MAP_TCP"
| "map_name Udp = MAP_UDP"

definition render_setup_script :: "string \<Rightarrow> string \<Rightarrow> ipv4 option \<Rightarrow> string" where
  "render_setup_script table chain pfwd_daddr =
     (let daddr_match = (case pfwd_daddr of None \<Rightarrow> [] | Some ip \<Rightarrow> ''ip daddr '' @ show_ipv4 ip @ '' '')
      in ''add table inet '' @ table @ newline
       @ ''delete table inet '' @ table @ newline
       @ ''add table inet '' @ table @ newline
       @ ''add map inet '' @ table @ '' '' @ MAP_TCP @ '' { type inet_service : ipv4_addr . inet_service ; }'' @ newline
       @ ''add map inet '' @ table @ '' '' @ MAP_UDP @ '' { type inet_service : ipv4_addr . inet_service ; }'' @ newline
       @ ''add chain inet '' @ table @ '' '' @ chain @ '' { type nat hook prerouting priority dstnat ; }'' @ newline
       @ ''add rule inet '' @ table @ '' '' @ chain @ '' '' @ daddr_match
           @ ''meta l4proto tcp dnat ip to tcp dport map @'' @ MAP_TCP @ newline
       @ ''add rule inet '' @ table @ '' '' @ chain @ '' '' @ daddr_match
           @ ''meta l4proto udp dnat ip to udp dport map @'' @ MAP_UDP @ newline)"

definition render_portfail_guard_setup :: "string \<Rightarrow> string \<Rightarrow> string \<Rightarrow> string \<Rightarrow> string" where
  "render_portfail_guard_setup table guard_chain set_name pool_cidr =
     ''add set inet '' @ table @ '' '' @ set_name @ '' { type ipv4_addr ; }'' @ newline
     @ ''add chain inet '' @ table @ '' '' @ guard_chain
         @ '' { type filter hook forward priority -10 ; policy accept ; }'' @ newline
     @ ''add rule inet '' @ table @ '' '' @ guard_chain @ '' ct state established,related accept'' @ newline
     @ ''add rule inet '' @ table @ '' '' @ guard_chain @ '' ip saddr @'' @ set_name
         @ '' ip daddr '' @ pool_cidr @ '' drop'' @ newline"

definition render_hairpin_snat_setup :: "string \<Rightarrow> string \<Rightarrow> string \<Rightarrow> string \<Rightarrow> string" where
  "render_hairpin_snat_setup table chain pool_cidr tun_name =
     ''add chain inet '' @ table @ '' '' @ chain
         @ '' { type nat hook postrouting priority srcnat ; policy accept ; }'' @ newline
     @ ''add rule inet '' @ table @ '' '' @ chain @ '' ip saddr '' @ pool_cidr @ '' oifname '' @ quote @ tun_name
         @ quote @ '' masquerade'' @ newline"

definition render_sync_client_ips :: "string \<Rightarrow> string \<Rightarrow> ipv4 list \<Rightarrow> string" where
  "render_sync_client_ips table set_name ips =
     ''flush set inet '' @ table @ '' '' @ set_name @ newline
     @ concat (map (\<lambda>ip. ''add element inet '' @ table @ '' '' @ set_name @ '' { '' @ show_ipv4 ip @ '' }'' @ newline) ips)"

definition render_add_element :: "string \<Rightarrow> proto \<Rightarrow> u16 \<Rightarrow> ipv4 \<Rightarrow> u16 \<Rightarrow> string" where
  "render_add_element table p ext ip iport =
     ''add element inet '' @ table @ '' '' @ map_name p @ '' { '' @ dec (unat ext) @ '' : ''
       @ show_ipv4 ip @ '' . '' @ dec (unat iport) @ '' }''"

definition render_delete_element :: "string \<Rightarrow> proto \<Rightarrow> u16 \<Rightarrow> string" where
  "render_delete_element table p ext =
     ''delete element inet '' @ table @ '' '' @ map_name p @ '' { '' @ dec (unat ext) @ '' }''"

section \<open>Reading the element commands\<close>

datatype element_command =
    Add_Element string string u16 ipv4 u16
  | Delete_Element string string u16

fun parse_digits :: "nat \<Rightarrow> string \<Rightarrow> nat option" where
  "parse_digits acc [] = Some acc"
| "parse_digits acc (c # cs) =
     (if 48 \<le> (of_char c :: nat) \<and> of_char c < (58 :: nat) then parse_digits (10 * acc + (of_char c - 48)) cs
      else None)"

definition parse_dec :: "string \<Rightarrow> nat option" where
  "parse_dec s = (if s = [] then None else parse_digits 0 s)"

text \<open>\<open>split_on c s\<close> cuts \<open>s\<close> at every \<open>c\<close>.\<close>

fun split_on :: "char \<Rightarrow> string \<Rightarrow> string list" where
  "split_on c [] = [[]]"
| "split_on c (x # xs) =
     (if x = c then [] # split_on c xs
      else case split_on c xs of w # ws \<Rightarrow> (x # w) # ws | [] \<Rightarrow> [[x]])"

definition parse_u16 :: "string \<Rightarrow> u16 option" where
  "parse_u16 s = (case parse_dec s of None \<Rightarrow> None
     | Some n \<Rightarrow> if n < 2 ^ 16 then Some (of_nat n) else None)"

definition parse_ipv4 :: "string \<Rightarrow> ipv4 option" where
  "parse_ipv4 s =
     (case map parse_dec (split_on (CHR ''.'') s) of
        [Some a, Some b, Some c, Some d] \<Rightarrow>
          if a < 256 \<and> b < 256 \<and> c < 256 \<and> d < 256
          then Some (of_nat (a * 2 ^ 24 + b * 2 ^ 16 + c * 2 ^ 8 + d)) else None
      | _ \<Rightarrow> None)"

definition parse_element_command :: "string \<Rightarrow> element_command option" where
  "parse_element_command s =
     (case split_on (CHR '' '') s of
        [add, element, inet, table, m, lb, ext, colon, ip, dot, iport, rb] \<Rightarrow>
          if add = ''add'' \<and> element = ''element'' \<and> inet = ''inet'' \<and> lb = ''{'' \<and> colon = '':''
             \<and> dot = ''.'' \<and> rb = ''}'' then
            (case (parse_u16 ext, parse_ipv4 ip, parse_u16 iport) of
               (Some e, Some i, Some q) \<Rightarrow> Some (Add_Element table m e i q)
             | _ \<Rightarrow> None)
          else None
      | [del, element, inet, table, m, lb, ext, rb] \<Rightarrow>
          if del = ''delete'' \<and> element = ''element'' \<and> inet = ''inet'' \<and> lb = ''{'' \<and> rb = ''}'' then
            map_option (Delete_Element table m) (parse_u16 ext)
          else None
      | _ \<Rightarrow> None)"

section \<open>Printing is read back\<close>

lemma of_char_digit: "n < 10 \<Longrightarrow> of_char (digit n) = 48 + n"
  by (simp add: digit_def)

lemma parse_digits_append:
  "parse_digits acc (s @ t) = (case parse_digits acc s of None \<Rightarrow> None | Some n \<Rightarrow> parse_digits n t)"
  by (induction s arbitrary: acc) auto

lemma parse_dec_dec: "parse_dec (dec n) = Some n"
proof -
  have "dec n \<noteq> [] \<and> parse_digits 0 (dec n) = Some n"
  proof (induction n rule: dec.induct)
    case (1 n)
    then show ?case
      by (cases "n < 10") (simp_all add: dec.simps [of n] parse_digits_append of_char_digit)
  qed
  then show ?thesis by (simp add: parse_dec_def)
qed

lemma parse_u16_dec [simp]: "parse_u16 (dec (unat p)) = Some p" for p :: u16
  using unsigned_less [of p] by (simp add: parse_u16_def parse_dec_dec)

lemma set_dec: "c \<in> set (dec n) \<Longrightarrow> 48 \<le> (of_char c :: nat) \<and> of_char c < (58 :: nat)"
proof (induction n rule: dec.induct)
  case (1 n)
  then show ?case
    by (cases "n < 10") (auto simp: dec.simps [of n] of_char_digit)
qed

lemma no_separator_dec [simp]: "CHR '' '' \<notin> set (dec n)" "CHR ''.'' \<notin> set (dec n)"
  using set_dec [of "CHR '' ''" n] set_dec [of "CHR ''.''" n] by auto

lemma split_on_word: "c \<notin> set w \<Longrightarrow> split_on c w = [w]"
  by (induction w) auto

lemma split_on_append: "c \<notin> set w \<Longrightarrow> split_on c (w @ c # s) = w # split_on c s"
  by (induction w) auto

lemma quads:
  fixes n :: nat
  shows "n div 2 ^ 24 * 2 ^ 24 + n div 2 ^ 16 mod 256 * 2 ^ 16 + n div 2 ^ 8 mod 256 * 2 ^ 8 + n mod 256 = n"
proof -
  define a b c where "a = n div 256" and "b = a div 256" and "c = b div 256"
  have "n = a * 256 + n mod 256" "a = b * 256 + a mod 256" "b = c * 256 + b mod 256"
    unfolding a_def b_def c_def by (rule div_mult_mod_eq [symmetric])+
  then have "c * 16777216 + b mod 256 * 65536 + a mod 256 * 256 + n mod 256 = n"
    by linarith
  moreover have "n div 2 ^ 8 = a" "n div 2 ^ 16 = b" "n div 2 ^ 24 = c"
    by (simp_all add: a_def b_def c_def div_mult2_eq [symmetric])
  ultimately show ?thesis by simp
qed

lemma unat_quads:
  fixes ip :: ipv4
  shows "unat ip div 2 ^ 24 < 256"
    "unat ip div 2 ^ 24 * 2 ^ 24 + unat ip div 2 ^ 16 mod 256 * 2 ^ 16
       + unat ip div 2 ^ 8 mod 256 * 2 ^ 8 + unat ip mod 256 = unat ip"
proof -
  have "unat ip < 2 ^ 32" using unsigned_less [of ip] by simp
  then show "unat ip div 2 ^ 24 < 256" by simp
  show "unat ip div 2 ^ 24 * 2 ^ 24 + unat ip div 2 ^ 16 mod 256 * 2 ^ 16
       + unat ip div 2 ^ 8 mod 256 * 2 ^ 8 + unat ip mod 256 = unat ip"
    using quads [of "unat ip"] .
qed

lemma parse_show_ipv4 [simp]: "parse_ipv4 (show_ipv4 ip) = Some ip"
proof -
  have "split_on (CHR ''.'') (show_ipv4 ip) =
    [dec (unat ip div 2 ^ 24), dec (unat ip div 2 ^ 16 mod 256), dec (unat ip div 2 ^ 8 mod 256),
     dec (unat ip mod 256)]"
    by (simp add: show_ipv4_def split_on_append split_on_word)
  then show ?thesis
    using unat_quads [of ip] by (simp add: parse_ipv4_def parse_dec_dec)
qed

lemma no_space_ipv4 [simp]: "CHR '' '' \<notin> set (show_ipv4 ip)"
  by (simp add: show_ipv4_def)

lemma no_space_map_name [simp]: "CHR '' '' \<notin> set (map_name p)"
  by (cases p) (simp_all add: MAP_TCP_def MAP_UDP_def)

lemma map_name_inj [simp]: "map_name p = map_name q \<longleftrightarrow> p = q"
  by (cases p; cases q) (simp_all add: MAP_TCP_def MAP_UDP_def)

lemma split_add_element:
  assumes "CHR '' '' \<notin> set table"
  shows "split_on (CHR '' '') (render_add_element table p ext ip iport) =
    [''add'', ''element'', ''inet'', table, map_name p, ''{'', dec (unat ext), '':'', show_ipv4 ip, ''.'',
     dec (unat iport), ''}'']"
  using assms by (simp add: render_add_element_def split_on_append split_on_word)

lemma split_delete_element:
  assumes "CHR '' '' \<notin> set table"
  shows "split_on (CHR '' '') (render_delete_element table p ext) =
    [''delete'', ''element'', ''inet'', table, map_name p, ''{'', dec (unat ext), ''}'']"
  using assms by (simp add: render_delete_element_def split_on_append split_on_word)

lemma parse_add_element:
  "CHR '' '' \<notin> set table \<Longrightarrow>
    parse_element_command (render_add_element table p ext ip iport) = Some (Add_Element table (map_name p) ext ip iport)"
  by (simp add: parse_element_command_def split_add_element)

lemma parse_delete_element:
  "CHR '' '' \<notin> set table \<Longrightarrow>
    parse_element_command (render_delete_element table p ext) = Some (Delete_Element table (map_name p) ext)"
  by (simp add: parse_element_command_def split_delete_element)

text \<open>
  The nft commands say what is meant: for any table name without spaces, the rendered add and
  delete commands are read back as exactly the table, map, external port, address and target port
  they were rendered from, so no two different mappings ever share a command.
\<close>

theorem element_commands_read_back:
  assumes "CHR '' '' \<notin> set table"
  shows "parse_element_command (render_add_element table p ext ip iport)
      = Some (Add_Element table (map_name p) ext ip iport)
    \<and> parse_element_command (render_delete_element table p ext) = Some (Delete_Element table (map_name p) ext)
    \<and> (render_add_element table p ext ip iport = render_add_element table p' ext' ip' iport' \<longrightarrow>
         p = p' \<and> ext = ext' \<and> ip = ip' \<and> iport = iport')"
proof (intro conjI impI)
  assume "render_add_element table p ext ip iport = render_add_element table p' ext' ip' iport'"
  then have "Some (Add_Element table (map_name p) ext ip iport) = Some (Add_Element table (map_name p') ext' ip' iport')"
    using parse_add_element [OF assms] by metis
  then show "p = p'" "ext = ext'" "ip = ip'" "iport = iport'" by simp_all
qed (simp_all add: parse_add_element parse_delete_element assms)

theorem element_commands_read_back_witness:
  "parse_element_command (render_add_element DEFAULT_TABLE Tcp 5000 167772162 80)
     = Some (Add_Element DEFAULT_TABLE MAP_TCP 5000 167772162 80)"
  using element_commands_read_back [of DEFAULT_TABLE Tcp 5000 167772162 80] by (simp add: DEFAULT_TABLE_def)

section \<open>A reference executor\<close>

text \<open>
  The maps of the kernel and what \<^verbatim>\<open>nft\<close> does with the scripts: the setup script resets the maps, an
  add fails when the key exists with other data, a delete fails when there is no such element, and
  the other scripts do not concern the maps.
\<close>

type_synonym nft_maps = "(string \<times> string \<times> u16, ipv4 \<times> u16) hmap"

definition nft_exec :: "nft_maps \<Rightarrow> string \<Rightarrow> nft_maps \<times> (string + unit)" where
  "nft_exec k script =
     (if take 10 script = ''add table '' then ([], Inr ())
      else case parse_element_command script of
        Some (Add_Element table m ext ip iport) \<Rightarrow>
          (case hm_get k (table, m, ext) of
             None \<Rightarrow> (hm_insert (table, m, ext) (ip, iport) k, Inr ())
           | Some v \<Rightarrow> if v = (ip, iport) then (k, Inr ()) else (k, Inl ''File exists''))
      | Some (Delete_Element table m ext) \<Rightarrow>
          (if hm_contains k (table, m, ext) then (hm_remove (table, m, ext) k, Inr ())
           else (k, Inl ''No such file or directory''))
      | None \<Rightarrow> (k, Inr ()))"

definition nft_dnat :: "string \<Rightarrow> nft_maps \<Rightarrow> proto \<Rightarrow> u16 \<Rightarrow> (ipv4 \<times> u16) option" where
  "nft_dnat table k p ext = hm_get k (table, map_name p, ext)"

end
