(* ===== verification/Natpmp_Backend.thy ===== *)
theory Natpmp_Backend
  imports Natpmp_Nft
begin

text \<open>
  The port-forwarding backends of \<^verbatim>\<open>crates/warrenguard-natpmp-server\<close>: \<open>StubBackend\<close>
  (\<^verbatim>\<open>stub_backend.rs\<close>), which only keeps the allocator, and \<open>NftablesBackend\<close> (\<^verbatim>\<open>nftables.rs\<close>), which
  mirrors every mapping into the kernel through an nft executor. The locale \<open>forwarding_backend\<close> is the
  contract of the trait \<open>PortForwardingBackend\<close> that the server relies on; both backends interpret it.

  The executor is a parameter \<open>run\<close> over an opaque kernel state. An \<open>op_env\<close> carries what one operation takes from its surroundings: the clock, the
  random draws and the effect of other threads on the tables while the allocator lock is released.
\<close>

section \<open>The surroundings of one operation\<close>

record op_env =
  env_now :: instant
  env_rng :: "nat \<Rightarrow> nat"
  env_interfere :: "nat \<Rightarrow> inner \<Rightarrow> inner"

text \<open>
  The server runs one backend operation at a time; what other threads do meanwhile (status queries)
  keeps the tables consistent and the mappings as they are.
\<close>

definition quiet :: "op_env \<Rightarrow> bool" where
  "quiet e \<longleftrightarrow> (\<forall>i g. inner_inv g \<longrightarrow>
     inner_inv (env_interfere e i g) \<and> active (env_interfere e i g) = active g)"

section \<open>The stub backend\<close>

definition as_lifetime_secs :: "duration \<Rightarrow> u32" where
  "as_lifetime_secs d = saturate_u32 (as_secs d)"

definition stub_allocate ::
  "allocator \<Rightarrow> op_env \<Rightarrow> ipv4 \<Rightarrow> proto \<Rightarrow> u16 \<Rightarrow> u16 \<Rightarrow> duration \<Rightarrow> allocator \<times> (natpmp_error + allocation)" where
  "stub_allocate a e c p iport sug life =
     allocate_at a (env_rng e) (env_interfere e) c p iport sug (as_lifetime_secs life) (env_now e)"

definition stub_release :: "allocator \<Rightarrow> op_env \<Rightarrow> allocation \<Rightarrow> allocator \<times> (natpmp_error + unit)" where
  "stub_release a e al = (release_at a al (env_now e), Inr ())"

definition stub_release_by_client ::
  "allocator \<Rightarrow> op_env \<Rightarrow> ipv4 \<Rightarrow> u16 \<Rightarrow> proto \<Rightarrow> allocator \<times> (natpmp_error + bool)" where
  "stub_release_by_client a e c iport p =
     (case release_by_client_at a c iport p (env_now e) of (a', r) \<Rightarrow> (a', Inr (r \<noteq> None)))"

definition stub_rate_limit_status :: "allocator \<Rightarrow> op_env \<Rightarrow> ipv4 \<Rightarrow> allocator \<times> rate_limit_info" where
  "stub_rate_limit_status a e c = rate_limit_status_at a c (env_now e)"

definition stub_restore :: "allocator \<Rightarrow> op_env \<Rightarrow> allocation list \<Rightarrow> allocator \<times> allocation list" where
  "stub_restore a e entries = restore_at a entries (env_now e)"

section \<open>The nftables backend\<close>

record portfail_guard =
  guard_chain :: string
  guard_set :: string
  guard_pool_cidr :: string

record hairpin_snat =
  hairpin_chain :: string
  hairpin_pool_cidr :: string
  hairpin_tun_name :: string

record 'k nftables_backend =
  nb_allocator :: allocator
  nb_kernel :: 'k
  nb_table :: string
  nb_chain :: string
  nb_guard :: "portfail_guard option"

type_synonym 'k runner = "'k \<Rightarrow> string \<Rightarrow> 'k \<times> (string + unit)"

definition setup_script :: "string \<Rightarrow> string \<Rightarrow> ipv4 option \<Rightarrow> portfail_guard option \<Rightarrow> hairpin_snat option \<Rightarrow> string" where
  "setup_script table chain pfwd guard hairpin =
     render_setup_script table chain pfwd
     @ (case guard of None \<Rightarrow> []
        | Some g \<Rightarrow> render_portfail_guard_setup table (guard_chain g) (guard_set g) (guard_pool_cidr g))
     @ (case hairpin of None \<Rightarrow> []
        | Some h \<Rightarrow> render_hairpin_snat_setup table (hairpin_chain h) (hairpin_pool_cidr h) (hairpin_tun_name h))"

definition with_names ::
  "'k runner \<Rightarrow> 'k \<Rightarrow> string \<Rightarrow> string \<Rightarrow> ipv4 option \<Rightarrow> portfail_guard option \<Rightarrow> hairpin_snat option \<Rightarrow>
    'k \<times> (natpmp_error + 'k nftables_backend)" where
  "with_names run k table chain pfwd guard hairpin =
     (case run k (setup_script table chain pfwd guard hairpin) of
        (k', Inl stderr) \<Rightarrow> (k', Inl (Backend stderr))
      | (k', Inr _) \<Rightarrow>
          (k', Inr \<lparr>nb_allocator = the (from_config warren_default), nb_kernel = k', nb_table = table,
                nb_chain = chain, nb_guard = guard\<rparr>))"

definition sync_portfail_guard_ips ::
  "'k runner \<Rightarrow> 'k nftables_backend \<Rightarrow> ipv4 list \<Rightarrow> 'k nftables_backend \<times> (natpmp_error + unit)" where
  "sync_portfail_guard_ips run b ips =
     (case nb_guard b of
        None \<Rightarrow> (b, Inr ())
      | Some guard \<Rightarrow>
          (case run (nb_kernel b) (render_sync_client_ips (nb_table b) (guard_set guard) ips) of
             (k, Inl stderr) \<Rightarrow> (b\<lparr>nb_kernel := k\<rparr>, Inl (Backend stderr))
           | (k, Inr _) \<Rightarrow> (b\<lparr>nb_kernel := k\<rparr>, Inr ())))"

definition dnat_port :: "allocation \<Rightarrow> u16" where
  "dnat_port al = (if internal_port al = 0 then external_port al else internal_port al)"

text \<open>Tear-down of every evicted mapping; a failed delete is only logged.\<close>

definition delete_evicted :: "'k runner \<Rightarrow> string \<Rightarrow> allocation list \<Rightarrow> 'k \<Rightarrow> 'k" where
  "delete_evicted run table evicted k =
     fold (\<lambda>ev k. fst (run k (render_delete_element table (alloc_proto ev) (external_port ev)))) evicted k"

definition add_rule :: "'k runner \<Rightarrow> string \<Rightarrow> proto \<Rightarrow> allocation \<Rightarrow> 'k \<Rightarrow> 'k \<times> (string + unit)" where
  "add_rule run table p al k =
     run k (render_add_element table p (external_port al) (internal_ip al) (dnat_port al))"

definition nft_allocate ::
  "'k runner \<Rightarrow> 'k nftables_backend \<Rightarrow> op_env \<Rightarrow> ipv4 \<Rightarrow> proto \<Rightarrow> u16 \<Rightarrow> u16 \<Rightarrow> duration \<Rightarrow>
    'k nftables_backend \<times> (natpmp_error + allocation)" where
  "nft_allocate run b e c p iport sug life =
     (case allocate_at_collecting (nb_allocator b) (env_rng e) (env_interfere e) c p iport sug
             (as_lifetime_secs life) (env_now e) of
        (a, outcome, _) \<Rightarrow>
          let k = delete_evicted run (nb_table b) (outcome_evicted outcome) (nb_kernel b);
              b1 = b\<lparr>nb_allocator := a, nb_kernel := k\<rparr>
          in case outcome_result outcome of
               Inl err \<Rightarrow> (b1, Inl err)
             | Inr al \<Rightarrow>
                 (case add_rule run (nb_table b) p al k of
                    (k1, Inr _) \<Rightarrow> (b1\<lparr>nb_kernel := k1\<rparr>, Inr al)
                  | (k1, Inl stderr) \<Rightarrow>
                      (case run k1 (render_delete_element (nb_table b) p (external_port al)) of
                         (k2, Inr _) \<Rightarrow>
                           (b1\<lparr>nb_kernel := k2, nb_allocator := release_at a al (env_now e)\<rparr>, Inl (Backend stderr))
                       | (k2, Inl _) \<Rightarrow> (b1\<lparr>nb_kernel := k2\<rparr>, Inl (Backend stderr)))))"

definition nft_release ::
  "'k runner \<Rightarrow> 'k nftables_backend \<Rightarrow> op_env \<Rightarrow> allocation \<Rightarrow> 'k nftables_backend \<times> (natpmp_error + unit)" where
  "nft_release run b e al =
     (case run (nb_kernel b) (render_delete_element (nb_table b) (alloc_proto al) (external_port al)) of
        (k, Inl stderr) \<Rightarrow> (b\<lparr>nb_kernel := k\<rparr>, Inl (Backend stderr))
      | (k, Inr _) \<Rightarrow>
          (b\<lparr>nb_kernel := k, nb_allocator := release_at (nb_allocator b) al (env_now e)\<rparr>, Inr ()))"

definition nft_release_by_client ::
  "'k runner \<Rightarrow> 'k nftables_backend \<Rightarrow> op_env \<Rightarrow> ipv4 \<Rightarrow> u16 \<Rightarrow> proto \<Rightarrow>
    'k nftables_backend \<times> (natpmp_error + bool)" where
  "nft_release_by_client run b e c iport p =
     (case find (\<lambda>al. internal_ip al = c \<and> internal_port al = iport \<and> alloc_proto al = p)
             (snapshot_active (nb_allocator b)) of
        None \<Rightarrow> (b, Inr False)
      | Some al \<Rightarrow>
          (case run (nb_kernel b) (render_delete_element (nb_table b) p (external_port al)) of
             (k, Inl stderr) \<Rightarrow> (b\<lparr>nb_kernel := k\<rparr>, Inl (Backend stderr))
           | (k, Inr _) \<Rightarrow>
               (b\<lparr>nb_kernel := k, nb_allocator := release_at (nb_allocator b) al (env_now e)\<rparr>, Inr True)))"

definition nft_rate_limit_status ::
  "'k nftables_backend \<Rightarrow> op_env \<Rightarrow> ipv4 \<Rightarrow> 'k nftables_backend \<times> rate_limit_info" where
  "nft_rate_limit_status b e c =
     (case rate_limit_status_at (nb_allocator b) c (env_now e) of (a, info) \<Rightarrow> (b\<lparr>nb_allocator := a\<rparr>, info))"

definition restore_rule ::
  "'k runner \<Rightarrow> allocation \<Rightarrow> 'k nftables_backend \<times> allocation list \<Rightarrow> 'k nftables_backend \<times> allocation list" where
  "restore_rule run al st =
     (case st of (b, done_so_far) \<Rightarrow>
       (case add_rule run (nb_table b) (alloc_proto al) al (nb_kernel b) of
          (k, Inl _) \<Rightarrow>
            (b\<lparr>nb_kernel := k,
               nb_allocator := fst (take_active_for_slot (nb_allocator b) (external_port al) (alloc_proto al))\<rparr>, done_so_far)
        | (k, Inr _) \<Rightarrow> (b\<lparr>nb_kernel := k\<rparr>, done_so_far @ [al])))"

definition nft_restore ::
  "'k runner \<Rightarrow> 'k nftables_backend \<Rightarrow> op_env \<Rightarrow> allocation list \<Rightarrow> 'k nftables_backend \<times> allocation list" where
  "nft_restore run b e entries =
     (case restore_at (nb_allocator b) entries (env_now e) of
        (a, kept) \<Rightarrow> fold (restore_rule run) kept (b\<lparr>nb_allocator := a\<rparr>, []))"

section \<open>The whole request of the allocator\<close>

definition accounts_for ::
  "(slot, allocation) hmap \<Rightarrow> (slot, allocation) hmap \<Rightarrow> allocation list \<Rightarrow> (natpmp_error + allocation) option \<Rightarrow> bool" where
  "accounts_for m m' removed r \<longleftrightarrow> set removed \<subseteq> snd ` set m
     \<and> (\<forall>e \<in> set m. e \<in> set m' \<or> snd e \<in> set removed)
     \<and> (\<forall>e \<in> set m'. e \<in> set m \<or> r = Some (Inr (snd e)))"

lemma accounts_for_trans:
  assumes "accounts_for m1 m2 r1 None" and "accounts_for m2 m3 r2 r"
  shows "accounts_for m1 m3 (r1 @ r2) r"
proof -
  have sub: "set m2 \<subseteq> set m1" using assms(1) by (auto simp: accounts_for_def)
  then have "set (r1 @ r2) \<subseteq> snd ` set m1"
    using assms image_mono [OF sub, of snd] by (auto simp: accounts_for_def)
  moreover have "e \<in> set m3 \<or> snd e \<in> set (r1 @ r2)" if "e \<in> set m1" for e
    using that assms unfolding accounts_for_def by auto
  moreover have "e \<in> set m1 \<or> r = Some (Inr (snd e))" if "e \<in> set m3" for e
    using that assms(2) sub unfolding accounts_for_def by blast
  ultimately show ?thesis unfolding accounts_for_def by blast
qed

lemma pass_accounts_for:
  assumes "try_allocate a rng rq ans ev = (a', ev', st)" and "inner_inv (inner a)"
  shows "\<exists>removed. ev' = ev @ removed
    \<and> accounts_for (active (inner a)) (active (inner a')) removed (case st of Done r \<Rightarrow> Some r | Asks _ \<Rightarrow> None)"
  using assms
proof (rule pass_accounts)
  fix removed
  assume a: "ev' = ev @ removed" "set removed \<subseteq> snd ` set (active (inner a))"
    "\<forall>e \<in> set (active (inner a)). e \<in> set (active (inner a')) \<or> snd e \<in> set removed"
    "\<forall>e \<in> set (active (inner a')). e \<in> set (active (inner a)) \<or> st = Done (Inr (snd e))"
  then have "accounts_for (active (inner a)) (active (inner a')) removed
      (case st of Done r \<Rightarrow> Some r | Asks _ \<Rightarrow> None)"
    unfolding accounts_for_def by (cases st) auto
  with a(1) show ?thesis by blast
qed

lemma pass_result:
  assumes "try_allocate a rng rq ans ev = (a', ev', Done (Inr al))" and "inner_inv (inner a)"
  shows "al = granted rq (external_port al)"
    "hm_get (active (inner a')) (external_port al, req_slot_proto rq) = Some al"
proof -
  from assms refl refl show "al = granted rq (external_port al)"
    by (elim granted_pass) blast
  from assms refl refl obtain m where
    "active (inner a') = hm_insert (external_port al, req_slot_proto rq) al m"
    by (elim granted_pass) blast
  then show "hm_get (active (inner a')) (external_port al, req_slot_proto rq) = Some al"
    by (simp add: table)
qed

lemma request_outcome:
  assumes "\<And>i g. inner_inv g \<Longrightarrow> inner_inv (interfere i g) \<and> active (interfere i g) = active g"
    and "inner_inv (inner a)" and "allocate_loop a rng interfere rq locks ans ev = (a', out, n)"
  shows "inner_inv (inner a')
    \<and> (\<exists>removed. outcome_evicted out = ev @ removed
         \<and> accounts_for (active (inner a)) (active (inner a')) removed (Some (outcome_result out)))
    \<and> (\<forall>al. outcome_result out = Inr al \<longrightarrow> al = granted rq (external_port al)
         \<and> hm_get (active (inner a')) (external_port al, req_slot_proto rq) = Some al)"
  using assms(2,3,1)
proof (induction a rng interfere rq locks ans ev rule: allocate_loop.induct)
  case (1 a rng interfere rq locks ans ev)
  obtain b ev1 st where t: "try_allocate a rng rq ans ev = (b, ev1, st)"
    by (cases "try_allocate a rng rq ans ev") auto
  have i: "inner_inv (inner b)" using t "1.prems"(1) by (rule try_allocate_inv)
  obtain removed where acc: "ev1 = ev @ removed" "accounts_for (active (inner a)) (active (inner b)) removed
      (case st of Done r \<Rightarrow> Some r | Asks _ \<Rightarrow> None)"
    using pass_accounts_for [OF t "1.prems"(1)] by blast
  note unfold = allocate_loop.simps [of a rng interfere rq locks ans ev]
  show ?case
  proof (cases st)
    case (Done result)
    then have res: "a' = report_evicted b ev1 (case result of Inl _ \<Rightarrow> None | Inr al \<Rightarrow> Some al)"
      "outcome_result out = result" "outcome_evicted out = ev1"
      using "1.prems"(2) t by (auto simp: unfold)
    then show ?thesis
      using acc Done i pass_result [OF _ "1.prems"(1)] t by auto
  next
    case (Asks q)
    let ?c = "b\<lparr>inner := interfere locks (inner b)\<rparr>"
    have c: "inner_inv (inner ?c)" "active (inner ?c) = active (inner b)"
      using i "1.prems"(3) by simp_all
    have l: "allocate_loop ?c rng interfere rq (Suc locks) (ask b q (client_ip rq) ans) ev1 = (a', out, n)"
      using "1.prems"(2) t Asks by (simp add: unfold)
    note ih = "1.IH" [OF t [symmetric] refl Asks c(1) l "1.prems"(3)]
    then show ?thesis
      using acc Asks c(2) accounts_for_trans [of "active (inner a)" "active (inner b)" removed] by auto
  qed
qed

lemma collecting_outcome:
  assumes "quiet e" and "inner_inv (inner a)"
    and "allocate_at_collecting a (env_rng e) (env_interfere e) c p iport sug secs (env_now e) = (a', out, n)"
  shows "inner_inv (inner a')"
    "accounts_for (active (inner a)) (active (inner a')) (outcome_evicted out) (Some (outcome_result out))"
    "outcome_result out = Inr al \<Longrightarrow> internal_ip al = c \<and> internal_port al = iport \<and> alloc_proto al = p
       \<and> expires_at al = env_now e + clamp_lifetime secs
       \<and> hm_get (active (inner a')) (external_port al, p) = Some al"
proof -
  let ?a = "a\<lparr>inner := trim_side_maps (env_now e) (rate_limit_window a) (inner a)\<rparr>"
  have l: "allocate_loop ?a (env_rng e) (env_interfere e) (mk_request c p iport sug secs (env_now e)) 0
      (unasked a c) [] = (a', out, n)"
    using assms(3) by (simp add: allocate_at_collecting_def)
  have i: "inner_inv (inner ?a)" using assms(2) by (simp add: inner_inv_trim_side_maps)
  have q: "inner_inv (env_interfere e i g) \<and> active (env_interfere e i g) = active g" if "inner_inv g" for i g
    using assms(1) that by (simp add: quiet_def)
  note o = request_outcome [OF q i l]
  then show "inner_inv (inner a')"
    "accounts_for (active (inner a)) (active (inner a')) (outcome_evicted out) (Some (outcome_result out))"
    by auto
  assume "outcome_result out = Inr al"
  with o have g: "al = granted (mk_request c p iport sug secs (env_now e)) (external_port al)"
    and h: "hm_get (active (inner a')) (external_port al, p) = Some al"
    by (auto simp: mk_request_def)
  show "internal_ip al = c \<and> internal_port al = iport \<and> alloc_proto al = p
       \<and> expires_at al = env_now e + clamp_lifetime secs
       \<and> hm_get (active (inner a')) (external_port al, p) = Some al"
    using h by (subst (1 2 3 4) g) (simp add: mk_request_def)
qed

section \<open>The contract of a backend\<close>

text \<open>
  What the server may rely on, whatever the backend: a granted allocation is the requester's and is in
  force under its port and protocol, a release takes exactly the one slot, a release by the client
  takes at most one mapping of that client, and reading the rate-limit status changes no mapping.
  \<open>mappings\<close> is the table of mappings in force, \<open>ok\<close> the invariant of the backend.
\<close>

locale forwarding_backend =
  fixes allocate :: "'b \<Rightarrow> op_env \<Rightarrow> ipv4 \<Rightarrow> proto \<Rightarrow> u16 \<Rightarrow> u16 \<Rightarrow> duration \<Rightarrow> 'b \<times> (natpmp_error + allocation)"
    and release :: "'b \<Rightarrow> op_env \<Rightarrow> allocation \<Rightarrow> 'b \<times> (natpmp_error + unit)"
    and release_by_client :: "'b \<Rightarrow> op_env \<Rightarrow> ipv4 \<Rightarrow> u16 \<Rightarrow> proto \<Rightarrow> 'b \<times> (natpmp_error + bool)"
    and rate_limit_status :: "'b \<Rightarrow> op_env \<Rightarrow> ipv4 \<Rightarrow> 'b \<times> rate_limit_info"
    and mappings :: "'b \<Rightarrow> (slot, allocation) hmap"
    and ok :: "'b \<Rightarrow> bool"
  assumes allocate_ok: "quiet e \<Longrightarrow> ok b \<Longrightarrow> allocate b e c p iport sug life = (b', r) \<Longrightarrow> ok b'"
    and allocate_grants: "quiet e \<Longrightarrow> ok b \<Longrightarrow> allocate b e c p iport sug life = (b', Inr al) \<Longrightarrow>
      internal_ip al = c \<and> internal_port al = iport \<and> alloc_proto al = p
      \<and> expires_at al = env_now e + clamp_lifetime (as_lifetime_secs life)
      \<and> hm_get (mappings b') (external_port al, p) = Some al"
    and release_ok: "ok b \<Longrightarrow> release b e al = (b', done) \<Longrightarrow> ok b'"
    and release_takes: "ok b \<Longrightarrow> release b e al = (b', Inr ()) \<Longrightarrow>
      hm_get (mappings b') k = (if k = (external_port al, alloc_proto al) then None else hm_get (mappings b) k)"
    and release_by_client_ok: "ok b \<Longrightarrow> release_by_client b e c iport p = (b', found) \<Longrightarrow> ok b'"
    and release_by_client_takes: "ok b \<Longrightarrow> release_by_client b e c iport p = (b', Inr True) \<Longrightarrow>
      \<exists>k al. hm_get (mappings b) k = Some al \<and> internal_ip al = c \<and> internal_port al = iport
        \<and> alloc_proto al = p \<and> (\<forall>j. hm_get (mappings b') j = (if j = k then None else hm_get (mappings b) j))"
    and release_by_client_none: "ok b \<Longrightarrow> release_by_client b e c iport p = (b', Inr False) \<Longrightarrow>
      mappings b' = mappings b \<and> (\<forall>x \<in> set (mappings b).
        \<not> (internal_ip (snd x) = c \<and> internal_port (snd x) = iport \<and> alloc_proto (snd x) = p))"
    and release_by_client_failed: "ok b \<Longrightarrow> release_by_client b e c iport p = (b', Inl err) \<Longrightarrow>
      mappings b' = mappings b"
    and status_reads: "ok b \<Longrightarrow> rate_limit_status b e c = (b', info) \<Longrightarrow> mappings b' = mappings b \<and> ok b'"

section \<open>Both backends keep the contract\<close>

lemma slot_of_mapping:
  assumes "inner_inv g" and "hm_get (active g) k = Some al"
  shows "k = (external_port al, alloc_proto al)"
  using hm_get_in_set [OF assms(2)] assms(1) unfolding inner_inv_def slots_ok_def by fastforce

lemma release_at_takes:
  assumes "inner_inv (inner a)"
  shows "active (inner (release_at a al now)) = hm_remove (external_port al, alloc_proto al) (active (inner a))"
  by (auto simp: release_at_def Let_def hm_remove_absent split: option.splits)

lemma stub_allocate_outcome:
  assumes "stub_allocate a e c p iport sug life = (a', r)"
  obtains out n where "allocate_at_collecting a (env_rng e) (env_interfere e) c p iport sug
      (as_lifetime_secs life) (env_now e) = (a', out, n)" "outcome_result out = r"
  using assms by (auto simp: stub_allocate_def allocate_at_def split: prod.splits)

lemma rate_limit_status_active:
  "rate_limit_status_at a c now = (a', info) \<Longrightarrow> active (inner a') = active (inner a)"
  by (auto simp: rate_limit_status_at_def Let_def split: option.splits)

lemma find_mapping:
  assumes "inner_inv g" and "find (\<lambda>e. snd (fst e) = p \<and> P (snd e)) (active g) = Some (k, al)"
  shows "hm_get (active g) k = Some al" "P al" "alloc_proto al = p" "k = (external_port al, p)"
proof -
  have "(k, al) \<in> set (active g)" "snd k = p" and P: "P al" using find_SomeD [OF assms(2)] by simp_all
  then have h: "hm_get (active g) k = Some al"
    using hm_in_set_iff inner_inv_wfD(1) [OF assms(1)] by metis
  then show "hm_get (active g) k = Some al" "P al" "alloc_proto al = p" "k = (external_port al, p)"
    using P slot_of_mapping [OF assms(1) h] \<open>snd k = p\<close> by auto
qed

interpretation stub: forwarding_backend stub_allocate stub_release stub_release_by_client
  stub_rate_limit_status "\<lambda>a. active (inner a)" "\<lambda>a. inner_inv (inner a)"
proof (unfold_locales, goal_cases)
  case (1 e b c p iport sug life b' r)
  from 1(3) show ?case
    by (rule stub_allocate_outcome) (rule collecting_outcome(1) [OF 1(1,2)])
next
  case (2 e b c p iport sug life b' al)
  from 2(3) show ?case
    by (rule stub_allocate_outcome) (rule collecting_outcome(3) [OF 2(1,2)])
next
  case (3 b e al b' r)
  then show ?case by (auto simp: stub_release_def release_inv)
next
  case (4 b e al b' k)
  then show ?case by (auto simp: stub_release_def release_at_takes table)
next
  case (5 b e c iport p b' r)
  then show ?case by (auto simp: stub_release_by_client_def intro: release_by_client_inv split: prod.splits)
next
  case (6 b e c iport p b')
  then obtain key al where f: "find (\<lambda>x. snd (fst x) = p \<and> internal_ip (snd x) = c \<and> internal_port (snd x) = iport)
      (active (inner b)) = Some (key, al)"
    and b': "active (inner b') = hm_remove key (active (inner b))"
    by (auto simp: stub_release_by_client_def release_by_client_at_def Let_def split: option.splits)
  note m = find_mapping [OF 6(1), of p "\<lambda>x. internal_ip x = c \<and> internal_port x = iport", OF f]
  then show ?case using b' by (intro exI [of _ key] exI [of _ al]) (auto simp: table)
next
  case (7 b e c iport p b')
  then have n: "find (\<lambda>x. snd (fst x) = p \<and> internal_ip (snd x) = c \<and> internal_port (snd x) = iport)
      (active (inner b)) = None" and "b' = b"
    by (auto simp: stub_release_by_client_def release_by_client_at_def Let_def split: option.splits)
  moreover have "alloc_proto (snd x) = snd (fst x)" if "x \<in> set (active (inner b))" for x
    using 7(1) that unfolding inner_inv_def slots_ok_def by fastforce
  ultimately show ?case unfolding find_None_iff by metis
next
  case (8 b e c iport p b' err)
  then show ?case by (auto simp: stub_release_by_client_def split: prod.splits)
next
  case (9 b e c b' info)
  then show ?case
    by (auto simp: stub_rate_limit_status_def rate_limit_status_active intro: rate_limit_status_inv)
qed

lemma nft_allocate_cases:
  assumes "nft_allocate run b e c p iport sug life = (b', r)"
    and "allocate_at_collecting (nb_allocator b) (env_rng e) (env_interfere e) c p iport sug
      (as_lifetime_secs life) (env_now e) = (a, out, n)"
    and "k = delete_evicted run (nb_table b) (outcome_evicted out) (nb_kernel b)"
  obtains
    (refused) err where "outcome_result out = Inl err" "r = Inl err"
      "b' = b\<lparr>nb_allocator := a, nb_kernel := k\<rparr>"
  | (granted) al k1 where "outcome_result out = Inr al" "r = Inr al"
      "add_rule run (nb_table b) p al k = (k1, Inr ())" "b' = b\<lparr>nb_allocator := a, nb_kernel := k1\<rparr>"
  | (rolled_back) al k1 k2 err where "outcome_result out = Inr al" "r = Inl (Backend err)"
      "add_rule run (nb_table b) p al k = (k1, Inl err)"
      "run k1 (render_delete_element (nb_table b) p (external_port al)) = (k2, Inr ())"
      "b' = b\<lparr>nb_allocator := release_at a al (env_now e), nb_kernel := k2\<rparr>"
  | (stuck) al k1 k2 err err' where "outcome_result out = Inr al" "r = Inl (Backend err)"
      "add_rule run (nb_table b) p al k = (k1, Inl err)"
      "run k1 (render_delete_element (nb_table b) p (external_port al)) = (k2, Inl err')"
      "b' = b\<lparr>nb_allocator := a, nb_kernel := k2\<rparr>"
  using assms(1) unfolding nft_allocate_def assms(2) prod.case Let_def assms(3) [symmetric]
  by (cases "outcome_result out") (auto split: sum.splits prod.splits)

lemma nft_allocate_collects:
  obtains a out n where "allocate_at_collecting (nb_allocator b) (env_rng e) (env_interfere e) c p iport sug
      (as_lifetime_secs life) (env_now e) = (a, out, n)"
  by (cases "allocate_at_collecting (nb_allocator b) (env_rng e) (env_interfere e) c p iport sug
      (as_lifetime_secs life) (env_now e)") auto

lemma nft_release_by_client_cases:
  assumes "nft_release_by_client run b e c iport p = (b', r)" and "inner_inv (inner (nb_allocator b))"
  obtains
    (none) "r = Inr False" "b' = b" "\<forall>x \<in> set (active (inner (nb_allocator b))).
        \<not> (internal_ip (snd x) = c \<and> internal_port (snd x) = iport \<and> alloc_proto (snd x) = p)"
  | (failed) k err where "r = Inl (Backend err)" "b' = b\<lparr>nb_kernel := k\<rparr>"
      "\<exists>ext. run (nb_kernel b) (render_delete_element (nb_table b) p ext) = (k, Inl err)"
  | (released) al k where "r = Inr True" "internal_ip al = c" "internal_port al = iport" "alloc_proto al = p"
      "hm_get (active (inner (nb_allocator b))) (external_port al, p) = Some al"
      "run (nb_kernel b) (render_delete_element (nb_table b) p (external_port al)) = (k, Inr ())"
      "b' = b\<lparr>nb_kernel := k, nb_allocator := release_at (nb_allocator b) al (env_now e)\<rparr>"
proof -
  let ?P = "\<lambda>al. internal_ip al = c \<and> internal_port al = iport \<and> alloc_proto al = p"
  let ?m = "active (inner (nb_allocator b))"
  show ?thesis
  proof (cases "find ?P (snapshot_active (nb_allocator b))")
    case None
    then have "\<forall>x \<in> set ?m. \<not> ?P (snd x)"
      by (auto simp: find_None_iff snapshot_active_def hm_values_def)
    then show ?thesis using none assms(1) None by (auto simp: nft_release_by_client_def)
  next
    case (Some al)
    then have al: "?P al" "al \<in> snd ` set ?m"
      using find_SomeD [OF Some] by (simp_all add: snapshot_active_def hm_values_def)
    then obtain key where "hm_get ?m key = Some al"
      using hm_in_set_iff [OF inner_inv_wfD(1) [OF assms(2)]] by force
    then have slot: "hm_get ?m (external_port al, p) = Some al"
      using slot_of_mapping [OF assms(2)] al(1) by metis
    then show ?thesis
      using assms(1) Some al(1) failed released
      by (auto simp: nft_release_by_client_def split: sum.splits prod.splits)
  qed
qed

interpretation nft: forwarding_backend "nft_allocate run" "nft_release run" "nft_release_by_client run"
  nft_rate_limit_status "\<lambda>b. active (inner (nb_allocator b))" "\<lambda>b. inner_inv (inner (nb_allocator b))"
  for run :: "'k \<Rightarrow> string \<Rightarrow> 'k \<times> (string + unit)"
proof (unfold_locales, goal_cases)
  case (1 e b c p iport sug life b' r)
  obtain a out n where o: "allocate_at_collecting (nb_allocator b) (env_rng e) (env_interfere e) c p iport sug
      (as_lifetime_secs life) (env_now e) = (a, out, n)"
    by (rule nft_allocate_collects)
  have "inner_inv (inner a)" using 1(1,2) o by (rule collecting_outcome)
  from 1(3) o refl this show ?case
    by (cases rule: nft_allocate_cases) (auto simp: release_inv)
next
  case (2 e b c p iport sug life b' al)
  obtain a out n where o: "allocate_at_collecting (nb_allocator b) (env_rng e) (env_interfere e) c p iport sug
      (as_lifetime_secs life) (env_now e) = (a, out, n)"
    by (rule nft_allocate_collects)
  from 2(3) o refl show ?case
  proof (cases rule: nft_allocate_cases)
    case (granted al' k1)
    then show ?thesis using collecting_outcome(3) [OF 2(1,2) o, of al] by simp
  qed simp_all
next
  case (3 b e al b' r)
  then show ?case by (auto simp: nft_release_def release_inv split: prod.splits sum.splits)
next
  case (4 b e al b' k)
  then show ?case by (auto simp: nft_release_def release_at_takes table split: prod.splits sum.splits)
next
  case (5 b e c iport p b' r)
  from 5(2,1) show ?case
    by (cases rule: nft_release_by_client_cases) (use 5(1) in \<open>auto simp: release_inv\<close>)
next
  case (6 b e c iport p b')
  from 6(2,1) show ?case
  proof (cases rule: nft_release_by_client_cases)
    case (released al k)
    then show ?thesis
      using 6(1) by (intro exI [of _ "(external_port al, p)"] exI [of _ al]) (auto simp: release_at_takes table)
  qed simp_all
next
  case (7 b e c iport p b')
  from 7(2,1) show ?case by (cases rule: nft_release_by_client_cases) simp_all
next
  case (8 b e c iport p b' err)
  from 8(2,1) show ?case by (cases rule: nft_release_by_client_cases) simp_all
next
  case (9 b e c b' info)
  then show ?case
    by (auto simp: nft_rate_limit_status_def rate_limit_status_active split: prod.splits intro: rate_limit_status_inv)
qed

end
