(* ===== verification/Natpmp_Kernel.thy ===== *)
theory Natpmp_Kernel
  imports Natpmp_Backend
begin

text \<open>
  The kernel side of \<open>NftablesBackend\<close>: what the executor is assumed to do, and that the DNAT elements in
  the kernel never forward a port to anyone but the client that holds the mapping.
\<close>

section \<open>The contract of the executor\<close>

text \<open>
  \<open>run\<close> executes a script, \<open>dnat\<close> reads an element of the maps of the table. A successful add sets its
  element; a failed add may have been applied (its process may have timed out after the kernel
  committed it). A delete of an element that is there succeeds, a successful delete leaves no element,
  a failed one changes nothing. Each command touches its own element only, setup empties the maps and
  the sync of the guard set does not touch them.
\<close>

definition adds_keep ::
  "'k runner \<Rightarrow> ('k \<Rightarrow> proto \<Rightarrow> u16 \<Rightarrow> (ipv4 \<times> u16) option) \<Rightarrow> string \<Rightarrow> bool" where
  "adds_keep run dnat table \<longleftrightarrow>
     (\<forall>k p ext ip q k' r. run k (render_add_element table p ext ip q) = (k', r) \<longrightarrow>
        (\<forall>p' ext'. (p', ext') \<noteq> (p, ext) \<longrightarrow> dnat k' p' ext' = dnat k p' ext')
        \<and> (r = Inr () \<longrightarrow> dnat k' p ext = Some (ip, q))
        \<and> (dnat k' p ext = dnat k p ext \<or> dnat k' p ext = Some (ip, q)))"

definition deletes_keep ::
  "'k runner \<Rightarrow> ('k \<Rightarrow> proto \<Rightarrow> u16 \<Rightarrow> (ipv4 \<times> u16) option) \<Rightarrow> string \<Rightarrow> bool" where
  "deletes_keep run dnat table \<longleftrightarrow>
     (\<forall>k p ext k' r. run k (render_delete_element table p ext) = (k', r) \<longrightarrow>
        (\<forall>p' ext'. (p', ext') \<noteq> (p, ext) \<longrightarrow> dnat k' p' ext' = dnat k p' ext')
        \<and> (dnat k p ext \<noteq> None \<longrightarrow> r = Inr ())
        \<and> (r = Inr () \<longrightarrow> dnat k' p ext = None) \<and> (r \<noteq> Inr () \<longrightarrow> dnat k' p ext = dnat k p ext))"

definition nft_contract ::
  "'k runner \<Rightarrow> ('k \<Rightarrow> proto \<Rightarrow> u16 \<Rightarrow> (ipv4 \<times> u16) option) \<Rightarrow> string \<Rightarrow> bool" where
  "nft_contract run dnat table \<longleftrightarrow> adds_keep run dnat table \<and> deletes_keep run dnat table
   \<and> (\<forall>k chain pfwd guard hairpin k'. run k (setup_script table chain pfwd guard hairpin) = (k', Inr ()) \<longrightarrow>
        (\<forall>p ext. dnat k' p ext = None))
   \<and> (\<forall>k set_name ips k' r. run k (render_sync_client_ips table set_name ips) = (k', r) \<longrightarrow> dnat k' = dnat k)"

text \<open>Some scripts are all-or-nothing: a failed add leaves the element as it was.\<close>

definition adds_atomic :: "'k runner \<Rightarrow> ('k \<Rightarrow> proto \<Rightarrow> u16 \<Rightarrow> (ipv4 \<times> u16) option) \<Rightarrow> string \<Rightarrow> bool" where
  "adds_atomic run dnat table \<longleftrightarrow>
     (\<forall>k p ext ip q k' err. run k (render_add_element table p ext ip q) = (k', Inl err) \<longrightarrow> dnat k' = dnat k)"

lemma nft_contractD:
  assumes "nft_contract run dnat table"
  shows "adds_keep run dnat table" "deletes_keep run dnat table"
    "run k (setup_script table chain pfwd guard hairpin) = (k', Inr ()) \<Longrightarrow> dnat k' p ext = None"
    "run k (render_sync_client_ips table set_name ips) = (k', r) \<Longrightarrow> dnat k' = dnat k"
  using assms unfolding nft_contract_def by blast+

lemma adds_keepD:
  assumes "adds_keep run dnat table" and "run k (render_add_element table p ext ip q) = (k', r)"
  shows "(p', ext') \<noteq> (p, ext) \<Longrightarrow> dnat k' p' ext' = dnat k p' ext'"
    "r = Inr () \<Longrightarrow> dnat k' p ext = Some (ip, q)"
    "dnat k' p ext = dnat k p ext \<or> dnat k' p ext = Some (ip, q)"
  using assms unfolding adds_keep_def by blast+

text \<open>A delete empties its element, whatever it reports.\<close>

lemma delete_spec:
  assumes "deletes_keep run dnat table" and "run k (render_delete_element table p ext) = (k', r)"
  shows "dnat k' p' ext' = (if (p', ext') = (p, ext) then None else dnat k p' ext')"
proof (cases "(p', ext') = (p, ext)")
  case True
  have "dnat k p ext \<noteq> None \<longrightarrow> r = Inr ()" "r = Inr () \<longrightarrow> dnat k' p ext = None"
    "r \<noteq> Inr () \<longrightarrow> dnat k' p ext = dnat k p ext"
    using assms unfolding deletes_keep_def by blast+
  then have "dnat k' p ext = None"
    by (cases "r = Inr ()") metis+
  with True show ?thesis by simp
next
  case False
  then have "dnat k' p' ext' = dnat k p' ext'"
    using assms unfolding deletes_keep_def by blast
  with False show ?thesis
    by auto
qed

lemma delete_failed:
  assumes "deletes_keep run dnat table" and "run k (render_delete_element table p ext) = (k', r)"
    and "r \<noteq> Inr ()"
  shows "dnat k p ext = None"
  using assms unfolding deletes_keep_def by blast

section \<open>The reference executor keeps the contract\<close>

lemma setup_script_prefix: "take 10 (setup_script table chain pfwd guard hairpin) = ''add table ''"
  by (simp add: setup_script_def render_setup_script_def Let_def)

lemma element_prefix:
  "take 10 (render_add_element table p ext ip q) \<noteq> ''add table ''"
  "take 10 (render_delete_element table p ext) \<noteq> ''add table ''"
  "take 10 (render_sync_client_ips table set_name ips) \<noteq> ''add table ''"
  by (simp_all add: render_add_element_def render_delete_element_def render_sync_client_ips_def)

lemma parse_sync: "parse_element_command (render_sync_client_ips table set_name ips) = None"
proof -
  obtain ws where "split_on (CHR '' '') (render_sync_client_ips table set_name ips) = ''flush'' # ws"
    by (simp add: render_sync_client_ips_def)
  then show ?thesis
    by (simp add: parse_element_command_def split: list.split)
qed

lemma nft_exec_scripts:
  assumes "CHR '' '' \<notin> set table"
  shows "nft_exec k (render_add_element table p ext ip q) =
      (case hm_get k (table, map_name p, ext) of
         None \<Rightarrow> (hm_insert (table, map_name p, ext) (ip, q) k, Inr ())
       | Some v \<Rightarrow> if v = (ip, q) then (k, Inr ()) else (k, Inl ''File exists''))"
    "nft_exec k (render_delete_element table p ext) =
      (if hm_contains k (table, map_name p, ext) then (hm_remove (table, map_name p, ext) k, Inr ())
       else (k, Inl ''No such file or directory''))"
    "nft_exec k (setup_script table chain pfwd guard hairpin) = ([], Inr ())"
    "nft_exec k (render_sync_client_ips table set_name ips) = (k, Inr ())"
  by (simp_all add: nft_exec_def element_prefix setup_script_prefix parse_sync
      parse_add_element [OF assms] parse_delete_element [OF assms])

lemma nft_exec_contract:
  assumes "CHR '' '' \<notin> set table"
  shows "nft_contract nft_exec (nft_dnat table) table" "adds_atomic nft_exec (nft_dnat table) table"
  by (auto simp: nft_contract_def adds_keep_def deletes_keep_def adds_atomic_def nft_exec_scripts [OF assms] nft_dnat_def table
      hm_contains_def split: option.splits if_splits)

section \<open>The kernel forwards to holders only\<close>

definition kernel_sound :: "('k \<Rightarrow> proto \<Rightarrow> u16 \<Rightarrow> (ipv4 \<times> u16) option) \<Rightarrow> 'k \<Rightarrow> (slot, allocation) hmap \<Rightarrow> bool" where
  "kernel_sound dnat k m \<longleftrightarrow> (\<forall>p ext target. dnat k p ext = Some target \<longrightarrow>
     (\<exists>al. hm_get m (ext, p) = Some al \<and> target = (internal_ip al, dnat_port al)))"

lemma kernel_soundD:
  "kernel_sound dnat k m \<Longrightarrow> dnat k p ext = Some t \<Longrightarrow>
    \<exists>al. hm_get m (ext, p) = Some al \<and> t = (internal_ip al, dnat_port al)"
  unfolding kernel_sound_def by blast

text \<open>Deleting the evicted elements: exactly their slots are emptied.\<close>

lemma delete_evicted_spec:
  assumes "deletes_keep run dnat table"
  shows "dnat (delete_evicted run table evs k) p ext =
    (if \<exists>ev \<in> set evs. (alloc_proto ev, external_port ev) = (p, ext) then None else dnat k p ext)"
proof (induction evs arbitrary: k)
  case (Cons ev evs)
  obtain k1 r where d: "run k (render_delete_element table (alloc_proto ev) (external_port ev)) = (k1, r)"
    by fastforce
  moreover have "delete_evicted run table (ev # evs) k = delete_evicted run table evs k1"
    using d by (simp add: delete_evicted_def)
  ultimately show ?case
    using Cons.IH [of k1] delete_spec [OF assms d, of p ext] by auto
qed (simp add: delete_evicted_def)

lemma add_rule_spec:
  assumes "adds_keep run dnat table" and "add_rule run table p al k = (k', r)"
  shows "(p', ext') \<noteq> (p, external_port al) \<Longrightarrow> dnat k' p' ext' = dnat k p' ext'"
    "dnat k' p (external_port al) = dnat k p (external_port al)
      \<or> dnat k' p (external_port al) = Some (internal_ip al, dnat_port al)"
    "r = Inr () \<Longrightarrow> dnat k' p (external_port al) = Some (internal_ip al, dnat_port al)"
  by (fact adds_keepD [OF assms(1) assms(2) [unfolded add_rule_def]])+

lemma add_undone:
  assumes "adds_keep run dnat table" and "deletes_keep run dnat table" and "add_rule run table p al k = (k1, r)"
    and "run k1 (render_delete_element table p (external_port al)) = (k2, r')"
  shows "dnat k2 p' ext' = (if (p', ext') = (p, external_port al) then None else dnat k p' ext')"
  using add_rule_spec(1) [OF assms(1,3), of p' ext'] by (simp add: delete_spec [OF assms(2,4), of p' ext'])

lemma kernel_sound_update:
  assumes "kernel_sound dnat k m"
    and "\<And>p' ext'. (p', ext') \<noteq> (p, ext) \<Longrightarrow>
      dnat k' p' ext' = dnat k p' ext' \<and> hm_get m' (ext', p') = hm_get m (ext', p')"
    and "dnat k' p ext = None \<or> (\<exists>al. hm_get m' (ext, p) = Some al \<and> dnat k' p ext = Some (internal_ip al, dnat_port al))"
  shows "kernel_sound dnat k' m'"
  unfolding kernel_sound_def
proof (intro allI impI)
  fix p' ext' t
  assume t: "dnat k' p' ext' = Some t"
  show "\<exists>al. hm_get m' (ext', p') = Some al \<and> t = (internal_ip al, dnat_port al)"
  proof (cases "(p', ext') = (p, ext)")
    case True
    then show ?thesis using assms(3) t by auto
  next
    case False
    then have "dnat k p' ext' = Some t" "hm_get m' (ext', p') = hm_get m (ext', p')"
      using assms(2) [OF False] t by simp_all
    then show ?thesis using kernel_soundD [OF assms(1)] by simp
  qed
qed

lemma evictions_keep_sound:
  assumes "deletes_keep run dnat table" and "kernel_sound dnat k (active g)" and "inner_inv g" and "inner_inv g'"
    and "accounts_for (active g) (active g') evicted r"
  shows "kernel_sound dnat (delete_evicted run table evicted k) (active g')"
  unfolding kernel_sound_def
proof (intro allI impI)
  fix p ext t
  assume "dnat (delete_evicted run table evicted k) p ext = Some t"
  then have d: "dnat k p ext = Some t" and n: "\<not> (\<exists>ev \<in> set evicted. (alloc_proto ev, external_port ev) = (p, ext))"
    by (auto simp: delete_evicted_spec [OF assms(1)] split: if_splits)
  from kernel_soundD [OF assms(2) d] obtain al where
    al: "hm_get (active g) (ext, p) = Some al" "t = (internal_ip al, dnat_port al)" by blast
  have "al \<notin> set evicted" using n slot_of_mapping [OF assms(3) al(1)] by force
  moreover have "((ext, p), al) \<in> set (active g') \<or> snd ((ext, p), al) \<in> set evicted"
    using assms(5) hm_get_in_set [OF al(1)] unfolding accounts_for_def by blast
  ultimately have "hm_get (active g') (ext, p) = Some al"
    using hm_in_set_iff [OF inner_inv_wfD(1) [OF assms(4)]] by simp
  with al(2) show "\<exists>al. hm_get (active g') (ext, p) = Some al \<and> t = (internal_ip al, dnat_port al)" by blast
qed

text \<open>What the invariant of the backend says; the last part is under the contract of the executor.\<close>

abbreviation nb_active :: "'k nftables_backend \<Rightarrow> (slot, allocation) hmap" where
  "nb_active b \<equiv> active (inner (nb_allocator b))"

lemma nft_allocate_sound:
  assumes "nft_contract run dnat (nb_table b)" and "quiet e" and "inner_inv (inner (nb_allocator b))"
    and "kernel_sound dnat (nb_kernel b) (nb_active b)" and "nft_allocate run b e c p iport sug life = (b', r)"
  shows "kernel_sound dnat (nb_kernel b') (nb_active b')"
proof -
  note c = nft_contractD(1,2) [OF assms(1)]
  obtain a out n where o: "allocate_at_collecting (nb_allocator b) (env_rng e) (env_interfere e) c p iport sug
      (as_lifetime_secs life) (env_now e) = (a, out, n)"
    by (rule nft_allocate_collects)
  let ?k = "delete_evicted run (nb_table b) (outcome_evicted out) (nb_kernel b)"
  note co = collecting_outcome [OF assms(2,3) o]
  have s: "kernel_sound dnat ?k (active (inner a))"
    by (rule evictions_keep_sound [OF c(2) assms(4,3) co(1,2)])
  from assms(5) o refl show ?thesis
  proof (cases rule: nft_allocate_cases)
    case (refused err)
    with s show ?thesis by simp
  next
    case (granted al k1)
    note add = add_rule_spec [OF c(1) granted(3)]
    show ?thesis
      using s by (rule kernel_sound_update [where p = p and ext = "external_port al"])
        (use granted(4) add co(3) [OF granted(1)] in auto)
  next
    case (rolled_back al k1 k2 err)
    have "nb_active b' = hm_remove (external_port al, p) (active (inner a))"
      using co(3) [OF rolled_back(1)] rolled_back(5) by (simp add: release_at_takes [OF co(1)])
    then show ?thesis
      using rolled_back(5) add_undone [OF c rolled_back(3,4)]
      by (intro kernel_sound_update [OF s, where p = p and ext = "external_port al"]) (auto simp: table)
  next
    case (stuck al k1 k2 err err')
    then show ?thesis
      using add_undone [OF c stuck(3,4)]
      by (intro kernel_sound_update [OF s, where p = p and ext = "external_port al"]) auto
  qed
qed

lemma release_keeps_sound:
  assumes "deletes_keep run dnat table" and "inner_inv (inner a)" and "kernel_sound dnat k (active (inner a))"
    and "run k (render_delete_element table (alloc_proto al) (external_port al)) = (k', r)"
  shows "kernel_sound dnat k' (active (inner a))"
    "kernel_sound dnat k' (active (inner (release_at a al now)))"
  using assms(3)
  by (rule kernel_sound_update [where p = "alloc_proto al" and ext = "external_port al"],
      use delete_spec [OF assms(1,4)] assms(2) in \<open>auto simp: release_at_takes table\<close>)+

section \<open>Every run of the backend\<close>

inductive nft_step :: "'k runner \<Rightarrow> 'k nftables_backend \<Rightarrow> 'k nftables_backend \<Rightarrow> bool" for run where
  step_allocate: "quiet e \<Longrightarrow> nft_allocate run b e c p iport sug life = (b', r) \<Longrightarrow> nft_step run b b'"
| step_release: "nft_release run b e al = (b', r) \<Longrightarrow> nft_step run b b'"
| step_release_by_client: "nft_release_by_client run b e c iport p = (b', r) \<Longrightarrow> nft_step run b b'"
| step_status: "nft_rate_limit_status b e c = (b', info) \<Longrightarrow> nft_step run b b'"
| step_sync: "sync_portfail_guard_ips run b ips = (b', r) \<Longrightarrow> nft_step run b b'"


text \<open>
  The invariant of a run: the tables of the allocator are consistent and, where the executor keeps its
  contract, the kernel forwards to holders only.
\<close>

definition backend_inv ::
  "'k runner \<Rightarrow> ('k \<Rightarrow> proto \<Rightarrow> u16 \<Rightarrow> (ipv4 \<times> u16) option) \<Rightarrow> 'k nftables_backend \<Rightarrow> bool" where
  "backend_inv run dnat b \<longleftrightarrow> inner_inv (inner (nb_allocator b))
     \<and> (nft_contract run dnat (nb_table b) \<longrightarrow> kernel_sound dnat (nb_kernel b) (nb_active b))"

lemma nft_allocate_table: "nft_allocate run b e c p iport sug life = (b', r) \<Longrightarrow> nb_table b' = nb_table b"
  by (auto simp: nft_allocate_def Let_def split: prod.splits sum.splits)

interpretation nft_sys: invariant_steps "nft_step run" "backend_inv run dnat"
  for run :: "'k \<Rightarrow> string \<Rightarrow> 'k \<times> (string + unit)" and dnat
proof (unfold_locales, goal_cases)
  case (1 b b')
  then have i: "inner_inv (inner (nb_allocator b))" by (simp add: backend_inv_def)
  from 1(1) show ?case
  proof cases
    case (step_allocate e c p iport sug life r)
    then show ?thesis
      using nft.allocate_ok [OF step_allocate(1) i step_allocate(2)] 1(2) nft_allocate_table [OF step_allocate(2)]
        nft_allocate_sound [OF _ step_allocate(1) i _ step_allocate(2)]
      unfolding backend_inv_def by metis
  next
    case (step_release e al r)
    then show ?thesis
      using nft.release_ok [OF i step_release] 1(2) release_keeps_sound [OF nft_contractD(2) i]
      by (auto simp: nft_release_def backend_inv_def split: prod.splits sum.splits)
  next
    case (step_release_by_client e c iport p r)
    from step_release_by_client i show ?thesis
    proof (cases rule: nft_release_by_client_cases)
      case (failed k err)
      then obtain ext where d: "run (nb_kernel b) (render_delete_element (nb_table b) p ext) = (k, Inl err)" by blast
      have "kernel_sound dnat k (nb_active b)" if "nft_contract run dnat (nb_table b)"
        "kernel_sound dnat (nb_kernel b) (nb_active b)"
        using that(2) by (rule kernel_sound_update [where p = p and ext = ext])
          (use delete_spec [OF nft_contractD(2) [OF that(1)] d] in auto)
      with failed 1(2) show ?thesis by (simp add: backend_inv_def)
    next
      case (released al k)
      then show ?thesis
        using 1(2) release_keeps_sound(2) [OF nft_contractD(2) i, of run dnat "nb_table b" "nb_kernel b" al]
        by (auto simp: backend_inv_def release_inv)
    qed (use 1(2) in simp)
  next
    case (step_status e c info)
    then show ?thesis
      using nft.status_reads [OF i step_status] 1(2)
      by (auto simp: nft_rate_limit_status_def backend_inv_def split: prod.splits)
  next
    case (step_sync ips r)
    then show ?thesis
      using 1(2) nft_contractD(4)
      by (fastforce simp: sync_portfail_guard_ips_def backend_inv_def kernel_sound_def split: option.splits prod.splits sum.splits)
  qed
qed

lemma with_names_inv:
  assumes "with_names run k table chain pfwd guard hairpin = (k', Inr b)"
  shows "backend_inv run dnat b" "nb_table b = table"
proof -
  have r: "run k (setup_script table chain pfwd guard hairpin) = (k', Inr ())" and
    b: "b = \<lparr>nb_allocator = the (from_config warren_default), nb_kernel = k', nb_table = table,
          nb_chain = chain, nb_guard = guard\<rparr>"
    using assms by (auto simp: with_names_def split: prod.splits sum.splits)
  have "from_config warren_default = Some (nb_allocator b)"
    by (simp add: b from_config_def warren_default_def)
  then have "inner_inv (inner (nb_allocator b))" by (rule from_config_inv)
  moreover have "kernel_sound dnat k' m" if "nft_contract run dnat table" for m
    unfolding kernel_sound_def using nft_contractD(3) [OF that r] by simp
  ultimately show "backend_inv run dnat b" "nb_table b = table"
    by (simp_all add: backend_inv_def b)
qed

lemma nft_step_table: "nft_step run b b' \<Longrightarrow> nb_table b' = nb_table b"
  by (cases rule: nft_step.cases)
    (auto simp: nft_allocate_table nft_release_def nft_release_by_client_def nft_rate_limit_status_def
      sync_portfail_guard_ips_def split: prod.splits sum.splits option.splits)

lemma nft_run_table: "(nft_step run)\<^sup>*\<^sup>* b b' \<Longrightarrow> nb_table b' = nb_table b"
  by (induction rule: rtranclp_induct) (simp_all add: nft_step_table)


lemma granted_forwarded:
  assumes "nft_contract run dnat (nb_table b)" and "quiet e" and "inner_inv (inner (nb_allocator b))"
    and "nft_allocate run b e c p iport sug life = (b', Inr al)"
  shows "dnat (nb_kernel b') p (external_port al) = Some (c, if iport = 0 then external_port al else iport)
    \<and> hm_get (active (inner (nb_allocator b'))) (external_port al, p) = Some al"
proof -
  obtain a out n where o: "allocate_at_collecting (nb_allocator b) (env_rng e) (env_interfere e) c p iport sug
      (as_lifetime_secs life) (env_now e) = (a, out, n)"
    by (rule nft_allocate_collects)
  from assms(4) o refl show ?thesis
  proof (cases rule: nft_allocate_cases)
    case (granted al' k1)
    then show ?thesis
      using add_rule_spec(3) [OF nft_contractD(1) [OF assms(1)] granted(3) refl]
        nft.allocate_grants [OF assms(2-4)] by (simp add: dnat_port_def)
  qed simp_all
qed

text \<open>
  A granted allocation is forwarded: when the backend answers Ok, the mapping is in force for the
  requesting client and the kernel forwards its external port to that client.
\<close>
theorem granted_mapping_is_forwarded:
  assumes "nft_contract run dnat (nb_table b)" and "quiet e" and "inner_inv (inner (nb_allocator b))"
    and "nft_allocate run b e c p iport sug life = (b', Inr al)"
  shows "dnat (nb_kernel b') p (external_port al) = Some (c, if iport = 0 then external_port al else iport)
    \<and> hm_get (active (inner (nb_allocator b'))) (external_port al, p) = Some al"
  using assms by (rule granted_forwarded)

text \<open>
  A release that reports success withdraws the forward: no element of the port and protocol is left
  in the kernel, the mapping is gone, and every other element and mapping is untouched. A release that
  fails leaves the mapping in force.
\<close>
theorem release_withdraws_forward:
  assumes "nft_contract run dnat (nb_table b)" and "inner_inv (inner (nb_allocator b))"
    and "nft_release run b e al = (b', r)"
  shows "(\<forall>p ext. dnat (nb_kernel b') p ext =
            (if (p, ext) = (alloc_proto al, external_port al) then None else dnat (nb_kernel b) p ext))
    \<and> (r = Inr () \<longrightarrow> (\<forall>k. hm_get (active (inner (nb_allocator b'))) k =
            (if k = (external_port al, alloc_proto al) then None else hm_get (active (inner (nb_allocator b))) k)))
    \<and> (r \<noteq> Inr () \<longrightarrow> nb_allocator b' = nb_allocator b)"
proof -
  obtain k r' where d: "run (nb_kernel b) (render_delete_element (nb_table b) (alloc_proto al) (external_port al)) = (k, r')"
    by fastforce
  then have "nb_kernel b' = k" "r \<noteq> Inr () \<longrightarrow> nb_allocator b' = nb_allocator b"
    using assms(3) by (auto simp: nft_release_def split: sum.splits)
  moreover have "\<forall>k. hm_get (nb_active b') k =
      (if k = (external_port al, alloc_proto al) then None else hm_get (nb_active b) k)" if "r = Inr ()"
    using nft.release_takes [OF assms(2)] assms(3) that by blast
  ultimately show ?thesis
    using delete_spec [OF nft_contractD(2) [OF assms(1)] d] by blast
qed

section \<open>A concrete deployment\<close>

definition demo_env :: op_env where
  "demo_env = \<lparr>env_now = from_secs 10, env_rng = (\<lambda>_. 0), env_interfere = (\<lambda>_ g. g)\<rparr>"

definition demo_nft :: "nft_maps nftables_backend" where
  "demo_nft = \<lparr>nb_allocator = the (from_config warren_default), nb_kernel = [], nb_table = DEFAULT_TABLE,
     nb_chain = DEFAULT_CHAIN, nb_guard = None\<rparr>"

definition demo_nft_one :: "nft_maps nftables_backend" where
  "demo_nft_one = fst (nft_allocate nft_exec demo_nft demo_env 167772162 Tcp 80 50000 (from_secs 600))"

lemma demo_table: "CHR '' '' \<notin> set DEFAULT_TABLE"
  by (simp add: DEFAULT_TABLE_def)

lemma demo_quiet: "quiet demo_env"
  by (simp add: quiet_def demo_env_def)

abbreviation demo_al :: allocation where
  "demo_al \<equiv> \<lparr>external_port = 50000, internal_ip = 167772162, internal_port = 80, alloc_proto = Tcp,
     expires_at = from_secs 610\<rparr>"

lemma demo_collects: "\<exists>a. allocate_at_collecting (nb_allocator demo_nft) (env_rng demo_env) (env_interfere demo_env)
    167772162 Tcp 80 50000 (as_lifetime_secs (from_secs 600)) (env_now demo_env)
  = (a, \<lparr>outcome_result = Inr demo_al, outcome_evicted = []\<rparr>, 1)"
  by (simp add: demo_nft_def demo_env_def allocate_at_collecting_def unasked_def from_config_def empty_inner_def
      warren_default_def allocator_config.defs allocate_loop.simps [of _ _ _ _ 0] run_pass trim_side_maps_def
      as_lifetime_secs_def saturate_u32_def as_secs_def)

lemma demo_nft_allocates:
  "nft_allocate nft_exec demo_nft demo_env 167772162 Tcp 80 50000 (from_secs 600) = (demo_nft_one, Inr demo_al)"
  "nft_dnat DEFAULT_TABLE (nb_kernel demo_nft_one) Tcp 50000 = Some (167772162, 80)"
  "nb_table demo_nft_one = DEFAULT_TABLE"
  using demo_collects
  by (auto simp: demo_nft_one_def nft_allocate_def Let_def delete_evicted_def add_rule_def
      nft_exec_scripts demo_table demo_nft_def nft_dnat_def table dnat_port_def hm_get_def)

lemma demo_starts: "with_names nft_exec k DEFAULT_TABLE DEFAULT_CHAIN None None None = ([], Inr demo_nft)"
  by (simp add: with_names_def nft_exec_scripts demo_table demo_nft_def)

lemma demo_nft_inv: "inner_inv (inner (nb_allocator demo_nft))" "inner_inv (inner (nb_allocator demo_nft_one))"
  using with_names_inv(1) [OF demo_starts] nft.allocate_ok [OF demo_quiet _ demo_nft_allocates(1)]
  by (auto simp: backend_inv_def)


theorem granted_mapping_is_forwarded_witness:
  "nft_dnat DEFAULT_TABLE (nb_kernel demo_nft_one) Tcp 50000 = Some (167772162, 80)
    \<and> hm_get (active (inner (nb_allocator demo_nft_one))) (50000, Tcp) = Some demo_al"
  using granted_mapping_is_forwarded [OF _ demo_quiet demo_nft_inv(1) demo_nft_allocates(1)]
    nft_exec_contract(1) [OF demo_table] by (simp add: demo_nft_def)

theorem release_withdraws_forward_witness:
  "nft_dnat DEFAULT_TABLE (nb_kernel (fst (nft_release nft_exec demo_nft_one demo_env demo_al))) Tcp 50000 = None"
proof -
  obtain b r where r: "nft_release nft_exec demo_nft_one demo_env demo_al = (b, r)" by fastforce
  show ?thesis
    using release_withdraws_forward [where dnat = "nft_dnat DEFAULT_TABLE", OF _ demo_nft_inv(2) r] nft_exec_contract(1) [OF demo_table]
    by (simp add: demo_nft_allocates(3) r)
qed

end
