(* ===== verification/Natpmp_Server.thy ===== *)
theory Natpmp_Server
  imports Natpmp_Kernel
begin

text \<open>
  The NAT-PMP server of \<^verbatim>\<open>crates/warrenguard-natpmp-server/src/server.rs\<close>: from a datagram and its
  source to the backend operation and the response.

  The server is generic over the backend trait; so is \<open>dispatch\<close>, which takes the operations of the
  trait as a record. A \<open>request_env\<close> carries what one request takes from its surroundings: whether the
  single backend slot is obtained in time, and how the result of the spawned operation meets the
  deadline of the requester. The slot admits one backend operation at a time, so an operation and its
  compensating release run without another in between.
\<close>

section \<open>The server and its surroundings\<close>

datatype source_addr = V4 ipv4 | V6

datatype credential_verdict = Grant | Refuse

text \<open>\<open>present\<close> answers \<open>None\<close> when no verdict arrives within the request timeout.\<close>

record credential_authority =
  present :: "ipv4 \<Rightarrow> u8 list \<Rightarrow> credential_verdict option"
  requires_credential :: bool

text \<open>The calls the deployer receives, in order.\<close>

datatype notice = On_granted "u8 list" allocation | On_released_by_client ipv4

record 'b port_forwarding =
  op_allocate :: "'b \<Rightarrow> op_env \<Rightarrow> ipv4 \<Rightarrow> proto \<Rightarrow> u16 \<Rightarrow> u16 \<Rightarrow> duration \<Rightarrow> 'b \<times> (natpmp_error + allocation)"
  op_release :: "'b \<Rightarrow> op_env \<Rightarrow> allocation \<Rightarrow> 'b \<times> (natpmp_error + unit)"
  op_release_by_client :: "'b \<Rightarrow> op_env \<Rightarrow> ipv4 \<Rightarrow> u16 \<Rightarrow> proto \<Rightarrow> 'b \<times> (natpmp_error + bool)"
  op_rate_limit_status :: "'b \<Rightarrow> op_env \<Rightarrow> ipv4 \<Rightarrow> 'b \<times> rate_limit_info"

record 'b server =
  backend :: 'b
  public_ip :: ipv4
  epoch :: instant
  auth_filter :: "ipv4 \<Rightarrow> bool"
  credential_authority :: "credential_authority option"
  notices :: "notice list"

text \<open>
  How the result of the spawned operation reaches the requester: in time; after the requester gave up,
  so that the send fails; or into the channel just as the requester gives up, so that the send
  succeeds and nobody reads it.
\<close>

datatype delivery = In_Time | Too_Late | Unread

record request_env =
  slot_in_time :: bool
  delivered :: delivery
  started_at :: instant
  operation :: op_env
  rollback :: op_env
  replying :: op_env

section \<open>Responses\<close>

definition in_tunnel_pool :: "ipv4 \<Rightarrow> bool" where
  "in_tunnel_pool ip \<longleftrightarrow> u32_to_be ip ! 0 = 10 \<and> u32_to_be ip ! 1 = 66"

fun proto_from_wire :: "map_proto \<Rightarrow> proto" where
  "proto_from_wire MP_Tcp = Tcp"
| "proto_from_wire MP_Udp = Udp"

fun proto_to_wire :: "proto \<Rightarrow> map_proto" where
  "proto_to_wire Tcp = MP_Tcp"
| "proto_to_wire Udp = MP_Udp"

definition epoch_secs :: "'b server \<Rightarrow> instant \<Rightarrow> u32" where
  "epoch_secs s now = saturate_u32 (as_secs (now - epoch s))"

definition map_success_response ::
  "allocation \<Rightarrow> instant \<Rightarrow> u16 \<Rightarrow> u32 \<Rightarrow> rate_limit_info option \<Rightarrow> response" where
  "map_success_response al now iport secs info =
     Resp_Map (proto_to_wire (alloc_proto al)) RC_Success secs iport (external_port al)
       (saturate_u32 (as_secs (expires_at al - now))) info"

fun failure_code :: "natpmp_error \<Rightarrow> result_code \<times> rate_limit_info option" where
  "failure_code (RateLimited _ retry) =
     (RC_RateLimited, Some \<lparr>attempts_remaining = 0, window_reset_secs = retry\<rparr>)"
| "failure_code Exhausted = (RC_OutOfResources, None)"
| "failure_code (QuotaExceeded _) = (RC_OutOfResources, None)"
| "failure_code (SuggestedPortInUse _) = (RC_SuggestedPortUnavailable, None)"
| "failure_code (NotAuthorized _) = (RC_NotAuthorized, None)"
| "failure_code (Backend _) = (RC_NetworkFailure, None)"

definition map_failure_response :: "map_proto \<Rightarrow> u16 \<Rightarrow> natpmp_error \<Rightarrow> u32 \<Rightarrow> response" where
  "map_failure_response p iport err secs =
     Resp_Map p (fst (failure_code err)) secs iport 0 0 (snd (failure_code err))"

definition error_response :: "u8 list \<Rightarrow> result_code \<Rightarrow> u32 \<Rightarrow> response" where
  "error_response frame rc secs =
     (if length frame \<ge> 2 \<and> frame ! 0 = NATPMP_VERSION \<and> frame ! 1 = 1 then Resp_Map MP_Udp rc secs 0 0 0 None
      else if length frame \<ge> 2 \<and> frame ! 0 = NATPMP_VERSION \<and> frame ! 1 = 2 then Resp_Map MP_Tcp rc secs 0 0 0 None
      else Resp_ExternalAddress rc secs 0)"

section \<open>Serving a request\<close>

text \<open>The credential gate: the credential to bind on success, or the response that refuses.\<close>

definition credential_gate ::
  "'b server \<Rightarrow> ipv4 \<Rightarrow> u8 list \<Rightarrow> map_proto \<Rightarrow> u16 \<Rightarrow> u32 \<Rightarrow> response + u8 list option" where
  "credential_gate s src frame p iport secs =
     (case credential_authority s of
        None \<Rightarrow> Inr None
      | Some authority \<Rightarrow>
          let refused = map_failure_response p iport (NotAuthorized src) secs
          in case credential_trailer frame of
               Some credential \<Rightarrow>
                 (case present authority src credential of
                    Some Grant \<Rightarrow> Inr (Some credential)
                  | Some Refuse \<Rightarrow> Inl refused
                  | None \<Rightarrow> Inl (error_response frame RC_NetworkFailure secs))
             | None \<Rightarrow> if requires_credential authority then Inl refused else Inr None)"

definition serve_delete ::
  "'b port_forwarding \<Rightarrow> 'b server \<Rightarrow> request_env \<Rightarrow> u8 list \<Rightarrow> ipv4 \<Rightarrow> map_proto \<Rightarrow> u16 \<Rightarrow> u32 \<Rightarrow>
    'b server \<times> response" where
  "serve_delete ops s e frame src p iport secs =
     (if \<not> slot_in_time e then (s, error_response frame RC_NetworkFailure secs)
      else case op_release_by_client ops (backend s) (operation e) src iport (proto_from_wire p) of
        (b, released) \<Rightarrow>
          let s1 = s\<lparr>backend := b\<rparr>
          in case (delivered e, released) of
               (In_Time, Inr found) \<Rightarrow>
                 (if found \<and> credential_authority s \<noteq> None
                  then s1\<lparr>notices := notices s @ [On_released_by_client src]\<rparr> else s1,
                  Resp_Map p RC_Success secs iport iport 0 None)
             | _ \<Rightarrow> (s1, error_response frame RC_NetworkFailure secs))"

definition serve_map ::
  "'b port_forwarding \<Rightarrow> 'b server \<Rightarrow> request_env \<Rightarrow> u8 list \<Rightarrow> ipv4 \<Rightarrow> map_proto \<Rightarrow> u16 \<Rightarrow> u16 \<Rightarrow> u32 \<Rightarrow> u32 \<Rightarrow>
    'b server \<times> response" where
  "serve_map ops s e frame src p iport sug lifetime_secs secs =
     (case credential_gate s src frame p iport secs of
        Inl resp \<Rightarrow> (s, resp)
      | Inr granted_credential \<Rightarrow>
          let lifetime = from_secs (unat (max 60 (min 3600 lifetime_secs)))
          in if \<not> slot_in_time e then (s, error_response frame RC_NetworkFailure secs)
          else case op_allocate ops (backend s) (operation e) src (proto_from_wire p) iport sug lifetime of
            (b, result) \<Rightarrow>
              let s1 = s\<lparr>backend := b, notices := notices s @
                    (case (result, granted_credential) of
                       (Inr al, Some credential) \<Rightarrow> [On_granted credential al] | _ \<Rightarrow> [])\<rparr>;
                  timed_out = map_failure_response p iport (Backend ''allocate timed out'') secs
              in case delivered e of
                   In_Time \<Rightarrow>
                     (case result of
                        Inl err \<Rightarrow> (s1, map_failure_response p iport err secs)
                      | Inr al \<Rightarrow>
                          (case op_rate_limit_status ops b (replying e) src of
                             (b1, info) \<Rightarrow>
                               (s1\<lparr>backend := b1\<rparr>,
                                map_success_response al (env_now (replying e)) iport secs (Some info))))
                 | Too_Late \<Rightarrow>
                     (case result of
                        Inl _ \<Rightarrow> (s1, timed_out)
                      | Inr al \<Rightarrow> (s1\<lparr>backend := fst (op_release ops b (rollback e) al)\<rparr>, timed_out))
                 | Unread \<Rightarrow> (s1, timed_out))"

definition dispatch ::
  "'b port_forwarding \<Rightarrow> 'b server \<Rightarrow> request_env \<Rightarrow> u8 list \<Rightarrow> source_addr \<Rightarrow> 'b server \<times> response" where
  "dispatch ops s e frame src =
     (let secs = epoch_secs s (started_at e)
      in case src of
           V6 \<Rightarrow> (s, error_response frame RC_NotAuthorized secs)
         | V4 src_v4 \<Rightarrow>
             if \<not> auth_filter s src_v4 then (s, error_response frame RC_NotAuthorized secs)
             else case parse_request frame of
               Inl (PE_UnsupportedVersion _) \<Rightarrow> (s, error_response frame RC_UnsupportedVersion secs)
             | Inl (PE_UnsupportedOpcode _) \<Rightarrow> (s, error_response frame RC_UnsupportedOpcode secs)
             | Inl (PE_TooShort _ _) \<Rightarrow> (s, error_response frame RC_UnsupportedOpcode secs)
             | Inr Req_ExternalAddress \<Rightarrow> (s, Resp_ExternalAddress RC_Success secs (public_ip s))
             | Inr (Req_Map p iport sug lifetime_secs) \<Rightarrow>
                 if lifetime_secs = 0 then serve_delete ops s e frame src_v4 p iport secs
                 else serve_map ops s e frame src_v4 p iport sug lifetime_secs secs)"

text \<open>The receive buffer holds a Map request with the longest credential; a longer datagram is cut.\<close>

definition recv_frame :: "u8 list \<Rightarrow> u8 list" where
  "recv_frame datagram = take (MAP_REQUEST_LEN + 4 + MAX_CREDENTIAL_LEN) datagram"

definition handle_one ::
  "'b port_forwarding \<Rightarrow> 'b server \<Rightarrow> request_env \<Rightarrow> u8 list \<Rightarrow> source_addr \<Rightarrow> 'b server \<times> u8 list" where
  "handle_one ops s e frame src =
     (case dispatch ops s e frame src of (s', response) \<Rightarrow> (s', serialize_response response))"

definition bind_server :: "'b \<Rightarrow> ipv4 \<Rightarrow> instant \<Rightarrow> 'b server" where
  "bind_server b ip now =
     \<lparr>backend = b, public_ip = ip, epoch = now, auth_filter = in_tunnel_pool, credential_authority = None,
      notices = []\<rparr>"

definition with_credential_authority :: "'b server \<Rightarrow> credential_authority \<Rightarrow> 'b server" where
  "with_credential_authority s authority = s\<lparr>credential_authority := Some authority\<rparr>"

section \<open>The outcomes of a request\<close>

lemma error_response_code [simp]: "resp_result_code (error_response frame rc secs) = rc"
  by (simp add: error_response_def)

lemma map_failure_not_success [simp]: "resp_result_code (map_failure_response p iport err secs) \<noteq> RC_Success"
  by (cases err) (simp_all add: map_failure_response_def)

lemma gate_refusal:
  assumes "credential_gate s src frame p iport secs = Inl resp"
  shows "resp_result_code resp \<in> {RC_NotAuthorized, RC_NetworkFailure}"
  using assms by (auto simp: credential_gate_def Let_def map_failure_response_def
      split: option.splits credential_verdict.splits if_splits)

lemma proto_wire_inverse [simp]: "proto_to_wire (proto_from_wire p) = p" "proto_from_wire (proto_to_wire q) = q"
  by (cases p; simp) (cases q; simp)

abbreviation map_lifetime :: "u32 \<Rightarrow> duration" where
  "map_lifetime life \<equiv> from_secs (unat (max 60 (min 3600 life)))"

text \<open>The clamp of the server and the one of the allocator agree.\<close>

lemma lifetime_clamped_once: "clamp_lifetime (as_lifetime_secs (map_lifetime life)) = map_lifetime life"
proof -
  have "unat (max 60 (min 3600 life)) < 2 ^ 32"
    using unsigned_less [of "max 60 (min 3600 life)"] by simp
  then have "as_lifetime_secs (map_lifetime life) = max 60 (min 3600 life)"
    by (simp add: as_lifetime_secs_def saturate_u32_def)
  then show ?thesis
    by (simp add: clamp_lifetime_def)
qed

lemma serve_map_cases:
  assumes "serve_map bops s e frame src p iport sug life secs = (s', resp)"
  obtains
    (refused) "credential_gate s src frame p iport secs = Inl resp" "s' = s"
  | (no_slot) "\<not> slot_in_time e" "resp = error_response frame RC_NetworkFailure secs" "s' = s"
  | (failed) b err err' where
      "op_allocate bops (backend s) (operation e) src (proto_from_wire p) iport sug (map_lifetime life) = (b, Inl err)"
      "backend s' = b" "notices s' = notices s" "resp = map_failure_response p iport err' secs"
  | (success) cred b al b1 info where "credential_gate s src frame p iport secs = Inr cred" "delivered e = In_Time"
      "op_allocate bops (backend s) (operation e) src (proto_from_wire p) iport sug (map_lifetime life) = (b, Inr al)"
      "op_rate_limit_status bops b (replying e) src = (b1, info)" "backend s' = b1"
      "resp = map_success_response al (env_now (replying e)) iport secs (Some info)"
      "notices s' = notices s @ (case cred of None \<Rightarrow> [] | Some c \<Rightarrow> [On_granted c al])"
  | (late) b al where "delivered e = Too_Late"
      "op_allocate bops (backend s) (operation e) src (proto_from_wire p) iport sug (map_lifetime life) = (b, Inr al)"
      "backend s' = fst (op_release bops b (rollback e) al)"
      "resp = map_failure_response p iport (Backend ''allocate timed out'') secs"
  | (unread) b al where "delivered e = Unread"
      "op_allocate bops (backend s) (operation e) src (proto_from_wire p) iport sug (map_lifetime life) = (b, Inr al)"
      "backend s' = b" "resp = map_failure_response p iport (Backend ''allocate timed out'') secs"
proof (cases "credential_gate s src frame p iport secs")
  case (Inl r)
  have "r = resp" "s' = s"
    using assms unfolding serve_map_def Inl by simp_all
  with Inl show ?thesis by (intro refused) simp_all
next
  case gate: (Inr cred)
  obtain b r where a: "op_allocate bops (backend s) (operation e) src (proto_from_wire p) iport sug (map_lifetime life) = (b, r)"
    by fastforce
  obtain b1 info where st: "op_rate_limit_status bops b (replying e) src = (b1, info)" by fastforce
  note run = assms [unfolded serve_map_def gate a sum.case prod.case Let_def st]
  consider (slot) "\<not> slot_in_time e" | (err) err where "slot_in_time e" "r = Inl err"
    | (alloc) al where "slot_in_time e" "r = Inr al" by (cases r) auto
  then show ?thesis
  proof cases
    case slot
    with run show ?thesis by (intro no_slot) simp_all
  next
    case (err err)
    show ?thesis
      by (rule failed [OF a [unfolded err(2)], of "if delivered e = In_Time then err else Backend ''allocate timed out''"])
        (use run err in \<open>auto split: delivery.splits\<close>)
  next
    case (alloc al)
    note a = a [unfolded alloc(2)] and run = run [unfolded alloc(2)]
    show ?thesis
    proof (cases "delivered e")
      case In_Time
      show ?thesis
        by (rule success [OF gate In_Time a st]) (use run alloc In_Time in \<open>auto split: option.splits\<close>)
    next
      case Too_Late
      show ?thesis by (rule late [OF Too_Late a]) (use run alloc Too_Late in auto)
    next
      case Unread
      show ?thesis by (rule unread [OF Unread a]) (use run alloc Unread in auto)
    qed
  qed
qed

lemma dispatch_map:
  assumes "auth_filter s src" and "parse_request frame = Inr (Req_Map p iport sug life)"
  shows "dispatch bops s e frame (V4 src) =
    (if life = 0 then serve_delete bops s e frame src p iport (epoch_secs s (started_at e))
     else serve_map bops s e frame src p iport sug life (epoch_secs s (started_at e)))"
  using assms by (simp add: dispatch_def Let_def)

section \<open>What holds for every backend\<close>

text \<open>At most one mapping is gone, and it is the one of this client, internal port and protocol.\<close>

definition removes_own ::
  "ipv4 \<Rightarrow> u16 \<Rightarrow> proto \<Rightarrow> (slot, allocation) hmap \<Rightarrow> (slot, allocation) hmap \<Rightarrow> bool" where
  "removes_own src iport p m m' \<longleftrightarrow> m' = m \<or>
     (\<exists>k al. hm_get m k = Some al \<and> internal_ip al = src \<and> internal_port al = iport \<and> alloc_proto al = p
        \<and> (\<forall>j. hm_get m' j = (if j = k then None else hm_get m j)))"

context forwarding_backend
begin

abbreviation ops where
  "ops \<equiv> \<lparr>op_allocate = allocate, op_release = release, op_release_by_client = release_by_client,
     op_rate_limit_status = rate_limit_status\<rparr>"

lemma served_map_truthful:
  assumes "serve_map ops s e frame src p iport sug life secs = (s', resp)" and "resp_result_code resp = RC_Success"
    and "quiet (operation e)" and "ok (backend s)"
  obtains al b info where "allocate (backend s) (operation e) src (proto_from_wire p) iport sug (map_lifetime life) = (b, Inr al)"
    "rate_limit_status b (replying e) src = (backend s', info)"
    "resp = Resp_Map p RC_Success secs iport (external_port al)
       (saturate_u32 (as_secs (expires_at al - env_now (replying e)))) (Some info)"
    "hm_get (mappings (backend s')) (external_port al, proto_from_wire p) = Some al" "ok (backend s')"
    "internal_ip al = src" "internal_port al = iport"
    "expires_at al = env_now (operation e) + map_lifetime life"
  using assms(1)
proof (cases rule: serve_map_cases)
  case (success cred b al b1 info)
  have a: "allocate (backend s) (operation e) src (proto_from_wire p) iport sug (map_lifetime life) = (b, Inr al)"
    and st: "rate_limit_status b (replying e) src = (b1, info)"
    using success by simp_all
  have "ok b" by (rule allocate_ok [OF assms(3,4) a])
  note g = allocate_grants [OF assms(3,4) a] and m = status_reads [OF \<open>ok b\<close> st]
  show thesis
  proof (rule that [OF a])
    show "rate_limit_status b (replying e) src = (backend s', info)" using st success by simp
    show "resp = Resp_Map p RC_Success secs iport (external_port al)
       (saturate_u32 (as_secs (expires_at al - env_now (replying e)))) (Some info)"
      using success g by (simp add: map_success_response_def)
  qed (use success g m lifetime_clamped_once in simp_all)
qed (use assms(2) in \<open>auto dest: gate_refusal\<close>)

lemma served_delete_own:
  assumes "serve_delete ops s e frame src p iport secs = (s', resp)" and "ok (backend s)"
  shows "ok (backend s')"
    "removes_own src iport (proto_from_wire p) (mappings (backend s)) (mappings (backend s'))"
proof -
  obtain b r where d: "release_by_client (backend s) (operation e) src iport (proto_from_wire p) = (b, r)" by fastforce
  have b: "backend s' = backend s \<or> backend s' = b"
    using assms(1) d by (auto simp: serve_delete_def Let_def split: if_splits delivery.splits sum.splits)
  then show "ok (backend s')" using release_by_client_ok [OF assms(2) d] assms(2) by auto
  consider err where "r = Inl err" | "r = Inr False" | "r = Inr True"
    by (metis (full_types) sum.exhaust)
  then have "removes_own src iport (proto_from_wire p) (mappings (backend s)) (mappings b)"
    using release_by_client_failed [OF assms(2)] release_by_client_none [OF assms(2)]
      release_by_client_takes [OF assms(2)] d unfolding removes_own_def by cases blast+
  with b show "removes_own src iport (proto_from_wire p) (mappings (backend s)) (mappings (backend s'))"
    by (metis removes_own_def)
qed

end

section \<open>Who is served\<close>

text \<open>
  C16: A datagram from an IPv6 source or from a source the filter does not authorise reaches no
  operation: whatever the frame and the backend, the server is unchanged, and the response is a
  refusal that reveals neither an external address nor a port.
\<close>
theorem unauthorised_source_changes_nothing:
  assumes "src = V6 \<or> (\<exists>ip. src = V4 ip \<and> \<not> auth_filter s ip)"
  shows "\<exists>resp. dispatch bops s e frame src = (s, resp) \<and> resp_result_code resp = RC_NotAuthorized
    \<and> (\<forall>rc secs ip. resp = Resp_ExternalAddress rc secs ip \<longrightarrow> ip = 0)
    \<and> (\<forall>p rc secs iport ext life info. resp = Resp_Map p rc secs iport ext life info \<longrightarrow>
         iport = 0 \<and> ext = 0 \<and> life = 0 \<and> info = None)"
  using assms by (auto simp: dispatch_def Let_def error_response_def)

text \<open>
  C15: The credential gate fails closed. With an authority configured, a request for a mapping that
  carries no granted credential (it carries one that is refused or not answered in time, or none
  although the authority requires one) allocates nothing, binds nothing, and is answered with a
  failure.
\<close>
theorem credential_gate_fails_closed:
  assumes "credential_authority s = Some authority" and "auth_filter s ip"
    and "parse_request frame = Inr (Req_Map p iport sug life)" and "life \<noteq> 0"
    and "case credential_trailer frame of
           Some credential \<Rightarrow> present authority ip credential \<noteq> Some Grant
         | None \<Rightarrow> requires_credential authority"
  shows "\<exists>resp. dispatch bops s e frame (V4 ip) = (s, resp)
    \<and> resp_result_code resp \<in> {RC_NotAuthorized, RC_NetworkFailure}"
proof -
  let ?secs = "epoch_secs s (started_at e)"
  have "\<exists>resp. credential_gate s ip frame p iport ?secs = Inl resp"
    using assms(1,5) by (auto simp: credential_gate_def Let_def split: option.splits credential_verdict.splits)
  then obtain resp where g: "credential_gate s ip frame p iport ?secs = Inl resp" ..
  have "dispatch bops s e frame (V4 ip) = (s, resp)"
    by (simp add: dispatch_map [OF assms(2,3)] assms(4) serve_map_def g)
  with gate_refusal [OF g] show ?thesis by blast
qed

section \<open>The server over nftables\<close>

definition nft_ops :: "'k runner \<Rightarrow> 'k nftables_backend port_forwarding" where
  "nft_ops run = \<lparr>op_allocate = nft_allocate run, op_release = nft_release run,
     op_release_by_client = nft_release_by_client run, op_rate_limit_status = nft_rate_limit_status\<rparr>"

definition stub_ops :: "allocator port_forwarding" where
  "stub_ops = \<lparr>op_allocate = stub_allocate, op_release = stub_release,
     op_release_by_client = stub_release_by_client, op_rate_limit_status = stub_rate_limit_status\<rparr>"

lemma nft_status_kernel: "nft_rate_limit_status b e c = (b', info) \<Longrightarrow> nb_kernel b' = nb_kernel b"
  by (auto simp: nft_rate_limit_status_def split: prod.splits)

lemma mapping_answered:
  assumes "nft_contract run dnat (nb_table (backend s))" and "inner_inv (inner (nb_allocator (backend s)))"
    and "quiet (operation e)" and "env_now (operation e) \<le> env_now (replying e)"
    and "frame = serialize_request (Req_Map p iport sug life) @ trailer" and "life \<noteq> 0"
    and "auth_filter s ip" and "handle_one (nft_ops run) s e frame (V4 ip) = (s', bytes)"
    and "parse_response bytes = Inr resp" and "resp_result_code resp = RC_Success"
  shows "\<exists>ext left info al. resp = Resp_Map p RC_Success (epoch_secs s (started_at e)) iport ext left (Some info)
    \<and> hm_get (active (inner (nb_allocator (backend s')))) (ext, proto_from_wire p) = Some al
    \<and> internal_ip al = ip \<and> internal_port al = iport
    \<and> dnat (nb_kernel (backend s')) (proto_from_wire p) ext = Some (ip, if iport = 0 then ext else iport)
    \<and> unat left = as_secs (expires_at al - env_now (replying e)) \<and> unat left \<le> 3600"
proof -
  obtain r where d: "dispatch (nft_ops run) s e frame (V4 ip) = (s', r)" and bytes: "bytes = serialize_response r"
    using assms(8) by (auto simp: handle_one_def split: prod.splits)
  have "r = resp" using assms(9) parse_serialize_response_append [of r "[]"] by (cases r; cases "resp_rate_limit r") (simp_all add: bytes)
  have "parse_request frame = Inr (Req_Map p iport sug life)"
    by (simp only: assms(5) parse_serialize_request_append)
  with d assms(6,7) \<open>r = resp\<close> have m: "serve_map (nft_ops run) s e frame ip p iport sug life
      (epoch_secs s (started_at e)) = (s', resp)"
    by (simp add: dispatch_map)
  from m [unfolded nft_ops_def] assms(10,3,2) show ?thesis
  proof (rule nft.served_map_truthful)
    fix al b info
    assume al: "nft_allocate run (backend s) (operation e) ip (proto_from_wire p) iport sug (map_lifetime life) = (b, Inr al)"
      "nft_rate_limit_status b (replying e) ip = (backend s', info)"
      "resp = Resp_Map p RC_Success (epoch_secs s (started_at e)) iport (external_port al)
         (saturate_u32 (as_secs (expires_at al - env_now (replying e)))) (Some info)"
      "hm_get (nb_active (backend s')) (external_port al, proto_from_wire p) = Some al"
      "internal_ip al = ip" "internal_port al = iport" "expires_at al = env_now (operation e) + map_lifetime life"
    have "max 60 (min 3600 life) \<le> 3600" by simp
    then have "unat (max 60 (min 3600 life)) \<le> 3600" by (simp add: word_le_nat_alt)
    then have "expires_at al - env_now (replying e) \<le> from_secs 3600"
      using assms(4) al(7) by (auto simp: from_secs_def)
    then have "as_secs (expires_at al - env_now (replying e)) \<le> 3600"
      by (simp add: as_secs_def from_secs_def)
    moreover have "dnat (nb_kernel (backend s')) (proto_from_wire p) (external_port al)
        = Some (ip, if iport = 0 then external_port al else iport)"
      using granted_forwarded [OF assms(1,3,2) al(1)] nft_status_kernel [OF al(2)] by simp
    ultimately show ?thesis
      using al(3-6) by (intro exI conjI) (assumption | simp)+
  qed
qed

text \<open>
  What the client reads is true. When the response to a client's own Map request, sent with any
  trailing bytes and parsed by the client, reports success, then the mapping it reports is in force for
  this client, this protocol and this internal port, the kernel forwards the reported external port to
  the client, and the reported lifetime is what is left of a lifetime of at most an hour.
\<close>
theorem success_response_is_true:
  assumes "nft_contract run dnat (nb_table (backend s))" and "inner_inv (inner (nb_allocator (backend s)))"
    and "quiet (operation e)" and "env_now (operation e) \<le> env_now (replying e)"
    and "frame = serialize_request (Req_Map p iport sug life) @ trailer" and "life \<noteq> 0"
    and "auth_filter s ip" and "handle_one (nft_ops run) s e frame (V4 ip) = (s', bytes)"
    and "parse_response bytes = Inr resp" and "resp_result_code resp = RC_Success"
  shows "\<exists>ext left info al. resp = Resp_Map p RC_Success (epoch_secs s (started_at e)) iport ext left (Some info)
    \<and> hm_get (active (inner (nb_allocator (backend s')))) (ext, proto_from_wire p) = Some al
    \<and> internal_ip al = ip \<and> internal_port al = iport
    \<and> dnat (nb_kernel (backend s')) (proto_from_wire p) ext = Some (ip, if iport = 0 then ext else iport)
    \<and> unat left = as_secs (expires_at al - env_now (replying e)) \<and> unat left \<le> 3600"
  using assms by (rule mapping_answered)

text \<open>The elements of the kernel after an allocation: none is new but the one of the granted mapping.\<close>

lemma nft_allocate_opens:
  assumes "nft_contract run dnat (nb_table b)" and "nft_allocate run b e c p iport sug life = (b', r)"
    and "dnat (nb_kernel b') q ext = Some t"
  shows "dnat (nb_kernel b) q ext = Some t \<or> (\<exists>al. r = Inr al \<and> (q, ext) = (p, external_port al))"
proof -
  note c = nft_contractD(1,2) [OF assms(1)]
  obtain a out n where o: "allocate_at_collecting (nb_allocator b) (env_rng e) (env_interfere e) c p iport sug
      (as_lifetime_secs life) (env_now e) = (a, out, n)"
    by (rule nft_allocate_collects)
  let ?k = "delete_evicted run (nb_table b) (outcome_evicted out) (nb_kernel b)"
  have k: "dnat (nb_kernel b) q ext = Some t" if "dnat ?k q ext = Some t"
    using that by (simp add: delete_evicted_spec [OF c(2)] split: if_splits)
  from assms(2) o refl show ?thesis
  proof (cases rule: nft_allocate_cases)
    case (granted al k1)
    then show ?thesis
      using add_rule_spec(1) [OF c(1) granted(3), of q ext] k assms(3) by (cases "(q, ext) = (p, external_port al)") auto
  next
    case (rolled_back al k1 k2 err)
    then show ?thesis
      using add_undone [OF c rolled_back(3,4), of q ext] k assms(3) by (auto split: if_splits)
  next
    case (stuck al k1 k2 err err')
    then show ?thesis
      using add_undone [OF c stuck(3,4), of q ext] k assms(3) by (auto split: if_splits)
  qed (use k assms(3) in auto)
qed

lemma nft_release_closes:
  assumes "nft_contract run dnat (nb_table b)" and "nft_release run b e al = (b', r)"
  shows "dnat (nb_kernel b') p ext =
    (if (p, ext) = (alloc_proto al, external_port al) then None else dnat (nb_kernel b) p ext)"
proof -
  obtain k r' where d: "run (nb_kernel b) (render_delete_element (nb_table b) (alloc_proto al) (external_port al)) = (k, r')"
    by fastforce
  then have "nb_kernel b' = k" using assms(2) by (auto simp: nft_release_def split: sum.splits)
  then show ?thesis using delete_spec [OF nft_contractD(2) [OF assms(1)] d] by simp
qed

lemma nft_release_by_client_opens_none:
  assumes "nft_contract run dnat (nb_table b)" and "inner_inv (inner (nb_allocator b))"
    and "nft_release_by_client run b e c iport p = (b', r)" and "dnat (nb_kernel b') q ext = Some t"
  shows "dnat (nb_kernel b) q ext = Some t"
  using assms(3,2)
proof (cases rule: nft_release_by_client_cases)
  case (failed k err)
  then show ?thesis
    using delete_spec [OF nft_contractD(2) [OF assms(1)]] assms(4) by (auto split: if_splits)
next
  case (released al k)
  then show ?thesis
    using delete_spec [OF nft_contractD(2) [OF assms(1)] released(6)] assms(4) by (auto split: if_splits)
qed (use assms(4) in simp)

lemma dispatch_cases:
  assumes "dispatch bops s e frame src = (s', resp)"
  obtains "s' = s"
  | ip p iport sug where "src = V4 ip" "auth_filter s ip" "parse_request frame = Inr (Req_Map p iport sug 0)"
      "serve_delete bops s e frame ip p iport (epoch_secs s (started_at e)) = (s', resp)"
  | ip p iport sug life where "src = V4 ip" "auth_filter s ip" "parse_request frame = Inr (Req_Map p iport sug life)"
      "life \<noteq> 0" "serve_map bops s e frame ip p iport sug life (epoch_secs s (started_at e)) = (s', resp)"
  using assms that unfolding dispatch_def Let_def
  by (auto split: source_addr.splits if_splits sum.splits parse_error.splits request.splits)


text \<open>
  C17: A delete request touches nothing but the sender's own mapping: at most one mapping goes, it has
  the sender's address, internal port and protocol, every other mapping stays, and the allocator stays
  consistent.
\<close>
theorem delete_request_takes_only_own:
  assumes "inner_inv (inner (nb_allocator (backend s)))" and "parse_request frame = Inr (Req_Map p iport sug 0)"
    and "dispatch (nft_ops run) s e frame (V4 ip) = (s', resp)"
  shows "removes_own ip iport (proto_from_wire p) (active (inner (nb_allocator (backend s))))
      (active (inner (nb_allocator (backend s'))))
    \<and> inner_inv (inner (nb_allocator (backend s')))"
  using assms(3)
proof (cases rule: dispatch_cases)
  case (2 ip' p' iport' sug')
  then show ?thesis
    using nft.served_delete_own [OF _ assms(1)] assms(2) by (simp add: nft_ops_def)
qed (use assms(1,2) in \<open>auto simp: removes_own_def\<close>)

section \<open>A concrete deployment\<close>

definition demo_authority :: credential_authority where
  "demo_authority = \<lparr>present = (\<lambda>_ c. if c = [1] then Some Grant else Some Refuse), requires_credential = True\<rparr>"

definition demo_server :: "nft_maps nftables_backend server" where
  "demo_server = \<lparr>backend = demo_nft, public_ip = 3405803777, epoch = 0, auth_filter = (\<lambda>_. True),
     credential_authority = Some demo_authority, notices = []\<rparr>"

definition demo_request :: request_env where
  "demo_request = \<lparr>slot_in_time = True, delivered = In_Time, started_at = from_secs 10, operation = demo_env,
     rollback = demo_env, replying = demo_env\<rparr>"

abbreviation demo_map_request :: request where
  "demo_map_request \<equiv> Req_Map MP_Tcp 80 50000 600"

definition demo_frame :: "u8 list" where
  "demo_frame = serialize_request demo_map_request @ u16_to_be CREDENTIAL_TRAILER_MAGIC @ u16_to_be 1 @ [1]"

theorem unauthorised_source_changes_nothing_witness:
  "\<exists>resp. dispatch (nft_ops nft_exec) demo_server demo_request [0, 0] V6 = (demo_server, resp)
    \<and> resp_result_code resp = RC_NotAuthorized"
  using unauthorised_source_changes_nothing [of V6 demo_server "nft_ops nft_exec" demo_request "[0, 0]"] by blast

lemma demo_parses: "parse_request demo_frame = Inr demo_map_request"
  "parse_request (serialize_request demo_map_request) = Inr demo_map_request"
  using parse_serialize_request_append [of demo_map_request "[]"]
  by (simp_all only: demo_frame_def parse_serialize_request_append append_Nil2)

lemma demo_trailer: "credential_trailer (serialize_request demo_map_request) = None"
  "credential_trailer demo_frame = Some [1]"
proof -
  show "credential_trailer (serialize_request demo_map_request) = None"
    by (simp add: credential_trailer_def)
  show "credential_trailer demo_frame = Some [1]"
    using credential_trailer_appended [OF _ map_request_length, of "[1]" MP_Tcp 80 50000 600]
    by (simp add: demo_frame_def)
qed

theorem credential_gate_fails_closed_witness:
  "\<exists>resp. dispatch (nft_ops nft_exec) demo_server demo_request (serialize_request demo_map_request) (V4 167772162)
      = (demo_server, resp)
    \<and> resp_result_code resp \<in> {RC_NotAuthorized, RC_NetworkFailure}"
  by (rule credential_gate_fails_closed [OF _ _ demo_parses(2), where authority = demo_authority])
    (simp_all add: demo_server_def demo_authority_def demo_trailer del: serialize_request.simps)

lemma demo_served: "\<exists>s' info. backend s' = fst (nft_rate_limit_status demo_nft_one demo_env 167772162)
  \<and> dispatch (nft_ops nft_exec) demo_server demo_request demo_frame (V4 167772162)
    = (s', Resp_Map MP_Tcp RC_Success 10 80 50000 600 (Some info))"
proof -
  obtain b info where st: "nft_rate_limit_status demo_nft_one demo_env 167772162 = (b, info)" by fastforce
  have "credential_gate demo_server 167772162 demo_frame MP_Tcp 80 10 = Inr (Some [1])"
    by (simp add: credential_gate_def demo_server_def demo_authority_def demo_trailer)
  moreover have "map_success_response demo_al (env_now demo_env) 80 10 (Some info)
      = Resp_Map MP_Tcp RC_Success 10 80 50000 600 (Some info)"
    by (simp add: map_success_response_def demo_env_def saturate_u32_def as_secs_def from_secs_def)
  moreover have "backend demo_server = demo_nft" by (simp add: demo_server_def)
  ultimately have "\<exists>s'. backend s' = b \<and> serve_map (nft_ops nft_exec) demo_server demo_request demo_frame 167772162
      MP_Tcp 80 50000 600 10 = (s', Resp_Map MP_Tcp RC_Success 10 80 50000 600 (Some info))"
    using demo_nft_allocates(1) by (simp add: serve_map_def nft_ops_def demo_request_def st)
  moreover have "epoch_secs demo_server (from_secs 10) = 10"
    by (simp add: epoch_secs_def demo_server_def saturate_u32_def)
  ultimately show ?thesis
    using st by (auto simp: dispatch_map [OF _ demo_parses(1)] demo_server_def demo_request_def)
qed

theorem success_response_is_true_witness:
  "\<exists>s' bytes ext. handle_one (nft_ops nft_exec) demo_server demo_request demo_frame (V4 167772162) = (s', bytes)
    \<and> nft_dnat DEFAULT_TABLE (nb_kernel (backend s')) Tcp ext = Some (167772162, 80)"
proof -
  obtain s' info where d: "dispatch (nft_ops nft_exec) demo_server demo_request demo_frame (V4 167772162)
      = (s', Resp_Map MP_Tcp RC_Success 10 80 50000 600 (Some info))" (is "_ = (s', ?r)")
    using demo_served by blast
  then have h: "handle_one (nft_ops nft_exec) demo_server demo_request demo_frame (V4 167772162)
      = (s', serialize_response ?r)"
    by (simp add: handle_one_def)
  have "parse_response (serialize_response ?r) = Inr ?r"
    by (rule response_codec.roundtrip) simp
  from success_response_is_true [OF _ _ _ _ demo_frame_def _ _ h this, where dnat = "nft_dnat DEFAULT_TABLE"]
  show ?thesis
    using h demo_nft_inv(1) demo_quiet nft_exec_contract(1) [OF demo_table]
    by (auto simp: demo_server_def demo_request_def demo_nft_def)
qed


theorem delete_request_takes_only_own_witness:
  "removes_own 167772162 80 Tcp (active (inner (nb_allocator demo_nft_one)))
     (active (inner (nb_allocator (backend (fst (dispatch (nft_ops nft_exec) (demo_server\<lparr>backend := demo_nft_one\<rparr>)
        demo_request (serialize_request (Req_Map MP_Tcp 80 0 0)) (V4 167772162)))))))"
proof -
  let ?s = "demo_server\<lparr>backend := demo_nft_one\<rparr>" and ?f = "serialize_request (Req_Map MP_Tcp 80 0 0)"
  obtain s' resp where d: "dispatch (nft_ops nft_exec) ?s demo_request ?f (V4 167772162) = (s', resp)"
    by fastforce
  have "parse_request ?f = Inr (Req_Map MP_Tcp 80 0 0)"
    using parse_serialize_request_append [of "Req_Map MP_Tcp 80 0 0" "[]"] by (simp only: append_Nil2)
  from delete_request_takes_only_own [OF _ this d] demo_nft_inv(2) show ?thesis
    unfolding d by simp
qed

end
