(* ===== verification/Natpmp_Client.thy ===== *)
theory Natpmp_Client
  imports Natpmp_Wire
begin

text \<open>
  The NAT-PMP client of \<^verbatim>\<open>crates/warrenguard-natpmp-client\<close>: the one-shot request with its retries
  (\<^verbatim>\<open>lib.rs\<close>) and the refresh loop that keeps a forward alive (\<^verbatim>\<open>refresh.rs\<close>).

  The network is a parameter: what happens to each attempt of a request, and how each request of the
  loop is answered. The loop itself is a function of these answers; cancellation can strike wherever
  the code awaits, which an answer \<open>None\<close> or a cancelled sleep stands for. Seconds are natural numbers
  where the code uses \<open>u32\<close> values far below its range, and words where values come from the wire.
\<close>

section \<open>One request\<close>

record natpmp_mapping =
  m_proto :: map_proto
  m_internal_port :: u16
  m_external_port :: u16
  m_lifetime_secs :: u32
  m_epoch_secs :: u32
  m_rate_limit :: "rate_limit_info option"

datatype client_error =
    CE_Io
  | CE_Timeout
  | CE_Parse parse_error
  | CE_Server result_code
  | CE_RateLimited u16
  | CE_UnexpectedOpcode

definition DEFAULT_MAX_ATTEMPTS :: nat where "DEFAULT_MAX_ATTEMPTS = 5"
definition INITIAL_TIMEOUT_MS :: nat where "INITIAL_TIMEOUT_MS = 250"

text \<open>What becomes of one attempt: the send fails, the receive fails, nothing arrives, a datagram arrives.\<close>

datatype net_event = Send_Failed | Recv_Failed | No_Answer | Datagram "u8 list"

definition request_bytes :: "request \<Rightarrow> u8 list option \<Rightarrow> u8 list" where
  "request_bytes req credential =
     (case credential of
        None \<Rightarrow> serialize_request req
      | Some c \<Rightarrow>
          (case append_credential_trailer (serialize_request req) c of
             Inl _ \<Rightarrow> serialize_request req
           | Inr bytes \<Rightarrow> bytes))"

definition read_response :: "u8 list \<Rightarrow> client_error + natpmp_mapping" where
  "read_response buf =
     (case parse_response buf of
        Inl e \<Rightarrow> Inl (CE_Parse e)
      | Inr (Resp_Map p rc secs iport ext life info) \<Rightarrow>
          if rc = RC_Success then
            Inr \<lparr>m_proto = p, m_internal_port = iport, m_external_port = ext, m_lifetime_secs = life,
                 m_epoch_secs = secs, m_rate_limit = info\<rparr>
          else if rc = RC_RateLimited then
            Inl (CE_RateLimited (case info of None \<Rightarrow> 0 | Some i \<Rightarrow> window_reset_secs i))
          else Inl (CE_Server rc)
      | Inr (Resp_ExternalAddress _ _ _) \<Rightarrow> Inl CE_UnexpectedOpcode)"

text \<open>
  The loop over the attempts, \<open>left\<close> of them to go: the timeout doubles and saturates at the width of
  \<open>u64\<close>. The second component lists the timeouts waited out. The receive buffer has 64 bytes.
\<close>

fun attempt_loop ::
  "(nat \<Rightarrow> net_event) \<Rightarrow> nat \<Rightarrow> nat \<Rightarrow> nat \<Rightarrow> (client_error + natpmp_mapping) \<times> nat list" where
  "attempt_loop net attempt 0 timeout_ms = (Inl CE_Timeout, [])"
| "attempt_loop net attempt (Suc left) timeout_ms =
     (case net attempt of
        Send_Failed \<Rightarrow> (Inl CE_Io, [])
      | Recv_Failed \<Rightarrow> (Inl CE_Io, [])
      | Datagram bytes \<Rightarrow> (read_response (take 64 bytes), [])
      | No_Answer \<Rightarrow>
          if left = 0 then (Inl CE_Timeout, [timeout_ms])
          else case attempt_loop net (Suc attempt) left (min (2 * timeout_ms) (2 ^ 64 - 1)) of
            (r, waited) \<Rightarrow> (r, timeout_ms # waited))"

text \<open>
  \<open>None\<close> is the panic on zero attempts. The network answers each attempt with the same frame; a socket
  that cannot be opened is a failed first send, which ends the call with the same error.
\<close>

definition request_map_with_credential ::
  "(u8 list \<Rightarrow> nat \<Rightarrow> net_event) \<Rightarrow> map_proto \<Rightarrow> u16 \<Rightarrow> u16 \<Rightarrow> u32 \<Rightarrow> nat \<Rightarrow> u8 list option \<Rightarrow>
    ((client_error + natpmp_mapping) \<times> nat list) option" where
  "request_map_with_credential net p iport sug life max_attempts credential =
     (if max_attempts = 0 then None
      else Some (attempt_loop (net (request_bytes (Req_Map p iport sug life) credential)) 1 max_attempts
        INITIAL_TIMEOUT_MS))"

definition request_map ::
  "(u8 list \<Rightarrow> nat \<Rightarrow> net_event) \<Rightarrow> map_proto \<Rightarrow> u16 \<Rightarrow> u16 \<Rightarrow> u32 \<Rightarrow>
    ((client_error + natpmp_mapping) \<times> nat list) option" where
  "request_map net p iport sug life = request_map_with_credential net p iport sug life DEFAULT_MAX_ATTEMPTS None"

lemma attempt_loop_spec:
  assumes "left > 0" and "t * 2 ^ left \<le> 2 ^ 64" and "attempt_loop net a left t = (r, waited)"
  shows "\<exists>k \<le> left. (\<forall>i < k. net (a + i) = No_Answer) \<and> waited = map (\<lambda>i. t * 2 ^ i) [0..<k]
    \<and> (if k = left then r = Inl CE_Timeout
       else (case net (a + k) of Datagram bytes \<Rightarrow> r = read_response (take 64 bytes)
             | No_Answer \<Rightarrow> False | _ \<Rightarrow> r = Inl CE_Io))"
  using assms
proof (induction net a left t arbitrary: r waited rule: attempt_loop.induct)
  case (2 net a left t)
  show ?case
  proof (cases "net a = No_Answer \<and> left \<noteq> 0")
    case False
    show ?thesis
    proof (cases "net a = No_Answer")
      case True
      then show ?thesis using False "2.prems" by (intro exI [of _ 1]) auto
    next
      case False
      then show ?thesis using "2.prems" by (intro exI [of _ 0]) (auto split: net_event.splits)
    qed
  next
    case True
    have le: "2 * t * 2 ^ left \<le> 2 ^ 64" using "2.prems"(2) by (simp add: algebra_simps)
    obtain l where l: "left = Suc l" using True by (cases left) auto
    have "t * 2 ^ l \<le> 4611686018427387904" using le l by simp
    moreover have "t * 1 \<le> t * 2 ^ l" by (rule mult_le_mono2) simp
    ultimately have "t \<le> 4611686018427387904" by linarith
    then have "2 * t < 2 ^ 64" by simp
    then have m: "min (2 * t) (2 ^ 64 - 1) = 2 * t" by simp
    obtain w where w: "attempt_loop net (Suc a) left (2 * t) = (r, w)" "waited = t # w"
      using "2.prems"(3) True m by (auto split: prod.splits)
    from "2.IH" [OF _ _, unfolded m, OF _ _ _ le w(1)] True obtain k where
      k: "k \<le> left" "\<forall>i < k. net (Suc a + i) = No_Answer" "w = map (\<lambda>i. 2 * t * 2 ^ i) [0..<k]"
      "if k = left then r = Inl CE_Timeout
       else (case net (Suc a + k) of Datagram bytes \<Rightarrow> r = read_response (take 64 bytes)
             | No_Answer \<Rightarrow> False | _ \<Rightarrow> r = Inl CE_Io)" by auto
    have "waited = map (\<lambda>i. t * 2 ^ i) [0..<Suc k]"
      unfolding w(2) k(3) by (subst upt_conv_Cons) (simp_all add: map_Suc_upt [symmetric] comp_def algebra_simps del: upt_Suc map_Suc_upt)
    moreover have "\<forall>i < Suc k. net (a + i) = No_Answer"
      using True k(2) by (auto simp: less_Suc_eq_0_disj)
    ultimately show ?thesis
      using k(1,4) by (intro exI [of _ "Suc k"]) (auto simp del: upt_Suc)
  qed
qed simp

lemma request_map_decided:
  assumes "0 < n" and "n \<le> 56"
    and "frame = request_bytes (Req_Map p iport sug life) credential"
    and "request_map_with_credential net p iport sug life n credential = Some (r, waited)"
  shows "\<exists>k \<le> n. (\<forall>i < k. net frame (1 + i) = No_Answer) \<and> sum_list waited = 250 * (2 ^ k - 1)
    \<and> (if k = n then r = Inl CE_Timeout
       else (case net frame (1 + k) of Datagram bytes \<Rightarrow> r = read_response (take 64 bytes)
             | No_Answer \<Rightarrow> False | _ \<Rightarrow> r = Inl CE_Io))"
proof -
  have "(2 :: nat) ^ n \<le> 2 ^ 56" using assms(2) by (intro power_increasing) auto
  then have "250 * 2 ^ n \<le> (2 :: nat) ^ 64" by simp
  moreover have "attempt_loop (net frame) 1 n 250 = (r, waited)"
    using assms(1,3,4) by (simp add: request_map_with_credential_def INITIAL_TIMEOUT_MS_def)
  ultimately obtain k where k: "k \<le> n" "\<forall>i < k. net frame (1 + i) = No_Answer"
    "waited = map (\<lambda>i. 250 * 2 ^ i) [0..<k]"
    "if k = n then r = Inl CE_Timeout
       else (case net frame (1 + k) of Datagram bytes \<Rightarrow> r = read_response (take 64 bytes)
             | No_Answer \<Rightarrow> False | _ \<Rightarrow> r = Inl CE_Io)"
    using attempt_loop_spec [OF assms(1)] by blast
  have "sum_list (map (\<lambda>i. 250 * 2 ^ i) [0..<k]) = 250 * (2 ^ k - 1 :: nat)"
    by (induction k) (simp_all add: algebra_simps)
  with k show ?thesis by blast
qed

text \<open>
  A request ends, after at most the given number of attempts and a bounded wait: the first k
  attempts went unanswered for 250 ms, 500 ms, 1 s and so on, and either they were all of them and the
  result is a timeout, or the next attempt decided it and no further attempt was made.
\<close>
theorem request_map_outcome:
  assumes "0 < n" and "n \<le> 56"
    and "frame = request_bytes (Req_Map p iport sug life) credential"
  shows "\<exists>r waited k. request_map_with_credential net p iport sug life n credential = Some (r, waited)
    \<and> k \<le> n \<and> (\<forall>i < k. net frame (1 + i) = No_Answer) \<and> sum_list waited = 250 * (2 ^ k - 1)
    \<and> (if k = n then r = Inl CE_Timeout
       else (case net frame (1 + k) of Datagram bytes \<Rightarrow> r = read_response (take 64 bytes)
             | No_Answer \<Rightarrow> False | _ \<Rightarrow> r = Inl CE_Io))"
proof -
  obtain r waited where r: "request_map_with_credential net p iport sug life n credential = Some (r, waited)"
    using assms(1) by (simp add: request_map_with_credential_def) (metis surj_pair)
  from request_map_decided [OF assms r] show ?thesis using r by blast
qed

theorem request_map_outcome_witness:
  "\<exists>r waited. request_map (\<lambda>_ _. No_Answer) MP_Tcp 80 0 600 = Some (r, waited) \<and> r = Inl CE_Timeout
    \<and> sum_list waited = 7750"
proof -
  from request_map_outcome [where n = 5 and p = MP_Tcp and iport = 80 and sug = 0 and life = 600 and credential = None
      and net = "\<lambda>_ _. No_Answer", OF _ _ refl]
  obtain r waited k where "request_map_with_credential (\<lambda>_ _. No_Answer) MP_Tcp 80 0 600 5 None = Some (r, waited)"
    "k = 5" "sum_list waited = 250 * (2 ^ k - 1)" "r = Inl CE_Timeout"
    by (force split: if_splits)
  then show ?thesis by (simp add: request_map_def DEFAULT_MAX_ATTEMPTS_def)
qed

section \<open>The refresh loop\<close>

datatype suggestion_kind = Pinned | Sticky

datatype forward_protos = FP_Udp | FP_Tcp | FP_Both

fun legs :: "forward_protos \<Rightarrow> map_proto list" where
  "legs FP_Udp = [MP_Udp]"
| "legs FP_Tcp = [MP_Tcp]"
| "legs FP_Both = [MP_Udp, MP_Tcp]"

definition MIN_LIFETIME_FOR_REFRESH :: nat where "MIN_LIFETIME_FOR_REFRESH = 2"
definition INITIAL_BACKOFF_SECS :: nat where "INITIAL_BACKOFF_SECS = 5"
definition MAX_BACKOFF_SECS :: nat where "MAX_BACKOFF_SECS = 60"
definition MAX_INITIAL_MAP_ATTEMPTS :: nat where "MAX_INITIAL_MAP_ATTEMPTS = 3"
definition PINNED_CONFLICT_RETRY_WINDOW_SECS :: nat where "PINNED_CONFLICT_RETRY_WINDOW_SECS = 600"
definition PINNED_CONFLICT_MAX_BACKOFF_SECS :: nat where "PINNED_CONFLICT_MAX_BACKOFF_SECS = 30"

definition pinned_conflict_retry_delay :: "nat \<Rightarrow> nat option" where
  "pinned_conflict_retry_delay waited =
     (if waited < PINNED_CONFLICT_RETRY_WINDOW_SECS
      then Some (max 1 (min PINNED_CONFLICT_MAX_BACKOFF_SECS waited)) else None)"

definition epoch_indicates_restart :: "u32 \<Rightarrow> u32 \<Rightarrow> bool" where
  "epoch_indicates_restart prev new \<longleftrightarrow> new < prev"

datatype failure_reason = FR_SuggestedPortInUse | FR_OutOfResources | FR_NotAuthorized | FR_Other

fun from_client_error :: "client_error \<Rightarrow> failure_reason" where
  "from_client_error (CE_Server RC_SuggestedPortUnavailable) = FR_SuggestedPortInUse"
| "from_client_error (CE_Server RC_OutOfResources) = FR_OutOfResources"
| "from_client_error (CE_Server RC_NotAuthorized) = FR_NotAuthorized"
| "from_client_error _ = FR_Other"

datatype natpmp_event =
    Ev_Mapped u16 u32 "u8 option" u16
  | Ev_Renewed u16 u32 "u8 option" u16
  | Ev_RateLimited u16
  | Ev_Failed client_error failure_reason
  | Ev_Cancelled

record refresh_config =
  rc_protos :: forward_protos
  rc_suggested :: u16
  rc_suggestion :: suggestion_kind

text \<open>What survives from one cycle to the next.\<close>

record loop_state =
  suggested_port :: u16
  is_first :: bool
  initial_transient_failures :: nat
  backoff_secs :: nat
  pinned_conflict_waited :: nat
  last_epoch_secs :: "u32 option"

text \<open>What one cycle gathers over its legs.\<close>

record cycle_acc =
  granted_this_cycle :: "map_proto list"
  pair_port :: u16
  min_lifetime :: u32
  acc_external_port :: u16
  acc_rate_limit :: "rate_limit_info option"
  acc_epoch_secs :: u32

definition initial_state :: "refresh_config \<Rightarrow> loop_state" where
  "initial_state cfg =
     \<lparr>suggested_port = rc_suggested cfg, is_first = True, initial_transient_failures = 0,
      backoff_secs = INITIAL_BACKOFF_SECS, pinned_conflict_waited = 0, last_epoch_secs = None\<rparr>"

definition fresh_cycle :: "loop_state \<Rightarrow> cycle_acc" where
  "fresh_cycle st =
     \<lparr>granted_this_cycle = [], pair_port = suggested_port st, min_lifetime = 4294967295, acc_external_port = 0,
      acc_rate_limit = None, acc_epoch_secs = 0\<rparr>"

text \<open>
  How a cycle ends: the loop stops after these events and these releases, or it goes on after these
  events in a new state, at once or after sleeping so many seconds.
\<close>

datatype cycle_end =
    Stop "natpmp_event list" "map_proto list"
  | Go_On "natpmp_event list" "nat option" loop_state

definition leg_granted :: "map_proto \<Rightarrow> natpmp_mapping \<Rightarrow> loop_state \<times> cycle_acc \<Rightarrow> loop_state \<times> cycle_acc" where
  "leg_granted p m = (\<lambda>(st, acc).
     (st\<lparr>backoff_secs := INITIAL_BACKOFF_SECS, pinned_conflict_waited := 0\<rparr>,
      acc\<lparr>pair_port := m_external_port m, acc_external_port := m_external_port m,
        min_lifetime := min (min_lifetime acc) (m_lifetime_secs m),
        acc_rate_limit := (if m_rate_limit m = None then acc_rate_limit acc else m_rate_limit m),
        acc_epoch_secs := m_epoch_secs m,
        granted_this_cycle := granted_this_cycle acc @ [p]\<rparr>))"

definition transient_failure :: "loop_state \<Rightarrow> cycle_acc \<Rightarrow> client_error \<Rightarrow> cycle_end" where
  "transient_failure st acc err =
     (let failures = (if is_first st then Suc (initial_transient_failures st) else initial_transient_failures st)
      in if is_first st \<and> failures \<ge> MAX_INITIAL_MAP_ATTEMPTS
         then Stop [Ev_Failed err FR_Other] (granted_this_cycle acc)
         else Go_On [] (Some (backoff_secs st))
           (st\<lparr>initial_transient_failures := failures,
               backoff_secs := min (2 * backoff_secs st) MAX_BACKOFF_SECS\<rparr>))"

definition leg_failed :: "refresh_config \<Rightarrow> nat \<Rightarrow> loop_state \<Rightarrow> cycle_acc \<Rightarrow> client_error \<Rightarrow> cycle_end" where
  "leg_failed cfg leg_index st acc err =
     (case err of
        CE_RateLimited retry_after \<Rightarrow>
          Go_On [Ev_RateLimited retry_after] (Some (max 1 (min 120 (unat retry_after)))) st
      | _ \<Rightarrow>
          if err = CE_Server RC_SuggestedPortUnavailable \<and> leg_index = 0 \<and> rc_suggestion cfg = Sticky
             \<and> suggested_port st \<noteq> 0 then
            Go_On [] None (st\<lparr>suggested_port := 0\<rparr>)
          else if err = CE_Server RC_SuggestedPortUnavailable \<and> leg_index = 0 \<and> rc_suggestion cfg = Pinned
             \<and> suggested_port st \<noteq> 0 then
            (case pinned_conflict_retry_delay (pinned_conflict_waited st) of
               None \<Rightarrow> Stop [Ev_Failed err (from_client_error err)] []
             | Some delay \<Rightarrow>
                 Go_On [] (Some delay) (st\<lparr>pinned_conflict_waited := pinned_conflict_waited st + delay\<rparr>))
          else if from_client_error err \<noteq> FR_Other then
            Stop [Ev_Failed err (from_client_error err)] (granted_this_cycle acc)
          else transient_failure st acc err)"

text \<open>
  One request per leg. The answer to the request of a leg, given its index, protocol and suggestion,
  is \<open>None\<close> when the loop is cancelled first.
\<close>

type_synonym leg_answers = "nat \<Rightarrow> map_proto \<Rightarrow> u16 \<Rightarrow> (client_error + natpmp_mapping) option"

fun run_legs ::
  "refresh_config \<Rightarrow> leg_answers \<Rightarrow> nat \<Rightarrow> map_proto list \<Rightarrow> loop_state \<times> cycle_acc \<Rightarrow>
    cycle_end + (loop_state \<times> cycle_acc)" where
  "run_legs cfg ans leg_index [] (st, acc) = Inr (st, acc)"
| "run_legs cfg ans leg_index (p # ps) (st, acc) =
     (case ans leg_index p (if leg_index = 0 then suggested_port st else pair_port acc) of
        None \<Rightarrow> Inl (Stop [Ev_Cancelled] [])
      | Some (Inl err) \<Rightarrow> Inl (leg_failed cfg leg_index st acc err)
      | Some (Inr m) \<Rightarrow> run_legs cfg ans (Suc leg_index) ps (leg_granted p m (st, acc)))"

definition refresh_wait :: "u32 \<Rightarrow> nat" where
  "refresh_wait life = max (unat life) MIN_LIFETIME_FOR_REFRESH div 2"

text \<open>\<open>observed\<close> is false when the receiver of the events is gone.\<close>

definition finish_cycle :: "bool \<Rightarrow> loop_state \<Rightarrow> cycle_acc \<Rightarrow> cycle_end" where
  "finish_cycle observed st acc =
     (let attempts = map_option attempts_remaining (acc_rate_limit acc);
          window = (case acc_rate_limit acc of None \<Rightarrow> 0 | Some r \<Rightarrow> window_reset_secs r);
          restart = (case last_epoch_secs st of None \<Rightarrow> False
                     | Some prev \<Rightarrow> epoch_indicates_restart prev (acc_epoch_secs acc));
          event = (if is_first st \<or> restart
                   then Ev_Mapped (acc_external_port acc) (min_lifetime acc) attempts window
                   else Ev_Renewed (acc_external_port acc) (min_lifetime acc) attempts window)
      in if \<not> observed then Stop [] []
         else Go_On [event] (Some (refresh_wait (min_lifetime acc)))
           (st\<lparr>last_epoch_secs := Some (acc_epoch_secs acc), is_first := False\<rparr>))"

definition cycle :: "refresh_config \<Rightarrow> leg_answers \<Rightarrow> bool \<Rightarrow> loop_state \<Rightarrow> cycle_end" where
  "cycle cfg ans observed st =
     (case run_legs cfg ans 0 (legs (rc_protos cfg)) (st, fresh_cycle st) of
        Inl result \<Rightarrow> result
      | Inr (st', acc) \<Rightarrow> finish_cycle observed st' acc)"

section \<open>Runs of the loop\<close>

record cycle_input =
  answers :: leg_answers
  observed :: bool
  sleep_cancelled :: bool

datatype loop_status = Stopped | Running loop_state

text \<open>
  The loop over the inputs of its cycles: the events sent, the releases sent, the seconds slept and
  whether it is still running when the inputs are used up.
\<close>

fun refresh_loop ::
  "refresh_config \<Rightarrow> cycle_input list \<Rightarrow> loop_state \<Rightarrow> natpmp_event list \<times> map_proto list \<times> nat \<times> loop_status" where
  "refresh_loop cfg [] st = ([], [], 0, Running st)"
| "refresh_loop cfg (i # inputs) st =
     (case cycle cfg (answers i) (observed i) st of
        Stop evs releases \<Rightarrow> (evs, releases, 0, Stopped)
      | Go_On evs wait st' \<Rightarrow>
          if wait \<noteq> None \<and> sleep_cancelled i then (evs @ [Ev_Cancelled], [], 0, Stopped)
          else case refresh_loop cfg inputs st' of (evs', releases, slept, status) \<Rightarrow>
            (evs @ evs', releases, (case wait of None \<Rightarrow> 0 | Some w \<Rightarrow> w) + slept, status))"

lemmas loop_consts = MIN_LIFETIME_FOR_REFRESH_def INITIAL_BACKOFF_SECS_def MAX_BACKOFF_SECS_def
  MAX_INITIAL_MAP_ATTEMPTS_def PINNED_CONFLICT_RETRY_WINDOW_SECS_def PINNED_CONFLICT_MAX_BACKOFF_SECS_def

lemma legs_nonempty: "\<exists>p ps. legs fp = p # ps"
  by (cases fp) auto

text \<open>A cycle whose first leg fails.\<close>

lemma cycle_first_leg_fails:
  assumes "\<And>p sug. ans 0 p sug = Some (Inl err)"
  shows "cycle cfg ans obs st = leg_failed cfg 0 st (fresh_cycle st) err"
  using legs_nonempty [of "rc_protos cfg"] by (auto simp: cycle_def assms)

text \<open>The failures after which the same request may still succeed.\<close>

fun transient :: "client_error \<Rightarrow> bool" where
  "transient (CE_RateLimited _) \<longleftrightarrow> False"
| "transient err \<longleftrightarrow> from_client_error err = FR_Other"

lemma leg_failed_transient: "transient err \<Longrightarrow> leg_failed cfg k st acc err = transient_failure st acc err"
  by (cases err) (auto simp: leg_failed_def)

text \<open>
  C20: An exit that never answers is reported. From the start of the loop, when the first request of
  every cycle meets a transient failure (a timeout, an I/O error, an unreadable answer), the loop stops
  after exactly three cycles and 15 seconds of sleep, with the failure as its only event.
\<close>
theorem silent_exit_is_reported:
  assumes "\<forall>i \<in> {i1, i2, i3}. (\<forall>p sug. answers i 0 p sug = Some (Inl err)) \<and> \<not> sleep_cancelled i"
    and "transient err"
  shows "refresh_loop cfg ([i1, i2, i3] @ rest) (initial_state cfg) = ([Ev_Failed err FR_Other], [], 15, Stopped)"
  using assms
  by (simp add: cycle_first_leg_fails leg_failed_transient transient_failure_def initial_state_def loop_consts fresh_cycle_def)

theorem silent_exit_is_reported_witness:
  "refresh_loop \<lparr>rc_protos = FP_Both, rc_suggested = 0, rc_suggestion = Sticky\<rparr>
     (replicate 3 \<lparr>answers = (\<lambda>_ _ _. Some (Inl CE_Timeout)), observed = True, sleep_cancelled = False\<rparr>)
     (initial_state \<lparr>rc_protos = FP_Both, rc_suggested = 0, rc_suggestion = Sticky\<rparr>)
   = ([Ev_Failed CE_Timeout FR_Other], [], 15, Stopped)"
proof -
  let ?i = "\<lparr>answers = (\<lambda>_ _ _. Some (Inl CE_Timeout)), observed = True, sleep_cancelled = False\<rparr>"
  show ?thesis
    using silent_exit_is_reported [of ?i ?i ?i CE_Timeout _ "[]"] by (simp add: numeral_3_eq_3)
qed

text \<open>The seconds slept, and whether the loop stops, when a pinned port stays taken for \<open>n\<close> cycles.\<close>

fun conflict_run :: "nat \<Rightarrow> nat \<Rightarrow> nat \<times> bool" where
  "conflict_run 0 waited = (0, False)"
| "conflict_run (Suc n) waited =
     (case pinned_conflict_retry_delay waited of
        None \<Rightarrow> (0, True)
      | Some d \<Rightarrow> (case conflict_run n (waited + d) of (slept, stops) \<Rightarrow> (d + slept, stops)))"

abbreviation port_taken :: client_error where
  "port_taken \<equiv> CE_Server RC_SuggestedPortUnavailable"

lemma conflict_run_loop:
  assumes "\<forall>i \<in> set inputs. (\<forall>p sug. answers i 0 p sug = Some (Inl port_taken)) \<and> \<not> sleep_cancelled i"
    and "rc_suggestion cfg = Pinned" and "suggested_port st \<noteq> 0"
    and "conflict_run (length inputs) (pinned_conflict_waited st) = (slept, True)"
  shows "refresh_loop cfg inputs st = ([Ev_Failed port_taken FR_SuggestedPortInUse], [], slept, Stopped)"
  using assms
proof (induction inputs arbitrary: st slept)
  case (Cons i inputs)
  have c: "cycle cfg (answers i) (observed i) st =
      (case pinned_conflict_retry_delay (pinned_conflict_waited st) of
         None \<Rightarrow> Stop [Ev_Failed port_taken FR_SuggestedPortInUse] []
       | Some d \<Rightarrow> Go_On [] (Some d) (st\<lparr>pinned_conflict_waited := pinned_conflict_waited st + d\<rparr>))"
    using Cons.prems by (subst cycle_first_leg_fails [of _ port_taken]) (auto simp: leg_failed_def split: option.splits)
  show ?case
  proof (cases "pinned_conflict_retry_delay (pinned_conflict_waited st)")
    case None
    with Cons.prems c show ?thesis by simp
  next
    case (Some d)
    let ?st = "st\<lparr>pinned_conflict_waited := pinned_conflict_waited st + d\<rparr>"
    obtain slept' where s: "conflict_run (length inputs) (pinned_conflict_waited st + d) = (slept', True)" "slept = d + slept'"
      using Cons.prems(4) Some by (auto split: prod.splits)
    then have "refresh_loop cfg inputs ?st = ([Ev_Failed port_taken FR_SuggestedPortInUse], [], slept', Stopped)"
      using Cons.prems by (intro Cons.IH) simp_all
    then show ?thesis using Cons.prems(1) c Some s(2) by simp
  qed
qed simp

lemma conflict_run_mono: "conflict_run n w = (slept, True) \<Longrightarrow> n \<le> m \<Longrightarrow> conflict_run m w = (slept, True)"
proof (induction n arbitrary: w m slept)
  case (Suc n)
  obtain m' where m: "m = Suc m'" "n \<le> m'" using Suc.prems(2) by (cases m) auto
  show ?case
  proof (cases "pinned_conflict_retry_delay w")
    case None
    with Suc.prems(1) m show ?thesis by simp
  next
    case (Some d)
    then obtain s where s: "conflict_run n (w + d) = (s, True)" "slept = d + s"
      using Suc.prems(1) by (auto split: prod.splits)
    from Suc.IH [OF s(1) m(2)] show ?thesis using Some m(1) s(2) by simp
  qed
qed simp

text \<open>
  A pinned port that stays taken is reported. However long the exit keeps refusing the port the
  user chose, the loop asks 26 times over 602 seconds and then stops with that refusal as its only
  event.
\<close>
theorem pinned_conflict_is_reported:
  assumes "\<forall>i \<in> set inputs. (\<forall>p sug. answers i 0 p sug = Some (Inl port_taken)) \<and> \<not> sleep_cancelled i"
    and "rc_suggestion cfg = Pinned" and "rc_suggested cfg \<noteq> 0" and "26 \<le> length inputs"
  shows "refresh_loop cfg inputs (initial_state cfg) = ([Ev_Failed port_taken FR_SuggestedPortInUse], [], 602, Stopped)"
proof -
  have "conflict_run 26 0 = (602, True)"
    by (simp add: eval_nat_numeral(3) numeral_eq_Suc pinned_conflict_retry_delay_def loop_consts)
  then have "conflict_run (length inputs) 0 = (602, True)"
    using assms(4) by (rule conflict_run_mono)
  then show ?thesis
    using assms by (intro conflict_run_loop) (simp_all add: initial_state_def)
qed

theorem pinned_conflict_is_reported_witness:
  "refresh_loop \<lparr>rc_protos = FP_Udp, rc_suggested = 50000, rc_suggestion = Pinned\<rparr>
     (replicate 26 \<lparr>answers = (\<lambda>_ _ _. Some (Inl port_taken)), observed = True, sleep_cancelled = False\<rparr>)
     (initial_state \<lparr>rc_protos = FP_Udp, rc_suggested = 50000, rc_suggestion = Pinned\<rparr>)
   = ([Ev_Failed port_taken FR_SuggestedPortInUse], [], 602, Stopped)"
  by (rule pinned_conflict_is_reported) simp_all

section \<open>What every cycle keeps\<close>

definition loop_ok :: "loop_state \<Rightarrow> bool" where
  "loop_ok st \<longleftrightarrow> 5 \<le> backoff_secs st \<and> backoff_secs st \<le> 60 \<and> pinned_conflict_waited st < 630
     \<and> initial_transient_failures st < 3"

definition refresh_step :: "refresh_config \<Rightarrow> loop_state \<Rightarrow> loop_state \<Rightarrow> bool" where
  "refresh_step cfg st st' \<longleftrightarrow> (\<exists>ans obs evs wait. cycle cfg ans obs st = Go_On evs wait st')"

lemma leg_granted_ok: "leg_granted p m (st, acc) = (st', acc') \<Longrightarrow> loop_ok st \<Longrightarrow> loop_ok st' \<and> suggested_port st' = suggested_port st"
  by (auto simp: leg_granted_def loop_ok_def loop_consts)

lemma leg_failed_ok:
  assumes "leg_failed cfg k st acc err = Go_On evs wait st'" and "loop_ok st"
  shows "loop_ok st' \<and> (case wait of None \<Rightarrow> suggested_port st \<noteq> 0 \<and> suggested_port st' = 0 | Some w \<Rightarrow> 1 \<le> w \<and> w \<le> 120)"
  using assms
  by (auto simp: leg_failed_def transient_failure_def pinned_conflict_retry_delay_def loop_ok_def loop_consts Let_def
      split: client_error.splits if_splits)

lemma run_legs_ok:
  assumes "loop_ok st"
  shows "(\<forall>st' acc'. run_legs cfg ans k ps (st, acc) = Inr (st', acc') \<longrightarrow> loop_ok st')
    \<and> (\<forall>evs wait st'. run_legs cfg ans k ps (st, acc) = Inl (Go_On evs wait st') \<longrightarrow> loop_ok st'
        \<and> (case wait of None \<Rightarrow> suggested_port st \<noteq> 0 \<and> suggested_port st' = 0 | Some w \<Rightarrow> 1 \<le> w \<and> w \<le> 120))"
  using assms
proof (induction ps arbitrary: k st acc)
  case (Cons p ps)
  show ?case
  proof (cases "ans k p (if k = 0 then suggested_port st else pair_port acc)")
    case None
    then show ?thesis by simp
  next
    case (Some r)
    show ?thesis
    proof (cases r)
      case (Inl err)
      then show ?thesis using Some Cons.prems leg_failed_ok [of cfg k st acc err] by simp
    next
      case (Inr m)
      obtain st1 acc1 where g: "leg_granted p m (st, acc) = (st1, acc1)" by fastforce
      have eq: "run_legs cfg ans k (p # ps) (st, acc) = run_legs cfg ans (Suc k) ps (st1, acc1)"
        using Some Inr g by simp
      note st1 = leg_granted_ok [OF g Cons.prems]
      show ?thesis
        unfolding eq st1 [THEN conjunct2, symmetric] by (rule Cons.IH [OF st1 [THEN conjunct1]])
    qed
  qed
qed simp

lemma refresh_wait_bounds: "Suc 0 \<le> refresh_wait life" "2 \<le> unat life \<Longrightarrow> refresh_wait life = unat life div 2"
  by (auto simp: refresh_wait_def loop_consts max_def)

lemma cycle_ok:
  assumes "cycle cfg ans obs st = Go_On evs wait st'" and "loop_ok st"
  shows "loop_ok st'" "case wait of None \<Rightarrow> suggested_port st \<noteq> 0 \<and> suggested_port st' = 0 | Some w \<Rightarrow> 1 \<le> w"
proof -
  note r = run_legs_ok [OF assms(2), of cfg ans 0 "legs (rc_protos cfg)" "fresh_cycle st"]
  have "loop_ok st' \<and> (case wait of None \<Rightarrow> suggested_port st \<noteq> 0 \<and> suggested_port st' = 0 | Some w \<Rightarrow> 1 \<le> w)"
  proof (cases "run_legs cfg ans 0 (legs (rc_protos cfg)) (st, fresh_cycle st)")
    case (Inl e)
    with assms(1) r show ?thesis by (auto simp: cycle_def split: option.splits)
  next
    case (Inr x)
    then obtain st1 acc1 where x: "x = (st1, acc1)" "loop_ok st1" using r by (cases x) auto
    with assms(1) Inr show ?thesis
      by (auto simp: cycle_def finish_cycle_def Let_def loop_ok_def refresh_wait_bounds split: if_splits)
  qed
  then show "loop_ok st'" "case wait of None \<Rightarrow> suggested_port st \<noteq> 0 \<and> suggested_port st' = 0 | Some w \<Rightarrow> 1 \<le> w"
    by auto
qed

interpretation refresh_sys: invariant_steps "refresh_step cfg" loop_ok for cfg
  by unfold_locales (auto simp: refresh_step_def dest: cycle_ok(1))

lemma initial_loop_ok: "loop_ok (initial_state cfg)"
  by (simp add: loop_ok_def initial_state_def loop_consts)

text \<open>
  The counters of the refresh loop stay in their ranges and the loop never spins. In every state a
  run can reach, the backoff is between 5 and 60 seconds, the wait for a pinned port below 630 seconds
  and the initial failures below 3; and a cycle that does not end the loop is followed by a sleep of at
  least a second, but for the one cycle that gives up a sticky port.
\<close>
theorem refresh_loop_state_in_range:
  assumes "(refresh_step cfg)\<^sup>*\<^sup>* (initial_state cfg) st" and "cycle cfg ans obs st = Go_On evs wait st'"
  shows "loop_ok st \<and> (case wait of None \<Rightarrow> suggested_port st \<noteq> 0 \<and> suggested_port st' = 0 | Some w \<Rightarrow> 1 \<le> w)"
  using refresh_sys.run_inv [OF assms(1) initial_loop_ok] cycle_ok(2) [OF assms(2)] by blast

theorem refresh_loop_state_in_range_witness:
  "\<exists>st st'. cycle \<lparr>rc_protos = FP_Tcp, rc_suggested = 50000, rc_suggestion = Sticky\<rparr>
       (\<lambda>_ _ _. Some (Inl port_taken)) True st = Go_On [] None st' \<and> suggested_port st' = 0 \<and> loop_ok st"
proof -
  let ?cfg = "\<lparr>rc_protos = FP_Tcp, rc_suggested = 50000, rc_suggestion = Sticky\<rparr>"
  have "cycle ?cfg (\<lambda>_ _ _. Some (Inl port_taken)) True (initial_state ?cfg)
      = Go_On [] None ((initial_state ?cfg)\<lparr>suggested_port := 0\<rparr>)"
    by (simp add: cycle_first_leg_fails leg_failed_def) (simp add: initial_state_def)
  from refresh_loop_state_in_range [OF rtranclp.rtrancl_refl this] this show ?thesis by fastforce
qed

text \<open>The legs granted before one fails, and what stopping releases.\<close>

lemma leg_failed_stop:
  assumes "leg_failed cfg k st acc err = Stop evs releases"
  shows "evs = [Ev_Failed err (from_client_error err)]" "releases = granted_this_cycle acc \<or> k = 0 \<and> releases = []"
  using assms
  by (auto simp: leg_failed_def transient_failure_def Let_def split: client_error.splits if_splits option.splits)

lemma run_legs_stop:
  assumes "run_legs cfg ans k ps (st, acc) = Inl (Stop evs releases)" and "evs \<noteq> [Ev_Cancelled]"
    and "k = length (granted_this_cycle acc)"
  shows "\<exists>j err. j < length ps \<and> evs = [Ev_Failed err (from_client_error err)]
    \<and> releases = granted_this_cycle acc @ take j ps \<and> (\<exists>sug. ans (k + j) (ps ! j) sug = Some (Inl err))
    \<and> (\<forall>i < j. \<exists>sug m. ans (k + i) (ps ! i) sug = Some (Inr m))"
  using assms
proof (induction ps arbitrary: k st acc)
  case (Cons p ps)
  let ?sug = "if k = 0 then suggested_port st else pair_port acc"
  consider "ans k p ?sug = None" | err where "ans k p ?sug = Some (Inl err)" | m where "ans k p ?sug = Some (Inr m)"
    by (metis option.exhaust sum.exhaust)
  then show ?case
  proof cases
    case 1
    with Cons.prems show ?thesis by simp
  next
    case (2 err)
    then have f: "leg_failed cfg k st acc err = Stop evs releases" using Cons.prems(1) by simp
    show ?thesis
      using leg_failed_stop [OF f] 2 Cons.prems(3) by (intro exI [of _ 0] exI [of _ err]) auto
  next
    case (3 m)
    obtain st1 acc1 where g: "leg_granted p m (st, acc) = (st1, acc1)" by fastforce
    then have a: "granted_this_cycle acc1 = granted_this_cycle acc @ [p]" by (auto simp: leg_granted_def)
    have r: "run_legs cfg ans (Suc k) ps (st1, acc1) = Inl (Stop evs releases)" using Cons.prems(1) 3 g by simp
    from Cons.IH [OF r Cons.prems(2)] a Cons.prems(3) obtain j err where
      j: "j < length ps" "evs = [Ev_Failed err (from_client_error err)]" "releases = granted_this_cycle acc @ p # take j ps"
      "\<exists>sug. ans (Suc k + j) (ps ! j) sug = Some (Inl err)" "\<forall>i < j. \<exists>sug m. ans (Suc k + i) (ps ! i) sug = Some (Inr m)"
      by auto
    have "\<exists>sug m. ans (k + i) ((p # ps) ! i) sug = Some (Inr m)" if "i < Suc j" for i
      using that j(5) 3 by (cases i) auto
    then show ?thesis
      using j by (intro exI [of _ "Suc j"] exI [of _ err]) simp
  qed
qed simp

text \<open>
  C18: A rule that fails leaves no leg of its cycle behind. When a cycle stops the loop with a failure,
  some leg was refused, every leg before it had been granted in this cycle, and exactly these are
  released, in the order they were granted.
\<close>
theorem failing_cycle_releases_its_legs:
  assumes "cycle cfg ans obs st = Stop evs releases" and "evs \<noteq> []" and "evs \<noteq> [Ev_Cancelled]"
  shows "\<exists>j err. j < length (legs (rc_protos cfg)) \<and> evs = [Ev_Failed err (from_client_error err)]
    \<and> (\<exists>sug. ans j (legs (rc_protos cfg) ! j) sug = Some (Inl err))
    \<and> (\<forall>i < j. \<exists>sug m. ans i (legs (rc_protos cfg) ! i) sug = Some (Inr m))
    \<and> releases = take j (legs (rc_protos cfg))"
proof -
  have "run_legs cfg ans 0 (legs (rc_protos cfg)) (st, fresh_cycle st) = Inl (Stop evs releases)"
    using assms(1,2) by (auto simp: cycle_def finish_cycle_def Let_def split: sum.splits if_splits)
  from run_legs_stop [OF this assms(3)] show ?thesis by (auto simp: fresh_cycle_def)
qed

definition demo_mapping :: "u16 \<Rightarrow> natpmp_mapping" where
  "demo_mapping port = \<lparr>m_proto = MP_Udp, m_internal_port = 80, m_external_port = port, m_lifetime_secs = 600,
     m_epoch_secs = 10, m_rate_limit = None\<rparr>"

theorem failing_cycle_releases_its_legs_witness:
  "cycle \<lparr>rc_protos = FP_Both, rc_suggested = 0, rc_suggestion = Sticky\<rparr>
     (\<lambda>k _ _. Some (if k = 0 then Inr (demo_mapping 50000) else Inl port_taken)) True
     (initial_state \<lparr>rc_protos = FP_Both, rc_suggested = 0, rc_suggestion = Sticky\<rparr>)
   = Stop [Ev_Failed port_taken FR_SuggestedPortInUse] [MP_Udp]"
proof -
  let ?cfg = "\<lparr>rc_protos = FP_Both, rc_suggested = 0, rc_suggestion = Sticky\<rparr>"
  let ?ans = "\<lambda>k _ _. Some (if k = (0 :: nat) then Inr (demo_mapping 50000) else Inl port_taken)"
  obtain releases where c: "cycle ?cfg ?ans True (initial_state ?cfg) = Stop [Ev_Failed port_taken FR_SuggestedPortInUse] releases"
    by (simp add: cycle_def leg_granted_def fresh_cycle_def leg_failed_def)
  from failing_cycle_releases_its_legs [OF c] obtain j where
    "releases = take j [MP_Udp, MP_Tcp]" "j < 2" "(if j = 0 then Inr (demo_mapping 50000) else Inl port_taken) = Inl port_taken"
    by auto
  then have "releases = [MP_Udp]" by (cases j) (auto split: if_splits)
  with c show ?thesis by simp
qed

text \<open>
  The releases are those of one cycle only. Here the first cycle obtains the UDP leg and times out on
  the TCP leg; the second is refused at the UDP leg, and the loop stops without releasing anything, the
  UDP mapping of the first cycle included.
\<close>

lemma leg_of_earlier_cycle_not_released:
  fixes cfg
  defines "cfg \<equiv> \<lparr>rc_protos = FP_Both, rc_suggested = 0, rc_suggestion = Sticky\<rparr>"
  shows "refresh_loop cfg
     [\<lparr>answers = (\<lambda>k _ _. Some (if k = 0 then Inr (demo_mapping 50000) else Inl CE_Timeout)), observed = True, sleep_cancelled = False\<rparr>,
      \<lparr>answers = (\<lambda>_ _ _. Some (Inl (CE_Server RC_NotAuthorized))), observed = True, sleep_cancelled = False\<rparr>]
     (initial_state cfg)
   = ([Ev_Failed (CE_Server RC_NotAuthorized) FR_NotAuthorized], [], 5, Stopped)"
  by (simp add: cfg_def cycle_def leg_granted_def fresh_cycle_def leg_failed_def transient_failure_def
      initial_state_def loop_consts Let_def)

section \<open>What a reported mapping means\<close>

abbreviation leg_suggestion :: "u16 \<Rightarrow> natpmp_mapping list \<Rightarrow> nat \<Rightarrow> u16" where
  "leg_suggestion first ms i \<equiv> (case i of 0 \<Rightarrow> first | Suc j \<Rightarrow> m_external_port (ms ! j))"

lemma run_legs_granted:
  assumes "run_legs cfg ans k ps (st, acc) = Inr (st', acc')"
  shows "\<exists>ms. length ms = length ps
    \<and> (\<forall>i < length ps. ans (k + i) (ps ! i)
          (leg_suggestion (if k = 0 then suggested_port st else pair_port acc) ms i) = Some (Inr (ms ! i)))
    \<and> (ps \<noteq> [] \<longrightarrow> acc_external_port acc' = m_external_port (last ms) \<and> acc_epoch_secs acc' = m_epoch_secs (last ms))
    \<and> min_lifetime acc' \<le> min_lifetime acc \<and> (\<forall>m \<in> set ms. min_lifetime acc' \<le> m_lifetime_secs m)
    \<and> is_first st' = is_first st \<and> last_epoch_secs st' = last_epoch_secs st"
  using assms
proof (induction ps arbitrary: k st acc)
  case (Cons p ps)
  let ?sug = "if k = 0 then suggested_port st else pair_port acc"
  obtain m where m: "ans k p ?sug = Some (Inr m)"
    using Cons.prems by (auto split: option.splits sum.splits)
  obtain st1 acc1 where g: "leg_granted p m (st, acc) = (st1, acc1)" by fastforce
  then have a: "pair_port acc1 = m_external_port m" "acc_external_port acc1 = m_external_port m \<and> acc_epoch_secs acc1 = m_epoch_secs m"
    "min_lifetime acc1 = min (min_lifetime acc) (m_lifetime_secs m)" "is_first st1 = is_first st"
    "last_epoch_secs st1 = last_epoch_secs st"
    by (auto simp: leg_granted_def)
  have r: "run_legs cfg ans (Suc k) ps (st1, acc1) = Inr (st', acc')" using Cons.prems m g by simp
  then obtain ms where ms: "length ms = length ps"
    "\<forall>i < length ps. ans (Suc k + i) (ps ! i) (leg_suggestion (m_external_port m) ms i) = Some (Inr (ms ! i))"
    "ps \<noteq> [] \<longrightarrow> acc_external_port acc' = m_external_port (last ms) \<and> acc_epoch_secs acc' = m_epoch_secs (last ms)"
    "min_lifetime acc' \<le> min_lifetime acc1" "\<forall>x \<in> set ms. min_lifetime acc' \<le> m_lifetime_secs x"
    "is_first st' = is_first st1 \<and> last_epoch_secs st' = last_epoch_secs st1"
    using Cons.IH [OF r] a(1) by (simp only: nat.simps if_False) blast
  have "ans (k + i) ((p # ps) ! i) (leg_suggestion ?sug (m # ms) i) = Some (Inr ((m # ms) ! i))"
    if "i < Suc (length ps)" for i
  proof (cases i)
    case 0
    then show ?thesis using m by simp
  next
    case (Suc j)
    then show ?thesis using that ms(2) [rule_format, of j] by (cases j) simp_all
  qed
  moreover have "acc_external_port acc' = m_external_port (last (m # ms)) \<and> acc_epoch_secs acc' = m_epoch_secs (last (m # ms))"
    using ms(1,3) a(2) r by (cases ps) auto
  ultimately show ?case
    using ms a by (intro exI [of _ "m # ms"]) auto
qed auto

text \<open>
  C19: A reported mapping is real and is renewed in time. When a cycle reports a mapping, every leg of
  the rule was granted in this cycle: the first on the suggestion of the rule, each later one when
  asking for the port of the one before. The reported port is that of the last leg, the reported
  lifetime is no longer than the lifetime of any leg, and the next cycle starts within half of it, or
  after one second. It is reported as new exactly at the first mapping and when the epoch of the
  gateway went backwards.
\<close>
theorem reported_mapping_is_real:
  assumes "cycle cfg ans obs st = Go_On evs wait st'"
    and "ev \<in> set evs" and "ev = Ev_Mapped port life att win \<or> ev = Ev_Renewed port life att win"
  shows "\<exists>ms w. length ms = length (legs (rc_protos cfg))
    \<and> (\<forall>i < length ms. ans i (legs (rc_protos cfg) ! i) (leg_suggestion (suggested_port st) ms i) = Some (Inr (ms ! i)))
    \<and> port = m_external_port (last ms) \<and> wait = Some w
    \<and> (\<forall>m \<in> set ms. life \<le> m_lifetime_secs m \<and> w \<le> max 1 (unat (m_lifetime_secs m) div 2))
    \<and> (ev = Ev_Mapped port life att win \<longleftrightarrow>
         is_first st \<or> (\<exists>prev. last_epoch_secs st = Some prev \<and> m_epoch_secs (last ms) < prev))"
proof -
  have no_event: False if "leg_failed cfg k st acc err = Go_On evs wait st'" for cfg k st acc err
    using that assms(2,3)
    by (auto simp: leg_failed_def transient_failure_def Let_def split: client_error.splits if_splits option.splits)
  have no_leg: False if "run_legs cfg ans k ps x = Inl (Go_On evs wait st')" for cfg ans k ps x
    using that by (induction cfg ans k ps x rule: run_legs.induct) (auto split: option.splits sum.splits dest: no_event)
  obtain st1 acc where r: "run_legs cfg ans 0 (legs (rc_protos cfg)) (st, fresh_cycle st) = Inr (st1, acc)"
    and f: "finish_cycle obs st1 acc = Go_On evs wait st'"
    using assms(1) by (auto simp: cycle_def split: sum.splits dest: no_leg)
  have ne: "legs (rc_protos cfg) \<noteq> []" using legs_nonempty [of "rc_protos cfg"] by auto
  from run_legs_granted [OF r] obtain ms where g: "length ms = length (legs (rc_protos cfg))"
    "\<forall>i < length (legs (rc_protos cfg)). ans (0 + i) (legs (rc_protos cfg) ! i)
       (leg_suggestion (if (0 :: nat) = 0 then suggested_port st else pair_port (fresh_cycle st)) ms i) = Some (Inr (ms ! i))"
    "legs (rc_protos cfg) \<noteq> [] \<longrightarrow> acc_external_port acc = m_external_port (last ms) \<and> acc_epoch_secs acc = m_epoch_secs (last ms)"
    "\<forall>m \<in> set ms. min_lifetime acc \<le> m_lifetime_secs m" "is_first st1 = is_first st" "last_epoch_secs st1 = last_epoch_secs st"
    by blast
  have ms: "\<forall>i < length ms. ans i (legs (rc_protos cfg) ! i) (leg_suggestion (suggested_port st) ms i) = Some (Inr (ms ! i))"
    "acc_external_port acc = m_external_port (last ms)" "acc_epoch_secs acc = m_epoch_secs (last ms)"
    using g(1,2,3) ne by (simp_all cong: nat.case_cong)
  have e: "port = acc_external_port acc" "life = min_lifetime acc" "wait = Some (refresh_wait (min_lifetime acc))"
    "ev = Ev_Mapped port life att win \<longleftrightarrow>
       is_first st1 \<or> (\<exists>prev. last_epoch_secs st1 = Some prev \<and> acc_epoch_secs acc < prev)"
    using f assms(2,3)
    by (auto simp: finish_cycle_def epoch_indicates_restart_def Let_def split: if_splits option.splits)
  have "refresh_wait (min_lifetime acc) \<le> max 1 (unat (m_lifetime_secs m) div 2)" if "m \<in> set ms" for m
    using g(4) [rule_format, OF that] by (auto simp: refresh_wait_def loop_consts word_le_nat_alt max_def div_le_mono)
  with g(4) have "\<forall>m \<in> set ms. life \<le> m_lifetime_secs m
      \<and> refresh_wait (min_lifetime acc) \<le> max 1 (unat (m_lifetime_secs m) div 2)"
    unfolding e(2) by blast
  then show ?thesis
    using g(1,5,6) ms e by (intro exI [of _ ms] exI [of _ "refresh_wait (min_lifetime acc)"]) simp
qed

theorem reported_mapping_is_real_witness:
  "\<exists>(ms :: natpmp_mapping list) w st'. cycle \<lparr>rc_protos = FP_Both, rc_suggested = 0, rc_suggestion = Sticky\<rparr>
       (\<lambda>_ _ _. Some (Inr (demo_mapping 50000))) True
       (initial_state \<lparr>rc_protos = FP_Both, rc_suggested = 0, rc_suggestion = Sticky\<rparr>)
     = Go_On [Ev_Mapped 50000 600 None 0] (Some w) st' \<and> length ms = 2
     \<and> (\<forall>m \<in> set ms. w \<le> max 1 (unat (m_lifetime_secs m) div 2))"
proof -
  let ?cfg = "\<lparr>rc_protos = FP_Both, rc_suggested = 0, rc_suggestion = Sticky\<rparr>"
  let ?ans = "\<lambda>_ _ _. Some (Inr (demo_mapping 50000))"
  obtain w st' where c: "cycle ?cfg ?ans True (initial_state ?cfg) = Go_On [Ev_Mapped 50000 600 None 0] w st'"
    by (simp add: cycle_def leg_granted_def fresh_cycle_def finish_cycle_def initial_state_def demo_mapping_def Let_def)
  have "Ev_Mapped 50000 600 None 0 \<in> set [Ev_Mapped 50000 600 None 0]" by simp
  from reported_mapping_is_real [OF c this disjI1 [OF refl]] obtain ms :: "natpmp_mapping list" and v where
    "length ms = length (legs (rc_protos ?cfg))" "w = Some v"
    "\<forall>m \<in> set ms. 600 \<le> m_lifetime_secs m \<and> v \<le> max 1 (unat (m_lifetime_secs m) div 2)"
    by blast
  then have "length ms = 2 \<and> w = Some v \<and> (\<forall>m \<in> set ms. v \<le> max 1 (unat (m_lifetime_secs m) div 2))" by simp
  with c show ?thesis by blast
qed

end
