(* ===== verification/Replay.thy ===== *)
theory Replay
  imports Prelude
begin

text \<open>
  The anti-replay window of \<^verbatim>\<open>crates/warrenguard-multihop/src/replay.rs\<close>: a bitmap of 1024 bits in sixteen
  64-bit words, shifted as the highest sequence number advances. It refines the obvious
  specification: a number is accepted when it was not accepted before and is not 1024 or more below
  the highest one accepted.
\<close>

section \<open>The window\<close>

definition WINDOW_SIZE :: nat where "WINDOW_SIZE = 1024"
definition BITMAP_WORDS :: nat where "BITMAP_WORDS = 16"

record replay_window =
  highest :: "u64 option"
  bitmap :: "u64 list"

datatype replay_error = Replay (replay_seq: u64) (replay_epoch: u32)

definition new_window :: replay_window where
  "new_window = \<lparr>highest = None, bitmap = replicate BITMAP_WORDS 0\<rparr>"

definition set_bit_at :: "nat \<Rightarrow> u64 list \<Rightarrow> u64 list" where
  "set_bit_at offset bm =
     bm[offset div 64 := bm ! (offset div 64) OR push_bit (offset mod 64) 1]"

definition get_bit :: "u64 list \<Rightarrow> nat \<Rightarrow> bool" where
  "get_bit bm offset \<longleftrightarrow> drop_bit (offset mod 64) (bm ! (offset div 64)) AND 1 = 1"

fun carry_loop :: "nat \<Rightarrow> u64 \<Rightarrow> u64 list \<Rightarrow> u64 list" where
  "carry_loop bit_shift carry [] = []"
| "carry_loop bit_shift carry (word # words) =
     (push_bit bit_shift word OR carry) # carry_loop bit_shift (drop_bit (64 - bit_shift) word) words"

definition move_words :: "nat \<Rightarrow> u64 list \<Rightarrow> u64 list" where
  "move_words word_shift bm = map (\<lambda>i. if word_shift \<le> i then bm ! (i - word_shift) else 0) [0..<BITMAP_WORDS]"

definition shift_left :: "nat \<Rightarrow> u64 list \<Rightarrow> u64 list" where
  "shift_left shift bm =
     (if shift \<ge> WINDOW_SIZE then replicate BITMAP_WORDS 0
      else let word_shift = shift div 64; bit_shift = shift mod 64; new_bitmap = move_words word_shift bm
           in if bit_shift \<noteq> 0 then carry_loop bit_shift 0 new_bitmap else new_bitmap)"

definition check_and_record :: "replay_window \<Rightarrow> u64 \<Rightarrow> u32 \<Rightarrow> replay_window \<times> (replay_error + unit)" where
  "check_and_record w seq ep =
     (case highest w of
        None \<Rightarrow> (w\<lparr>bitmap := set_bit_at 0 (bitmap w), highest := Some seq\<rparr>, Inr ())
      | Some h \<Rightarrow>
          if seq > h then
            (w\<lparr>bitmap := set_bit_at 0 (shift_left (unat (seq - h)) (bitmap w)), highest := Some seq\<rparr>, Inr ())
          else let offset = unat (h - seq) in
            if offset \<ge> WINDOW_SIZE then (w, Inl (Replay seq ep))
            else if get_bit (bitmap w) offset then (w, Inl (Replay seq ep))
            else (w\<lparr>bitmap := set_bit_at offset (bitmap w)\<rparr>, Inr ()))"

definition check :: "replay_window \<Rightarrow> u64 \<Rightarrow> u32 \<Rightarrow> replay_error + unit" where
  "check w seq ep =
     (case highest w of
        None \<Rightarrow> Inr ()
      | Some h \<Rightarrow>
          if seq > h then Inr ()
          else let offset = unat (h - seq) in
            if offset \<ge> WINDOW_SIZE then Inl (Replay seq ep)
            else if get_bit (bitmap w) offset then Inl (Replay seq ep)
            else Inr ())"

section \<open>The bitmap, bit by bit\<close>

lemma get_bit_iff: "get_bit bm i \<longleftrightarrow> bit (bm ! (i div 64)) (i mod 64)"
  by (simp add: get_bit_def and_one_eq bit_iff_odd_drop_bit odd_iff_mod_2_eq_one)

lemma get_bit_set:
  assumes "length bm = BITMAP_WORDS" and "j < WINDOW_SIZE"
  shows "get_bit (set_bit_at j bm) i \<longleftrightarrow> i = j \<or> get_bit bm i"
proof -
  have "j div 64 < length bm" using assms by (simp add: BITMAP_WORDS_def WINDOW_SIZE_def)
  moreover have "i = j \<longleftrightarrow> i div 64 = j div 64 \<and> i mod 64 = j mod 64"
    by (metis div_mult_mod_eq)
  ultimately show ?thesis
    by (auto simp: get_bit_iff set_bit_at_def nth_list_update bit_simps)
qed

lemma length_carry_loop [simp]: "length (carry_loop b c ws) = length ws"
  by (induction b c ws rule: carry_loop.induct) simp_all

lemma carry_loop_nth:
  "i < length ws \<Longrightarrow> carry_loop b c ws ! i
    = push_bit b (ws ! i) OR (if i = 0 then c else drop_bit (64 - b) (ws ! (i - 1)))"
proof (induction b c ws arbitrary: i rule: carry_loop.induct)
  case (2 b c w ws)
  then show ?case by (cases i) (auto simp: nth_Cons')
qed simp

lemma length_bitmaps [simp]:
  "length (move_words k bm) = BITMAP_WORDS" "length bm = BITMAP_WORDS \<Longrightarrow> length (set_bit_at j bm) = BITMAP_WORDS"
  "length (shift_left d bm) = BITMAP_WORDS"
  by (simp_all add: move_words_def set_bit_at_def shift_left_def Let_def)

lemma bit_carried:
  fixes w v :: u64
  assumes "0 < b" and "b < 64" and "n < 64"
  shows "bit (push_bit b w OR drop_bit (64 - b) v) n \<longleftrightarrow> (if b \<le> n then bit w (n - b) else bit v (64 + n - b))"
proof -
  have "\<not> bit v (64 - b + n)" if "b \<le> n" using that assms bit_imp_le_length [of v "64 - b + n"] by auto
  moreover have "64 - b + n = 64 + n - b" using assms by simp
  ultimately show ?thesis using assms by (auto simp: bit_simps)
qed

lemma move_words_nth:
  "q < BITMAP_WORDS \<Longrightarrow> move_words k bm ! q = (if k \<le> q then bm ! (q - k) else 0)"
  by (simp add: move_words_def)

lemma bit_shifted_word:
  assumes "q < BITMAP_WORDS" and "n < 64" and "k < BITMAP_WORDS" and "b < 64"
  shows "bit (shift_left (64 * k + b) bm ! q) n \<longleftrightarrow>
    (if b \<le> n then k \<le> q \<and> bit (bm ! (q - k)) (n - b) else k < q \<and> bit (bm ! (q - k - 1)) (64 + n - b))"
proof -
  have lt: "64 * k + b < WINDOW_SIZE" using assms(3,4) by (simp add: BITMAP_WORDS_def WINDOW_SIZE_def)
  show ?thesis
  proof (cases "b = 0")
    case True
    then show ?thesis using lt assms by (auto simp: shift_left_def move_words_nth)
  next
    case False
    have w: "shift_left (64 * k + b) bm ! q = push_bit b (move_words k bm ! q)
        OR drop_bit (64 - b) (if q = 0 then 0 else move_words k bm ! (q - 1))"
      using lt assms False by (simp add: shift_left_def carry_loop_nth)
    have "k \<le> q - 1 \<longleftrightarrow> k < q" if "q \<noteq> 0" using that by auto
    then show ?thesis
      unfolding w using assms False
      by (subst bit_carried) (auto simp: move_words_nth bit_simps)
  qed
qed

lemma get_bit_shift:
  assumes "length bm = BITMAP_WORDS" and "i < WINDOW_SIZE"
  shows "get_bit (shift_left d bm) i \<longleftrightarrow> d \<le> i \<and> get_bit bm (i - d)"
proof (cases "d < WINDOW_SIZE")
  case False
  then have "d > i" using assms(2) by simp
  moreover have "replicate BITMAP_WORDS (0 :: u64) ! (i div 64) = 0"
    using assms(2) by (intro nth_replicate) (simp add: BITMAP_WORDS_def WINDOW_SIZE_def)
  ultimately show ?thesis using False by (simp add: get_bit_iff shift_left_def)
next
  case True
  define q n k b where "q = i div 64" "n = i mod 64" "k = d div 64" "b = d mod 64"
  note qn = this
  have i: "i = 64 * q + n" "n < 64" and d: "d = 64 * k + b" "b < 64" by (simp_all add: qn)
  have lt: "q < BITMAP_WORDS" "k < BITMAP_WORDS"
    using assms(2) True by (simp_all add: qn BITMAP_WORDS_def WINDOW_SIZE_def)
  have s: "get_bit (shift_left d bm) i \<longleftrightarrow>
      (if b \<le> n then k \<le> q \<and> bit (bm ! (q - k)) (n - b) else k < q \<and> bit (bm ! (q - k - 1)) (64 + n - b))"
    using bit_shifted_word [OF lt(1) i(2) lt(2) d(2), of bm] by (simp add: get_bit_iff qn)
  show ?thesis
  proof (cases "b \<le> n")
    case True
    have "d \<le> i \<longleftrightarrow> k \<le> q" using i d True by auto
    moreover have "(i - d) div 64 = q - k" "(i - d) mod 64 = n - b" if "k \<le> q"
    proof -
      have "i - d = 64 * (q - k) + (n - b)" using that i d True by (simp add: algebra_simps)
      then show "(i - d) div 64 = q - k" "(i - d) mod 64 = n - b" using i(2) by simp_all
    qed
    ultimately show ?thesis using s True by (auto simp: get_bit_iff)
  next
    case False
    have "d \<le> i \<longleftrightarrow> k < q" using i d False by auto
    moreover have "(i - d) div 64 = q - k - 1" "(i - d) mod 64 = 64 + n - b" if "k < q"
    proof -
      have "i - d = 64 * (q - k - 1) + (64 + n - b)" using that i d False by (simp add: algebra_simps)
      then show "(i - d) div 64 = q - k - 1" "(i - d) mod 64 = 64 + n - b" using i(2) False by simp_all
    qed
    ultimately show ?thesis using s False by (auto simp: get_bit_iff)
  qed
qed

section \<open>The specification\<close>

text \<open>
  The specification keeps the set of all numbers accepted so far. A number is fresh when it is not
  among them and no accepted number is 1024 or more above it.
\<close>

definition spec_fresh :: "u64 set \<Rightarrow> u64 \<Rightarrow> bool" where
  "spec_fresh accepted seq \<longleftrightarrow> seq \<notin> accepted \<and> (\<forall>h \<in> accepted. unat h < unat seq + WINDOW_SIZE)"

fun spec_run :: "u64 set \<Rightarrow> u64 list \<Rightarrow> bool list" where
  "spec_run accepted [] = []"
| "spec_run accepted (seq # seqs) =
     spec_fresh accepted seq # spec_run (if spec_fresh accepted seq then insert seq accepted else accepted) seqs"

fun window_run :: "replay_window \<Rightarrow> u32 \<Rightarrow> u64 list \<Rightarrow> bool list" where
  "window_run w ep [] = []"
| "window_run w ep (seq # seqs) =
     (case check_and_record w seq ep of (w', r) \<Rightarrow> (r = Inr ()) # window_run w' ep seqs)"

text \<open>A window stands for a set of accepted numbers.\<close>

definition represents :: "replay_window \<Rightarrow> u64 set \<Rightarrow> bool" where
  "represents w accepted \<longleftrightarrow> length (bitmap w) = BITMAP_WORDS \<and>
     (case highest w of
        None \<Rightarrow> accepted = {} \<and> (\<forall>i < WINDOW_SIZE. \<not> get_bit (bitmap w) i)
      | Some h \<Rightarrow> h \<in> accepted \<and> (\<forall>x \<in> accepted. x \<le> h)
          \<and> (\<forall>i < WINDOW_SIZE. get_bit (bitmap w) i \<longleftrightarrow> (\<exists>x \<in> accepted. unat x + i = unat h)))"

lemma represents_new: "represents new_window {}"
  by (auto simp: represents_def new_window_def get_bit_iff BITMAP_WORDS_def WINDOW_SIZE_def)

lemma unat_diff: "(x :: u64) \<le> y \<Longrightarrow> unat (y - x) = unat y - unat x"
  by (rule unat_sub)

lemma seen_iff:
  assumes "represents w accepted" and "highest w = Some h" and "seq \<le> h" and "unat (h - seq) < WINDOW_SIZE"
  shows "get_bit (bitmap w) (unat (h - seq)) \<longleftrightarrow> seq \<in> accepted"
proof -
  have le: "unat seq \<le> unat h" using assms(3) by (simp add: word_le_nat_alt)
  have "get_bit (bitmap w) (unat (h - seq)) \<longleftrightarrow> (\<exists>x \<in> accepted. unat x + (unat h - unat seq) = unat h)"
    using assms by (simp add: represents_def unat_diff)
  also have "\<dots> \<longleftrightarrow> (\<exists>x \<in> accepted. x = seq)"
  proof -
    have "unat x + (unat h - unat seq) = unat h \<longleftrightarrow> x = seq" for x
      unfolding word_unat_eq_iff using le by linarith
    then show ?thesis by simp
  qed
  finally show ?thesis by simp
qed

lemma record_advances:
  assumes "represents w accepted" and "highest w = Some h" and "h < seq"
  shows "represents (w\<lparr>bitmap := set_bit_at 0 (shift_left (unat (seq - h)) (bitmap w)), highest := Some seq\<rparr>) (insert seq accepted)"
    and "spec_fresh accepted seq"
proof -
  have lt: "unat h < unat seq" using assms(3) by (simp add: word_less_nat_alt)
  have A: "\<forall>x \<in> accepted. unat x \<le> unat h" using assms(1,2) by (simp add: represents_def word_le_nat_alt)
  then show "spec_fresh accepted seq" using lt by (fastforce simp: spec_fresh_def)
  have len: "length (bitmap w) = BITMAP_WORDS" using assms(1) by (simp add: represents_def)
  have d: "unat (seq - h) = unat seq - unat h" using assms(3) by (simp add: unat_diff)
  have "get_bit (set_bit_at 0 (shift_left (unat (seq - h)) (bitmap w))) i \<longleftrightarrow>
      (\<exists>x \<in> insert seq accepted. unat x + i = unat seq)" if i: "i < WINDOW_SIZE" for i
  proof -
    have "get_bit (set_bit_at 0 (shift_left (unat (seq - h)) (bitmap w))) i \<longleftrightarrow>
        i = 0 \<or> unat seq - unat h \<le> i \<and> get_bit (bitmap w) (i - (unat seq - unat h))"
      using len i by (simp add: get_bit_set get_bit_shift d WINDOW_SIZE_def)
    also have "\<dots> \<longleftrightarrow> i = 0 \<or> unat seq - unat h \<le> i \<and> (\<exists>x \<in> accepted. unat x + (i - (unat seq - unat h)) = unat h)"
      using assms(1,2) i by (simp add: represents_def)
    also have "\<dots> \<longleftrightarrow> (\<exists>x \<in> insert seq accepted. unat x + i = unat seq)"
    proof -
      have "unat seq - unat h \<le> i \<and> unat x + (i - (unat seq - unat h)) = unat h \<longleftrightarrow> unat x + i = unat seq"
        if "x \<in> accepted" for x using A that lt by fastforce
      then show ?thesis by auto
    qed
    finally show ?thesis .
  qed
  moreover have "\<forall>x \<in> accepted. x \<le> seq" using A lt by (auto simp: word_le_nat_alt)
  ultimately show "represents (w\<lparr>bitmap := set_bit_at 0 (shift_left (unat (seq - h)) (bitmap w)), highest := Some seq\<rparr>) (insert seq accepted)"
    using len by (simp add: represents_def)
qed

lemma record_fills:
  assumes "represents w accepted" and "highest w = Some h" and "seq \<le> h" and "unat (h - seq) < WINDOW_SIZE"
  shows "represents (w\<lparr>bitmap := set_bit_at (unat (h - seq)) (bitmap w)\<rparr>) (insert seq accepted)"
proof -
  have le: "unat seq \<le> unat h" using assms(3) by (simp add: word_le_nat_alt)
  have len: "length (bitmap w) = BITMAP_WORDS" using assms(1) by (simp add: represents_def)
  have "get_bit (set_bit_at (unat (h - seq)) (bitmap w)) i \<longleftrightarrow> (\<exists>x \<in> insert seq accepted. unat x + i = unat h)"
    if i: "i < WINDOW_SIZE" for i
  proof -
    have "i = unat (h - seq) \<longleftrightarrow> unat seq + i = unat h" using le by (auto simp: unat_diff [OF assms(3)])
    moreover have "get_bit (bitmap w) i \<longleftrightarrow> (\<exists>x \<in> accepted. unat x + i = unat h)"
      using assms(1,2) i by (simp add: represents_def)
    ultimately show ?thesis by (simp add: get_bit_set [OF len assms(4)])
  qed
  then show ?thesis
    using assms(1-3) len by (auto simp: represents_def)
qed

lemma check_and_record_refines:
  assumes "represents w accepted" and "check_and_record w seq ep = (w', r)"
  shows "r = (if spec_fresh accepted seq then Inr () else Inl (Replay seq ep))"
    "represents w' (if spec_fresh accepted seq then insert seq accepted else accepted)"
proof -
  have "r = (if spec_fresh accepted seq then Inr () else Inl (Replay seq ep))
    \<and> represents w' (if spec_fresh accepted seq then insert seq accepted else accepted)"
  proof (cases "highest w")
    case None
    then have "accepted = {}" "\<forall>i < WINDOW_SIZE. \<not> get_bit (bitmap w) i" "length (bitmap w) = BITMAP_WORDS"
      using assms(1) by (simp_all add: represents_def)
    then show ?thesis
      using assms(2) None
      by (auto simp: check_and_record_def spec_fresh_def represents_def get_bit_set WINDOW_SIZE_def)
  next
    case (Some h)
    note w = Some
    consider (above) "h < seq" | (old) "seq \<le> h" "WINDOW_SIZE \<le> unat (h - seq)" | (inside) "seq \<le> h" "unat (h - seq) < WINDOW_SIZE"
      by (meson not_le)
    then show ?thesis
    proof cases
      case above
      then show ?thesis
        using record_advances [OF assms(1) w above] assms(2) w by (auto simp: check_and_record_def)
    next
      case old
      have "h \<in> accepted" using assms(1) w by (simp add: represents_def)
      moreover have "\<not> unat h < unat seq + WINDOW_SIZE" using old by (auto simp: unat_diff word_le_nat_alt)
      ultimately have "\<not> spec_fresh accepted seq" by (auto simp: spec_fresh_def)
      then show ?thesis using old assms w by (auto simp: check_and_record_def Let_def leD)
    next
      case inside
      have "\<forall>x \<in> accepted. unat x \<le> unat h" using assms(1) w by (simp add: represents_def word_le_nat_alt)
      moreover have "unat h < unat seq + WINDOW_SIZE" using inside by (auto simp: unat_diff word_le_nat_alt)
      ultimately have "spec_fresh accepted seq \<longleftrightarrow> seq \<notin> accepted" by (auto simp: spec_fresh_def)
      then show ?thesis
        using inside assms w seen_iff [OF assms(1) w inside] record_fills [OF assms(1) w inside]
        by (auto simp: check_and_record_def Let_def leD split: if_splits)
    qed
  qed
  then show "r = (if spec_fresh accepted seq then Inr () else Inl (Replay seq ep))"
    "represents w' (if spec_fresh accepted seq then insert seq accepted else accepted)" by auto
qed

lemma window_run_refines: "represents w accepted \<Longrightarrow> window_run w ep seqs = spec_run accepted seqs"
proof (induction seqs arbitrary: w accepted)
  case (Cons seq seqs)
  obtain w' r where c: "check_and_record w seq ep = (w', r)" by fastforce
  note c' = check_and_record_refines [OF Cons.prems c]
  show ?case using c c'(1) Cons.IH [OF c'(2)] by simp
qed simp

text \<open>
  C21: The replay window implements its specification. On every sequence of numbers, a fresh window
  accepts exactly those that were not accepted before and are not 1024 or more below the highest one
  accepted, for numbers over the whole range of 64 bits.
\<close>
theorem replay_window_refines_spec: "window_run new_window ep seqs = spec_run {} seqs"
  using represents_new by (rule window_run_refines)

text \<open>The probe decides as the record does.\<close>

lemma check_decides: "check w seq ep = snd (check_and_record w seq ep)"
  by (simp add: check_def check_and_record_def Let_def split: option.split)

end
