(* ===== verification/Backoff.thy ===== *)
theory Backoff
  imports Prelude
begin

text \<open>
  The retry schedules of \<^verbatim>\<open>crates/warrenguard-backoff/src/lib.rs\<close>: exponential backoff with jitter, as a
  finite iterator and as an unbounded generator over the same step. The random draws are a parameter:
  \<open>rng i h\<close> is the draw of step \<open>i\<close> from the range \<open>0..=h\<close>. Durations are nanoseconds; \<open>DURATION_MAX\<close> is the
  largest \<open>Duration\<close>, where its multiplication saturates.
\<close>

definition DURATION_MAX :: nat where
  "DURATION_MAX = (2 ^ 64 - 1) * nanos_per_sec + 999999999"

record backoff =
  base :: duration
  max_delay :: duration

definition HANDSHAKE :: backoff where "HANDSHAKE = \<lparr>base = 500000000, max_delay = from_secs 15\<rparr>"
definition BACKGROUND :: backoff where "BACKGROUND = \<lparr>base = from_secs 1, max_delay = from_secs 60\<rparr>"
definition SHORT :: backoff where "SHORT = \<lparr>base = 200000000, max_delay = from_secs 5\<rparr>"

definition MIN_EFFECTIVE_BASE :: duration where "MIN_EFFECTIVE_BASE = 1"

text \<open>The delay of one step and the value of \<open>next\<close> after it.\<close>

definition jitter_step :: "backoff \<Rightarrow> (nat \<Rightarrow> nat) \<Rightarrow> duration \<Rightarrow> duration \<times> duration" where
  "jitter_step b draw next =
     (if next = 0 then
        let floor = min MIN_EFFECTIVE_BASE (max_delay b)
        in (0, max (min (base b) (max_delay b)) floor)
      else let current = min next (max_delay b);
               next' = min (min (2 * current) DURATION_MAX) (max_delay b);
               half = current div 2;
               half_nanos = min half (2 ^ 64 - 1);
               jitter_nanos = draw half_nanos
           in (half + jitter_nanos, next'))"

record backoff_iter =
  it_backoff :: backoff
  remaining :: nat
  it_next :: duration

definition take_attempts :: "backoff \<Rightarrow> nat \<Rightarrow> backoff_iter" where
  "take_attempts b attempts = \<lparr>it_backoff = b, remaining = attempts, it_next = 0\<rparr>"

definition iter_next :: "(nat \<Rightarrow> nat) \<Rightarrow> backoff_iter \<Rightarrow> duration option \<times> backoff_iter" where
  "iter_next draw it =
     (if remaining it = 0 then (None, it)
      else case jitter_step (it_backoff it) draw (it_next it) of (d, next') \<Rightarrow>
        (Some d, it\<lparr>remaining := remaining it - 1, it_next := next'\<rparr>))"

record jitter_backoff =
  jb_backoff :: backoff
  jb_next :: duration

definition forever :: "backoff \<Rightarrow> jitter_backoff" where
  "forever b = \<lparr>jb_backoff = b, jb_next = 0\<rparr>"

definition next_delay :: "(nat \<Rightarrow> nat) \<Rightarrow> jitter_backoff \<Rightarrow> duration \<times> jitter_backoff" where
  "next_delay draw jb =
     (case jitter_step (jb_backoff jb) draw (jb_next jb) of (d, next') \<Rightarrow> (d, jb\<lparr>jb_next := next'\<rparr>))"

definition reset :: "jitter_backoff \<Rightarrow> jitter_backoff" where
  "reset jb = jb\<lparr>jb_next := 0\<rparr>"

section \<open>Runs of the two generators\<close>

fun iter_run :: "(nat \<Rightarrow> nat \<Rightarrow> nat) \<Rightarrow> nat \<Rightarrow> nat \<Rightarrow> backoff_iter \<Rightarrow> duration option list" where
  "iter_run rng i 0 it = []"
| "iter_run rng i (Suc n) it = (case iter_next (rng i) it of (d, it') \<Rightarrow> d # iter_run rng (Suc i) n it')"

fun jitter_run :: "(nat \<Rightarrow> nat \<Rightarrow> nat) \<Rightarrow> nat \<Rightarrow> nat \<Rightarrow> jitter_backoff \<Rightarrow> duration list" where
  "jitter_run rng i 0 jb = []"
| "jitter_run rng i (Suc n) jb = (case next_delay (rng i) jb of (d, jb') \<Rightarrow> d # jitter_run rng (Suc i) n jb')"

lemma iter_exhausted: "remaining it = 0 \<Longrightarrow> iter_run rng i n it = replicate n None"
  by (induction n arbitrary: i) (simp_all add: iter_next_def)

lemma iter_run_jitter_run:
  "it_backoff it = jb_backoff jb \<Longrightarrow> it_next it = jb_next jb \<Longrightarrow>
    iter_run rng i n it = map Some (jitter_run rng i (min n (remaining it)) jb) @ replicate (n - remaining it) None"
proof (induction n arbitrary: i it jb)
  case (Suc n)
  show ?case
  proof (cases "remaining it")
    case 0
    then show ?thesis by (simp add: iter_next_def iter_exhausted)
  next
    case (Suc k)
    obtain d next' where s: "jitter_step (it_backoff it) (rng i) (it_next it) = (d, next')" by fastforce
    let ?it = "it\<lparr>remaining := k, it_next := next'\<rparr>" and ?jb = "jb\<lparr>jb_next := next'\<rparr>"
    have "iter_next (rng i) it = (Some d, ?it)" "next_delay (rng i) jb = (d, ?jb)"
      using Suc s Suc.prems by (simp_all add: iter_next_def next_delay_def)
    moreover have "iter_run rng (Suc i) n ?it
        = map Some (jitter_run rng (Suc i) (min n (remaining ?it)) ?jb) @ replicate (n - remaining ?it) None"
      using Suc.prems by (intro Suc.IH) simp_all
    ultimately show ?thesis using Suc by simp
  qed
qed simp

section \<open>The delays\<close>

text \<open>The upper end of the range of the draw at each step.\<close>

fun ceiling :: "backoff \<Rightarrow> nat \<Rightarrow> duration" where
  "ceiling b 0 = 0"
| "ceiling b (Suc 0) = max (min (base b) (max_delay b)) (min MIN_EFFECTIVE_BASE (max_delay b))"
| "ceiling b (Suc (Suc i)) = min (2 * ceiling b (Suc i)) (max_delay b)"

lemma ceiling_le: "ceiling b i \<le> max_delay b"
  by (induction b i rule: ceiling.induct) auto

lemma ceiling_pos: "max_delay b > 0 \<Longrightarrow> 0 < ceiling b (Suc i)"
  by (induction i) (auto simp: MIN_EFFECTIVE_BASE_def)

lemma ceiling_Suc: "ceiling b (Suc (Suc i)) = min (2 * ceiling b (Suc i)) (max_delay b)"
  by simp

lemma ceiling_grows: "ceiling b (Suc i) = min (2 ^ i * ceiling b (Suc 0)) (max_delay b)"
proof (induction i)
  case 0
  show ?case using ceiling_le [of b "Suc 0"] by simp
next
  case (Suc i)
  then show ?case unfolding ceiling_Suc by (auto simp: min_def)
qed

lemma jitter_run_delays:
  assumes "0 < max_delay b" and "max_delay b \<le> DURATION_MAX" and "\<And>i h. rng i h \<le> h"
    and "jb_backoff jb = b" and "jb_next jb = ceiling b i" and "k < n"
  shows "let d = jitter_run rng i n jb ! k; c = ceiling b (i + k) in c div 2 \<le> d \<and> d \<le> c"
  using assms(4-6)
proof (induction n arbitrary: i k jb)
  case (Suc n)
  obtain d next' where s: "jitter_step b (rng i) (ceiling b i) = (d, next')" by fastforce
  have nx: "next' = ceiling b (Suc i)"
  proof (cases i)
    case 0
    then show ?thesis using s by (simp add: jitter_step_def Let_def)
  next
    case (Suc j)
    have c: "ceiling b (Suc j) \<le> max_delay b" "0 < ceiling b (Suc j)"
      using ceiling_le [of b "Suc j"] ceiling_pos [OF assms(1)] by simp_all
    then show ?thesis
      using s Suc assms(2) by (simp add: jitter_step_def Let_def min_def split: if_splits)
  qed
  have d: "ceiling b i div 2 \<le> d \<and> d \<le> ceiling b i"
  proof (cases i)
    case 0
    then show ?thesis using s by (simp add: jitter_step_def Let_def)
  next
    case (Suc j)
    have c: "min (ceiling b i) (max_delay b) = ceiling b i" "0 < ceiling b i"
      using ceiling_le [of b i] ceiling_pos [OF assms(1)] Suc by auto
    have "rng i (min (ceiling b i div 2) (2 ^ 64 - 1)) \<le> ceiling b i div 2"
      using assms(3) [of i "min (ceiling b i div 2) (2 ^ 64 - 1)"] by simp
    moreover have "d = ceiling b i div 2 + rng i (min (ceiling b i div 2) (2 ^ 64 - 1))"
      using s c by (simp add: jitter_step_def Let_def)
    ultimately show ?thesis by linarith
  qed
  have n: "next_delay (rng i) jb = (d, jb\<lparr>jb_next := next'\<rparr>)"
    using s Suc.prems by (simp add: next_delay_def)
  show ?case
  proof (cases k)
    case 0
    then show ?thesis using n d by simp
  next
    case (Suc k')
    have "let d = jitter_run rng (Suc i) n (jb\<lparr>jb_next := next'\<rparr>) ! k'; c = ceiling b (Suc i + k') in c div 2 \<le> d \<and> d \<le> c"
      using Suc.prems Suc nx by (intro Suc.IH) simp_all
    then show ?thesis using n Suc by simp
  qed
qed simp

text \<open>
  C23: The finite and the unbounded schedule are one. For the same draws, the iterator over a number of
  attempts yields exactly the first delays of the unbounded generator and then nothing, forever. The
  first delay is zero, and every later one lies between half of a ceiling and that ceiling, which
  starts at the base, doubles with every step and stops at the maximum: however long the run, no
  delay exceeds the maximum, and the ceilings reach it.
\<close>
theorem backoff_schedules_agree:
  assumes "0 < max_delay b" and "max_delay b \<le> DURATION_MAX" and "\<And>i h. rng i h \<le> h"
  shows "iter_run rng 0 n (take_attempts b attempts)
      = map Some (jitter_run rng 0 (min n attempts) (forever b)) @ replicate (n - attempts) None
    \<and> (\<forall>k < n. let d = jitter_run rng 0 n (forever b) ! k;
          c = (if k = 0 then 0 else min (2 ^ (k - 1) * max 1 (min (base b) (max_delay b))) (max_delay b))
        in c div 2 \<le> d \<and> d \<le> c)"
proof -
  have c: "ceiling b (0 + k) = (if k = 0 then 0 else min (2 ^ (k - 1) * max 1 (min (base b) (max_delay b))) (max_delay b))" for k
  proof (cases k)
    case (Suc j)
    have "ceiling b (Suc 0) = max 1 (min (base b) (max_delay b))"
      using assms(1) by (simp add: MIN_EFFECTIVE_BASE_def max.commute)
    then show ?thesis using Suc ceiling_grows [of b j] by simp
  qed simp
  have "let d = jitter_run rng 0 n (forever b) ! k; c = ceiling b (0 + k) in c div 2 \<le> d \<and> d \<le> c" if "k < n" for k
    by (rule jitter_run_delays [OF assms]) (use that in \<open>simp_all add: forever_def\<close>)
  moreover have "iter_run rng 0 n (take_attempts b attempts)
      = map Some (jitter_run rng 0 (min n attempts) (forever b)) @ replicate (n - attempts) None"
    using iter_run_jitter_run [of "take_attempts b attempts" "forever b"] by (simp add: take_attempts_def forever_def)
  ultimately show ?thesis unfolding c by blast
qed

theorem backoff_schedules_agree_witness:
  "iter_run (\<lambda>_ h. h) 0 (Suc (Suc (Suc (Suc (Suc 0))))) (take_attempts HANDSHAKE (Suc (Suc (Suc (Suc 0)))))
    = [Some 0, Some 500000000, Some 1000000000, Some 2000000000, None]"
proof -
  have "0 < max_delay HANDSHAKE" "max_delay HANDSHAKE \<le> DURATION_MAX"
    by (simp_all add: HANDSHAKE_def DURATION_MAX_def from_secs_def)
  from backoff_schedules_agree [OF this, of "\<lambda>_ h. h" "Suc (Suc (Suc (Suc (Suc 0))))" "Suc (Suc (Suc (Suc 0)))"] show ?thesis
    by (simp add: forever_def next_delay_def jitter_step_def HANDSHAKE_def DURATION_MAX_def from_secs_def
        MIN_EFFECTIVE_BASE_def Let_def)
qed

end
