(* ===== verification/Conn_Limit.thy ===== *)
theory Conn_Limit
  imports Backoff
begin

text \<open>
  The connection-attempt limiter of \<^verbatim>\<open>crates/warrenguard-ratelimit/src/connection_limiter.rs\<close>: a token bucket
  per key, one token per attempt, in a map with a hard cap on its keys. Over every run, and through
  every reclaim of idle keys, a key obtains no more attempts in a window than its burst and the tokens
  the window regenerates. The tokens are natural numbers with the saturation of \<open>u32\<close> written out.
\<close>

section \<open>The limiter\<close>

abbreviation u32_max :: nat where "u32_max \<equiv> 2 ^ 32 - 1"

definition MAX_TRACKED_KEYS :: nat where "MAX_TRACKED_KEYS = 1000000"
definition RECLAIM_MIN_INTERVAL :: duration where "RECLAIM_MIN_INTERVAL = from_secs 1"

record conn_state =
  tokens :: nat
  last_refill :: instant

record 'k conn_limiter =
  burst :: nat
  refill_interval :: duration
  max_tracked :: nat
  tracked_keys :: "('k, conn_state) hmap"
  last_reclaim :: "instant option"

text \<open>\<open>None\<close> is the panic on a zero burst or interval.\<close>

definition conn_with_max_tracked :: "nat \<Rightarrow> duration \<Rightarrow> nat \<Rightarrow> 'k conn_limiter option" where
  "conn_with_max_tracked b interval cap =
     (if b > 0 \<and> interval \<noteq> 0
      then Some \<lparr>burst = b, refill_interval = interval, max_tracked = cap, tracked_keys = [], last_reclaim = None\<rparr>
      else None)"

definition conn_new :: "nat \<Rightarrow> duration \<Rightarrow> 'k conn_limiter option" where
  "conn_new b interval = conn_with_max_tracked b interval MAX_TRACKED_KEYS"

definition full_recovery :: "'k conn_limiter \<Rightarrow> duration" where
  "full_recovery lim = min (refill_interval lim * burst lim) DURATION_MAX"

definition reclaim :: "'k conn_limiter \<Rightarrow> instant \<Rightarrow> 'k conn_limiter" where
  "reclaim lim now =
     (if (case last_reclaim lim of None \<Rightarrow> True | Some t \<Rightarrow> now - t \<ge> RECLAIM_MIN_INTERVAL)
      then lim\<lparr>last_reclaim := Some now,
               tracked_keys := hm_retain (\<lambda>_ st. now - last_refill st < full_recovery lim) (tracked_keys lim)\<rparr>
      else lim)"

text \<open>The entry of the key after the refill.\<close>

definition refill :: "'k conn_limiter \<Rightarrow> instant \<Rightarrow> conn_state \<Rightarrow> conn_state" where
  "refill lim now st =
     (let elapsed = now - last_refill st;
          refills = (if refill_interval lim = 0 then 0 else min (elapsed div refill_interval lim) u32_max)
      in if refills > 0 then
           \<lparr>tokens = min (min (tokens st + refills) u32_max) (burst lim),
            last_refill = last_refill st + min (refill_interval lim * refills) DURATION_MAX\<rparr>
         else st)"

definition try_acquire_at :: "'k conn_limiter \<Rightarrow> 'k \<Rightarrow> instant \<Rightarrow> 'k conn_limiter \<times> bool" where
  "try_acquire_at lim key now =
     (let full = (\<lambda>l. \<not> hm_contains (tracked_keys lim) key \<and> length (tracked_keys l) \<ge> max_tracked l);
          lim1 = (if full lim then reclaim lim now else lim)
      in if full lim1 then (lim1, False)
         else let entry = (case hm_get (tracked_keys lim1) key of
                             Some st \<Rightarrow> st | None \<Rightarrow> \<lparr>tokens = burst lim1, last_refill = now\<rparr>);
                  st = refill lim1 now entry
              in if tokens st > 0
                 then (lim1\<lparr>tracked_keys := hm_insert key (st\<lparr>tokens := tokens st - 1\<rparr>) (tracked_keys lim1)\<rparr>, True)
                 else (lim1\<lparr>tracked_keys := hm_insert key st (tracked_keys lim1)\<rparr>, False))"

definition conn_retain_active :: "'k conn_limiter \<Rightarrow> duration \<Rightarrow> instant \<Rightarrow> 'k conn_limiter" where
  "conn_retain_active lim idle now =
     lim\<lparr>tracked_keys := hm_retain (\<lambda>_ st. now - last_refill st < idle) (tracked_keys lim)\<rparr>"

section \<open>The credit of a key\<close>

text \<open>
  In units of time: what the bucket of a key is worth at an instant, were it refilled then. A key that
  is not tracked is worth a full bucket.
\<close>

definition worth :: "nat \<Rightarrow> duration \<Rightarrow> conn_state \<Rightarrow> instant \<Rightarrow> nat" where
  "worth b i st now = min (tokens st + (now - last_refill st) div i) b * i + (now - last_refill st) mod i"

definition credit :: "'k conn_limiter \<Rightarrow> 'k \<Rightarrow> instant \<Rightarrow> nat" where
  "credit lim key now =
     (case hm_get (tracked_keys lim) key of
        None \<Rightarrow> burst lim * refill_interval lim
      | Some st \<Rightarrow> worth (burst lim) (refill_interval lim) st now)"

lemma mod_add_le: "((x :: nat) + y) mod i \<le> x mod i + y"
  by (metis add_right_mono mod_add_left_eq mod_less_eq_dividend order_trans)

lemma worth_time:
  assumes "0 < i" and "last_refill st \<le> t" and "t \<le> now"
  shows "worth b i st now \<le> worth b i st t + (now - t)"
proof -
  define x y where "x = t - last_refill st" and "y = now - t"
  have n: "now - last_refill st = x + y" using assms by (simp add: x_def y_def)
  let ?f = "\<lambda>e. min (tokens st + e div i) b * i + e mod i"
  have "?f (x + y) \<le> ?f x + y"
  proof (cases "tokens st + x div i \<le> b")
    case True
    have "?f (x + y) \<le> (tokens st + (x + y) div i) * i + (x + y) mod i" by (simp add: min_def)
    also have "\<dots> = tokens st * i + (x + y)" by (simp add: algebra_simps)
    also have "\<dots> = (tokens st + x div i) * i + x mod i + y" by (simp add: algebra_simps)
    finally show ?thesis using True by (simp add: min_def)
  next
    case False
    moreover have "x div i \<le> (x + y) div i" by (rule div_le_mono) simp
    ultimately show ?thesis using mod_add_le [of x y i] by simp
  qed
  then show ?thesis by (simp add: worth_def n flip: x_def y_def)
qed

lemma worth_bound: "0 < i \<Longrightarrow> worth b i st now < (b + 1) * i"
  by (simp add: worth_def) (metis add.commute add_less_le_mono min.cobounded2 mod_less_divisor mult_le_mono1)

lemma worth_idle:
  assumes "0 < i" and "b * i \<le> now - last_refill st"
  shows "b * i \<le> worth b i st now"
proof -
  have "b \<le> (now - last_refill st) div i" using assms by (simp add: less_eq_div_iff_mult_less_eq)
  then show ?thesis by (simp add: worth_def)
qed

text \<open>While an idle time fits the counter, a refill keeps the worth and leaves less than an interval.\<close>

lemma refill_worth:
  assumes "0 < refill_interval lim" and "burst lim \<le> u32_max" and "tokens st \<le> burst lim"
    and "last_refill st \<le> now" and "now < 2 ^ 32 * refill_interval lim" and "now \<le> DURATION_MAX"
  defines "st' \<equiv> refill lim now st"
  shows "worth (burst lim) (refill_interval lim) st' now = worth (burst lim) (refill_interval lim) st now"
    "tokens st' \<le> burst lim" "last_refill st' \<le> now" "now - last_refill st' < refill_interval lim"
proof -
  let ?i = "refill_interval lim"
  define e where "e = now - last_refill st"
  have "e div ?i < 2 ^ 32"
    using assms(1,5) by (intro less_mult_imp_div_less) (auto simp: e_def)
  then have r: "min (e div ?i) u32_max = e div ?i" by simp
  have ie: "?i * (e div ?i) \<le> e" by simp
  moreover have "e \<le> DURATION_MAX" using assms(6) by (simp add: e_def)
  ultimately have "?i * (e div ?i) \<le> DURATION_MAX" by (rule order_trans)
  then have m: "min (?i * (e div ?i)) DURATION_MAX = ?i * (e div ?i)" by simp
  have st': "st' = (if e div ?i > 0 then \<lparr>tokens = min (tokens st + e div ?i) (burst lim),
      last_refill = last_refill st + ?i * (e div ?i)\<rparr> else st)"
    unfolding st'_def refill_def Let_def e_def [symmetric] using assms(1,2) r m by (simp add: min.assoc min.absorb2)
  have rest: "now - (last_refill st + ?i * (e div ?i)) = e mod ?i"
    by (simp add: e_def modulo_nat_def algebra_simps)
  have le: "last_refill st + ?i * (e div ?i) \<le> now" using assms(4) ie unfolding e_def by linarith
  show "worth (burst lim) ?i st' now = worth (burst lim) ?i st now"
    using assms(1,3) rest by (auto simp: worth_def st' e_def)
  show "tokens st' \<le> burst lim" "last_refill st' \<le> now"
    using assms(3,4) le by (auto simp: st')
  show "now - last_refill st' < ?i"
    using assms(1) rest by (auto simp: st' e_def div_eq_0_iff)
qed

section \<open>Runs\<close>

text \<open>
  Runs under a clock that does not go back, with the history of the attempts granted. The sweep is the
  one of the owner of the limiter; it is not more eager than a full recovery.
\<close>

inductive conn_run :: "'k conn_limiter \<Rightarrow> instant \<Rightarrow> ('k \<times> instant) list \<Rightarrow> bool" where
  cr_start: "conn_with_max_tracked b i cap = Some lim \<Longrightarrow> b \<le> u32_max \<Longrightarrow> conn_run lim t []"
| cr_acquire: "conn_run lim t h \<Longrightarrow> t \<le> now \<Longrightarrow> try_acquire_at lim key now = (lim', granted) \<Longrightarrow>
    conn_run lim' now (h @ (if granted then [(key, now)] else []))"
| cr_sweep: "conn_run lim t h \<Longrightarrow> t \<le> now \<Longrightarrow> refill_interval lim * burst lim \<le> idle \<Longrightarrow>
    conn_run (conn_retain_active lim idle now) now h"

definition grants :: "'k \<Rightarrow> instant \<Rightarrow> instant \<Rightarrow> ('k \<times> instant) list \<Rightarrow> nat" where
  "grants key t0 t1 h = length (filter (\<lambda>(k, t). k = key \<and> t0 \<le> t \<and> t \<le> t1) h)"

definition table_ok :: "'k conn_limiter \<Rightarrow> instant \<Rightarrow> bool" where
  "table_ok lim now \<longleftrightarrow> 0 < refill_interval lim \<and> 0 < burst lim \<and> burst lim \<le> u32_max
     \<and> hm_wf (tracked_keys lim) \<and> length (tracked_keys lim) \<le> max_tracked lim
     \<and> (\<forall>k st. hm_get (tracked_keys lim) k = Some st \<longrightarrow> tokens st \<le> burst lim \<and> last_refill st \<le> now)"

abbreviation in_range :: "'k conn_limiter \<Rightarrow> instant \<Rightarrow> bool" where
  "in_range lim now \<equiv> now < 2 ^ 32 * refill_interval lim \<and> now < DURATION_MAX"

lemma table_okD:
  assumes "table_ok lim now"
  shows "0 < refill_interval lim" "burst lim \<le> u32_max" "hm_wf (tracked_keys lim)"
    "hm_get (tracked_keys lim) k = Some st \<Longrightarrow> tokens st \<le> burst lim"
    "hm_get (tracked_keys lim) k = Some st \<Longrightarrow> last_refill st \<le> now"
  using assms by (auto simp: table_ok_def)

lemma table_ok_later: "table_ok lim t \<Longrightarrow> t \<le> now \<Longrightarrow> table_ok lim now"
  by (force simp: table_ok_def)

lemma credit_time:
  assumes "table_ok lim t" and "t \<le> now"
  shows "credit lim key now \<le> credit lim key t + (now - t)"
  using worth_time [OF table_okD(1) [OF assms(1)] table_okD(5) [OF assms(1)] assms(2)]
  by (auto simp: credit_def split: option.splits)

lemma credit_bound:
  assumes "table_ok lim now"
  shows "credit lim key now < (burst lim + 1) * refill_interval lim"
  using worth_bound [OF table_okD(1) [OF assms]] table_okD(1) [OF assms]
  by (auto simp: credit_def split: option.splits)

text \<open>Dropping keys that had the time to recover does not give anyone more than they had.\<close>

lemma retain_spec:
  assumes "table_ok lim now" and "lim' = lim\<lparr>tracked_keys := hm_retain (\<lambda>_ st. now - last_refill st < idle) (tracked_keys lim), last_reclaim := x\<rparr>"
    and "\<And>st :: conn_state. last_refill st \<le> now \<Longrightarrow> idle \<le> now - last_refill st \<Longrightarrow> burst lim * refill_interval lim \<le> now - last_refill st"
  shows "table_ok lim' now" "credit lim' key now \<le> credit lim key now"
proof -
  have g: "hm_get (tracked_keys lim') k = (case hm_get (tracked_keys lim) k of None \<Rightarrow> None
      | Some st \<Rightarrow> if now - last_refill st < idle then Some st else None)" for k
    using table_okD(3) [OF assms(1)] by (simp add: assms(2) table)
  have "length (tracked_keys lim') \<le> length (tracked_keys lim)" by (simp add: assms(2) hm_retain_def)
  then show "table_ok lim' now"
    using assms(1) g by (auto simp: table_ok_def assms(2) wf_table split: option.splits if_splits)
  show "credit lim' key now \<le> credit lim key now"
  proof (cases "hm_get (tracked_keys lim) key")
    case None
    with g show ?thesis by (simp add: credit_def assms(2))
  next
    case (Some st)
    have "burst lim * refill_interval lim \<le> worth (burst lim) (refill_interval lim) st now" if "\<not> now - last_refill st < idle"
      using worth_idle [OF table_okD(1) [OF assms(1)]] assms(3) [OF table_okD(5) [OF assms(1) Some]] that by simp
    then show ?thesis using Some g by (auto simp: credit_def assms(2))
  qed
qed

lemma reclaim_spec:
  assumes "table_ok lim now" and "in_range lim now"
  shows "table_ok (reclaim lim now) now" "credit (reclaim lim now) key now \<le> credit lim key now"
    "burst (reclaim lim now) = burst lim" "refill_interval (reclaim lim now) = refill_interval lim"
    "max_tracked (reclaim lim now) = max_tracked lim"
    "hm_get (tracked_keys lim) key = None \<Longrightarrow> hm_get (tracked_keys (reclaim lim now)) key = None"
proof -
  let ?lim = "lim\<lparr>tracked_keys := hm_retain (\<lambda>_ st. now - last_refill st < full_recovery lim) (tracked_keys lim), last_reclaim := Some now\<rparr>"
  have idle: "burst lim * refill_interval lim \<le> now - last_refill st" if "full_recovery lim \<le> now - last_refill st" for st :: conn_state
    using that assms(2) by (auto simp: full_recovery_def mult.commute min_def split: if_splits)
  have "reclaim lim now = ?lim \<or> reclaim lim now = lim"
    by (auto simp: reclaim_def)
  moreover have "table_ok ?lim now" "credit ?lim key now \<le> credit lim key now"
    using retain_spec [OF assms(1) refl] idle by blast+
  ultimately show "table_ok (reclaim lim now) now" "credit (reclaim lim now) key now \<le> credit lim key now"
    "burst (reclaim lim now) = burst lim" "refill_interval (reclaim lim now) = refill_interval lim"
    "max_tracked (reclaim lim now) = max_tracked lim"
    "hm_get (tracked_keys lim) key = None \<Longrightarrow> hm_get (tracked_keys (reclaim lim now)) key = None"
    using assms(1) table_okD(3) [OF assms(1)] by (auto simp: table)
qed

lemma length_hm_insert: "length (hm_insert k v m) = (if hm_get m k = None then Suc (length m) else length m)"
  by (induction m) (auto simp: hm_get_def)

text \<open>Writing an entry that is worth no more than the key was.\<close>

lemma insert_spec:
  assumes "table_ok lim now" and "tokens st \<le> burst lim" and "last_refill st \<le> now"
    and "hm_get (tracked_keys lim) key = None \<Longrightarrow> length (tracked_keys lim) < max_tracked lim"
    and "worth (burst lim) (refill_interval lim) st now + x \<le> credit lim key now"
    and "lim' = lim\<lparr>tracked_keys := hm_insert key st (tracked_keys lim)\<rparr>"
  shows "table_ok lim' now" "credit lim' k now + (if k = key then x else 0) \<le> credit lim k now"
  using assms by (auto simp: table_ok_def credit_def table wf_table length_hm_insert split: option.splits)

lemma spent_worth:
  assumes "0 < i" and "tokens st \<le> b" and "0 < tokens st" and "now - last_refill st < i"
  shows "worth b i (st\<lparr>tokens := tokens st - 1\<rparr>) now + i = worth b i st now"
proof -
  have "(tokens st - 1) * i + i = tokens st * i" using assms(3) by (cases "tokens st") simp_all
  moreover have "min (tokens st - 1) b = tokens st - 1" "min (tokens st) b = tokens st" using assms(2) by simp_all
  ultimately show ?thesis using assms(4) by (simp add: worth_def)
qed

lemma try_acquire_spec:
  assumes "table_ok lim now" and "in_range lim now" and "try_acquire_at lim key now = (lim', granted)"
  shows "table_ok lim' now" "burst lim' = burst lim" "refill_interval lim' = refill_interval lim"
    "credit lim' k now + (if k = key \<and> granted then refill_interval lim else 0) \<le> credit lim k now"
proof -
  define lim1 where "lim1 = (if \<not> hm_contains (tracked_keys lim) key \<and> length (tracked_keys lim) \<ge> max_tracked lim
      then reclaim lim now else lim)"
  have l1: "table_ok lim1 now" "credit lim1 j now \<le> credit lim j now" "burst lim1 = burst lim"
    "refill_interval lim1 = refill_interval lim" for j
    using reclaim_spec [OF assms(1,2)] assms(1) by (auto simp: lim1_def)
  define entry where "entry = (case hm_get (tracked_keys lim1) key of
      Some st \<Rightarrow> st | None \<Rightarrow> \<lparr>tokens = burst lim1, last_refill = now\<rparr>)"
  define st where "st = refill lim1 now entry"
  have e: "tokens entry \<le> burst lim1" "last_refill entry \<le> now"
    "worth (burst lim1) (refill_interval lim1) entry now = credit lim1 key now"
    using table_okD(4,5) [OF l1(1)] table_okD(1) [OF l1(1)]
    by (auto simp: entry_def credit_def worth_def split: option.splits)
  have "now < 2 ^ 32 * refill_interval lim1" "now \<le> DURATION_MAX" using assms(2) l1(4) by simp_all
  note r = refill_worth [OF table_okD(1,2) [OF l1(1)] e(1,2) this, folded st_def]
  note run = assms(3) [unfolded try_acquire_at_def Let_def, folded lim1_def, folded entry_def, folded st_def]
  have "table_ok lim' now \<and> burst lim' = burst lim \<and> refill_interval lim' = refill_interval lim
      \<and> credit lim' k now + (if k = key \<and> granted then refill_interval lim else 0) \<le> credit lim k now"
  proof (cases "\<not> hm_contains (tracked_keys lim) key \<and> length (tracked_keys lim1) \<ge> max_tracked lim1")
    case True
    with run have "lim' = lim1" "\<not> granted" by auto
    with l1 show ?thesis by simp
  next
    case False
    have room: "length (tracked_keys lim1) < max_tracked lim1" if "hm_get (tracked_keys lim1) key = None"
      using False that by (auto simp: lim1_def hm_contains_def split: if_splits)
    show ?thesis
    proof (cases "0 < tokens st")
      case True
      with run False have l': "lim' = lim1\<lparr>tracked_keys := hm_insert key (st\<lparr>tokens := tokens st - 1\<rparr>) (tracked_keys lim1)\<rparr>" "granted"
        by auto
      have w: "worth (burst lim1) (refill_interval lim1) (st\<lparr>tokens := tokens st - 1\<rparr>) now + refill_interval lim1 \<le> credit lim1 key now"
        using spent_worth [OF table_okD(1) [OF l1(1)] r(2) True r(4)] r(1) e(3) by simp
      have "tokens (st\<lparr>tokens := tokens st - 1\<rparr>) \<le> burst lim1" "last_refill (st\<lparr>tokens := tokens st - 1\<rparr>) \<le> now"
        using r(2,3) by simp_all
      note i = insert_spec [OF l1(1) this room w l'(1)]
      from i(1) i(2) [of k] l1(2) [of k] l1(3,4) l' show ?thesis by auto
    next
      case no: False
      with run False have l': "lim' = lim1\<lparr>tracked_keys := hm_insert key st (tracked_keys lim1)\<rparr>" "\<not> granted"
        by auto
      have w: "worth (burst lim1) (refill_interval lim1) st now + 0 \<le> credit lim1 key now"
        using r(1) e(3) by simp
      note i = insert_spec [OF l1(1) r(2,3) room w l'(1)]
      from i(1) i(2) [of k] l1(2) [of k] l1(3,4) l' show ?thesis by auto
    qed
  qed
  then show "table_ok lim' now" "burst lim' = burst lim" "refill_interval lim' = refill_interval lim"
    "credit lim' k now + (if k = key \<and> granted then refill_interval lim else 0) \<le> credit lim k now" by simp_all
qed

definition conn_inv :: "'k conn_limiter \<Rightarrow> instant \<Rightarrow> ('k \<times> instant) list \<Rightarrow> bool" where
  "conn_inv lim now h \<longleftrightarrow> table_ok lim now \<and> (\<forall>x \<in> set h. snd x \<le> now)
     \<and> (\<forall>key t0. t0 \<le> now \<longrightarrow> grants key t0 now h * refill_interval lim + credit lim key now
          < (burst lim + 1) * refill_interval lim + (now - t0))
     \<and> (\<forall>key t0 t1. t0 \<le> t1 \<longrightarrow> grants key t0 t1 h * refill_interval lim
          < (burst lim + 1) * refill_interval lim + (t1 - t0))"

lemma grants_append: "grants key t0 t1 (h @ g) = grants key t0 t1 h + grants key t0 t1 g"
  by (simp add: grants_def)

lemma grants_later: "\<forall>x \<in> set h. snd x \<le> t \<Longrightarrow> t \<le> now \<Longrightarrow> grants key t0 now h = grants key t0 t h"
  unfolding grants_def by (rule arg_cong [of _ _ length], rule filter_cong) auto

text \<open>One step of a run, whatever it is: what it does to the table and to the credits.\<close>

lemma conn_inv_step:
  assumes "conn_inv lim t h" and "t \<le> now" and "table_ok lim' now"
    and "burst lim' = burst lim" and "refill_interval lim' = refill_interval lim"
    and "g = [] \<or> g = [(key, now)]"
    and "\<And>k. credit lim' k now + (if k = key \<and> g \<noteq> [] then refill_interval lim else 0) \<le> credit lim k now"
  shows "conn_inv lim' now (h @ g)"
proof -
  let ?i = "refill_interval lim" and ?b = "burst lim"
  have ok: "table_ok lim t" and le: "\<forall>x \<in> set h. snd x \<le> t" using assms(1) by (simp_all add: conn_inv_def)
  have old: "grants k t0 t h * ?i + credit lim k t < (?b + 1) * ?i + (t - t0)" if "t0 \<le> t" for k t0
    using assms(1) that by (simp add: conn_inv_def)
  have g: "grants k t0 t1 g = (if k = key \<and> g \<noteq> [] \<and> t0 \<le> now \<and> now \<le> t1 then 1 else 0)" for k t0 t1
    using assms(6) by (auto simp: grants_def)
  have cur: "grants k t0 now (h @ g) * ?i + credit lim' k now < (?b + 1) * ?i + (now - t0)" if t0: "t0 \<le> now" for k t0
  proof -
    let ?x = "if k = key \<and> g \<noteq> [] then ?i else 0"
    have "grants k t0 now g * ?i = ?x" using t0 by (simp add: g)
    then have eq: "grants k t0 now (h @ g) * ?i = grants k t0 t h * ?i + ?x"
      by (simp add: grants_append grants_later [OF le assms(2)] distrib_right)
    have "grants k t0 t h * ?i + credit lim k now < (?b + 1) * ?i + (now - t0)"
    proof (cases "t0 \<le> t")
      case True
      have "credit lim k now \<le> credit lim k t + (now - t)" by (rule credit_time [OF ok assms(2)])
      then show ?thesis using old [OF True, of k] True assms(2) by linarith
    next
      case False
      then have "grants k t0 t h = 0" by (auto simp: grants_def filter_empty_conv)
      then show ?thesis using credit_bound [OF table_ok_later [OF ok assms(2)], of k] by simp
    qed
    then show ?thesis using assms(7) [of k] eq by linarith
  qed
  moreover have "grants k t0 t1 (h @ g) * ?i < (?b + 1) * ?i + (t1 - t0)" if "t0 \<le> t1" for k t0 t1
  proof (cases "now \<le> t1 \<and> t0 \<le> now")
    case True
    have "\<forall>x \<in> set (h @ g). snd x \<le> now" using le assms(2,6) by auto
    then have e: "grants k t0 t1 (h @ g) = grants k t0 now (h @ g)" using True by (intro grants_later) simp_all
    have "grants k t0 now (h @ g) * ?i + credit lim' k now < (?b + 1) * ?i + (now - t0)"
      using True by (intro cur) simp
    moreover have "now - t0 \<le> t1 - t0" using True by (simp add: diff_le_mono)
    ultimately show ?thesis unfolding e by linarith
  next
    case False
    then have "grants k t0 t1 (h @ g) = grants k t0 t1 h" by (auto simp: grants_append g)
    then show ?thesis using assms(1) that by (simp add: conn_inv_def)
  qed
  moreover have "\<forall>x \<in> set (h @ g). snd x \<le> now" using le assms(2,6) by auto
  ultimately show ?thesis using assms(3-5) by (simp add: conn_inv_def)
qed

lemma try_acquire_frame:
  "try_acquire_at lim key now = (lim', granted) \<Longrightarrow> burst lim' = burst lim \<and> refill_interval lim' = refill_interval lim"
  by (auto simp: try_acquire_at_def reclaim_def Let_def split: if_splits)

lemma conn_run_inv: "conn_run lim now h \<Longrightarrow> in_range lim now \<Longrightarrow> conn_inv lim now h"
proof (induction rule: conn_run.induct)
  case (cr_start b i cap lim t)
  then have l: "lim = \<lparr>burst = b, refill_interval = i, max_tracked = cap, tracked_keys = [], last_reclaim = None\<rparr>" "0 < b" "0 < i"
    by (auto simp: conn_with_max_tracked_def split: if_splits)
  then have "0 * i + b * i < (b + 1) * i + x" for x by simp
  with l cr_start(2) show ?case
    unfolding conn_inv_def table_ok_def credit_def grants_def by (auto simp del: add_diff_assoc add_diff_assoc2)
next
  case (cr_acquire lim t h now key lim' granted)
  have r: "in_range lim now" using cr_acquire.prems try_acquire_frame [OF cr_acquire.hyps(3)] by simp
  then have inv: "conn_inv lim t h" using cr_acquire.IH cr_acquire.hyps(2) by simp
  then have "table_ok lim now" using table_ok_later cr_acquire.hyps(2) by (auto simp: conn_inv_def)
  note s = try_acquire_spec [OF this r cr_acquire.hyps(3)]
  show ?case
  proof (rule conn_inv_step [OF inv cr_acquire.hyps(2) s(1-3), where key = key])
    fix k
    show "credit lim' k now + (if k = key \<and> (if granted then [(key, now)] else []) \<noteq> [] then refill_interval lim else 0)
        \<le> credit lim k now"
      using s(4) [of k] by (cases granted) simp_all
  qed simp
next
  case (cr_sweep lim t h now idle)
  let ?lim = "conn_retain_active lim idle now"
  have inv: "conn_inv lim t h" using cr_sweep by (simp add: conn_retain_active_def)
  then have ok: "table_ok lim now" using table_ok_later cr_sweep.hyps(2) by (auto simp: conn_inv_def)
  have "?lim = lim\<lparr>tracked_keys := hm_retain (\<lambda>_ st. now - last_refill st < idle) (tracked_keys lim), last_reclaim := last_reclaim lim\<rparr>"
    by (simp add: conn_retain_active_def)
  from retain_spec [OF ok this] cr_sweep.hyps(3)
  have s: "table_ok ?lim now" "credit ?lim k now \<le> credit lim k now" for k
    by (metis mult.commute order_trans)+
  have "conn_inv ?lim now (h @ [])"
    by (rule conn_inv_step [OF inv cr_sweep.hyps(2) s(1)]) (use s(2) in \<open>auto simp: conn_retain_active_def\<close>)
  then show ?case by simp
qed


definition demo_limiter :: "nat conn_limiter" where
  "demo_limiter = the (conn_with_max_tracked 2 (from_secs 1) 10)"


end
