(* ===== verification/Ip_Holdings.thy ===== *)
theory Ip_Holdings
  imports Prelude "HOL-Library.Multiset"
begin

text \<open>
  What the two address pools of a multi-hop exit share, \<open>multihop-server/src/ip_pool.rs\<close>: the random
  draw (\<open>SplitMix64\<close>) and the live allocations of a pool (\<open>Holdings\<close>), generic in the address. The
  lemmas show that the tables of the live allocations stay consistent and that connections share an
  address only under one key.
\<close>

unbundle bit_operations_syntax

type_synonym conn_id = u64
type_synonym pubkey = "u8 list"

section \<open>The random draw\<close>

text \<open>The state of the generator is one word; every draw returns the next state.\<close>

definition next_u64 :: "u64 \<Rightarrow> u64 \<times> u64" where
  "next_u64 rng =
     (let s = rng + 0x9E3779B97F4A7C15;
          z = (s XOR drop_bit 30 s) * 0xBF58476D1CE4E5B9;
          z = (z XOR drop_bit 27 z) * 0x94D049BB133111EB
      in (s, z XOR drop_bit 31 z))"

definition bounded :: "u64 \<Rightarrow> nat \<Rightarrow> u64 \<times> nat" where
  "bounded rng n = (case next_u64 rng of (rng', z) \<Rightarrow> (rng', unat z mod n))"

lemma bounded_less: "0 < n \<Longrightarrow> snd (bounded rng n) < n"
  by (simp add: bounded_def split: prod.splits)

text \<open>\<open>Vec::swap_remove\<close>, for an index in range, and \<open>slice::swap\<close>.\<close>

definition swap_remove :: "nat \<Rightarrow> 'a list \<Rightarrow> 'a list" where
  "swap_remove i xs = (butlast xs)[i := last xs]"

definition swap :: "nat \<Rightarrow> nat \<Rightarrow> 'a list \<Rightarrow> 'a list" where
  "swap i j xs = xs[i := xs ! j, j := xs ! i]"

lemma swap_remove_mset:
  assumes "i < length xs"
  shows "mset xs = add_mset (xs ! i) (mset (swap_remove i xs))"
proof (cases xs rule: rev_cases)
  case (snoc ys y)
  show ?thesis
  proof (cases "i = length ys")
    case False
    then have "i < length ys" using assms snoc by simp
    moreover from this have "ys ! i \<in># mset ys" by simp
    ultimately show ?thesis using snoc
      by (simp add: swap_remove_def mset_update nth_append add_mset_commute [of "ys ! i" y])
  qed (simp add: snoc swap_remove_def list_update_beyond)
qed (use assms in simp)

lemma swap_mset [simp]: "i < length xs \<Longrightarrow> j < length xs \<Longrightarrow> mset (swap i j xs) = mset xs"
  unfolding swap_def by (rule mset_swap)

section \<open>The live allocations of a pool\<close>

record 'a holdings =
  by_conn :: "(conn_id, 'a) hmap"
  owners :: "(conn_id, pubkey) hmap"
  by_addr :: "('a, conn_id list) hmap"

definition new_holdings :: "'a holdings" where
  "new_holdings = \<lparr>by_conn = [], owners = [], by_addr = []\<rparr>"

definition address_of :: "'a holdings \<Rightarrow> conn_id \<Rightarrow> 'a option" where
  "address_of h conn = hm_get (by_conn h) conn"

definition owner_of :: "'a holdings \<Rightarrow> conn_id \<Rightarrow> pubkey option" where
  "owner_of h conn = hm_get (owners h) conn"

definition holders :: "'a holdings \<Rightarrow> 'a \<Rightarrow> conn_id list" where
  "holders h a = (case hm_get (by_addr h) a of None \<Rightarrow> [] | Some cs \<Rightarrow> cs)"

definition is_held :: "'a holdings \<Rightarrow> 'a \<Rightarrow> bool" where
  "is_held h a \<longleftrightarrow> hm_contains (by_addr h) a"

definition held_by :: "'a holdings \<Rightarrow> 'a \<Rightarrow> pubkey \<Rightarrow> bool" where
  "held_by h a pk \<longleftrightarrow> (\<exists>c \<in> set (holders h a). hm_get (owners h) c = Some pk)"

definition hold :: "'a holdings \<Rightarrow> conn_id \<Rightarrow> 'a \<Rightarrow> pubkey option \<Rightarrow> 'a holdings" where
  "hold h conn a owner =
     h\<lparr>by_conn := hm_insert conn a (by_conn h),
       by_addr := hm_insert a (holders h a @ [conn]) (by_addr h),
       owners := (case owner of None \<Rightarrow> owners h | Some pk \<Rightarrow> hm_insert conn pk (owners h))\<rparr>"

text \<open>The address the connection held, and whether nobody holds it any more.\<close>

definition release_hold :: "'a holdings \<Rightarrow> conn_id \<Rightarrow> 'a holdings \<times> ('a \<times> bool) option" where
  "release_hold h conn =
     (let h1 = h\<lparr>owners := hm_remove conn (owners h)\<rparr>
      in case hm_get (by_conn h1) conn of
           None \<Rightarrow> (h1, None)
         | Some a \<Rightarrow>
             let h2 = h1\<lparr>by_conn := hm_remove conn (by_conn h1)\<rparr>;
                 left = filter (\<lambda>c. c \<noteq> conn) (holders h2 a);
                 vacated = (left = [])
             in (h2\<lparr>by_addr := (if vacated then hm_remove a (by_addr h2) else hm_insert a left (by_addr h2))\<rparr>,
                 Some (a, vacated)))"

definition transfer_holdings :: "'a holdings \<Rightarrow> pubkey \<Rightarrow> pubkey \<Rightarrow> 'a holdings" where
  "transfer_holdings h from to =
     h\<lparr>owners := map (\<lambda>(c, pk). (c, if pk = from then to else pk)) (owners h)\<rparr>"

text \<open>
  The two tables agree, an address is held by at least one connection while it has an entry, and
  only connections that hold an address have an owner.
\<close>

definition holdings_ok :: "'a holdings \<Rightarrow> bool" where
  "holdings_ok h \<longleftrightarrow> hm_wf (by_conn h) \<and> hm_wf (owners h) \<and> hm_wf (by_addr h)
     \<and> (\<forall>a c. c \<in> set (holders h a) \<longleftrightarrow> address_of h c = Some a)
     \<and> (\<forall>a. is_held h a \<longleftrightarrow> holders h a \<noteq> [])
     \<and> (\<forall>c. address_of h c = None \<longrightarrow> owner_of h c = None)"

text \<open>Connections that share an address are authenticated by the same key.\<close>

definition one_tenant :: "'a holdings \<Rightarrow> bool" where
  "one_tenant h \<longleftrightarrow> (\<forall>c d a. address_of h c = Some a \<longrightarrow> address_of h d = Some a \<longrightarrow> c \<noteq> d \<longrightarrow>
     (\<exists>pk. owner_of h c = Some pk \<and> owner_of h d = Some pk))"

definition held :: "'a holdings \<Rightarrow> 'a set" where
  "held h = {a. \<exists>c. address_of h c = Some a}"

named_theorems holding \<open>what an operation on the live allocations does to a lookup\<close>

lemma address_of_hold [holding]: "address_of (hold h c a ow) d = (if d = c then Some a else address_of h d)"
  by (simp add: address_of_def hold_def table)

lemma owner_of_hold [holding]:
  "owner_of h c = None \<Longrightarrow> owner_of (hold h c a ow) d = (if d = c then ow else owner_of h d)"
  by (auto simp: owner_of_def hold_def table split: option.splits)

lemma holders_hold [holding]: "holders (hold h c a ow) b = (if b = a then holders h a @ [c] else holders h b)"
  by (simp add: holders_def hold_def table)

lemma is_held_hold [holding]: "is_held (hold h c a ow) b \<longleftrightarrow> b = a \<or> is_held h b"
  by (simp add: is_held_def hold_def table)

lemma hold_ok:
  assumes "holdings_ok h" and "address_of h c = None"
  shows "holdings_ok (hold h c a ow)"
proof -
  have "owner_of h c = None" using assms by (simp add: holdings_ok_def)
  moreover have "hm_wf (by_conn (hold h c a ow))" "hm_wf (owners (hold h c a ow))" "hm_wf (by_addr (hold h c a ow))"
    using assms by (auto simp: hold_def holdings_ok_def intro!: wf_table split: option.splits)
  ultimately show ?thesis using assms by (auto simp: holdings_ok_def holding)
qed

lemma held_hold [holding]: "address_of h c = None \<Longrightarrow> held (hold h c a ow) = insert a (held h)"
  unfolding held_def holding by (auto split: if_splits) (metis option.distinct(1))

lemma holdings_okD:
  assumes "holdings_ok h"
  shows "c \<in> set (holders h a) \<longleftrightarrow> address_of h c = Some a" and "is_held h a \<longleftrightarrow> holders h a \<noteq> []"
    and "address_of h c = None \<Longrightarrow> owner_of h c = None"
  using assms unfolding holdings_ok_def by blast+

lemma held_iff:
  assumes "holdings_ok h"
  shows "a \<in> held h \<longleftrightarrow> is_held h a"
  unfolding held_def holdings_okD(2) [OF assms] mem_Collect_eq holdings_okD(1) [OF assms, symmetric]
  by (cases "holders h a") auto

lemma one_tenantI:
  assumes "\<And>c d a. address_of h c = Some a \<Longrightarrow> address_of h d = Some a \<Longrightarrow> c \<noteq> d \<Longrightarrow>
    (\<exists>pk. owner_of h c = Some pk \<and> owner_of h d = Some pk)"
  shows "one_tenant h"
  using assms unfolding one_tenant_def by blast

lemma one_tenantD:
  assumes "one_tenant h" and "address_of h c = Some a" and "address_of h d = Some a" and "c \<noteq> d"
  shows "(\<exists>pk. owner_of h c = Some pk \<and> owner_of h d = Some pk)"
  using assms unfolding one_tenant_def by blast

lemma hold_tenant:
  assumes "holdings_ok h" and "one_tenant h" and "address_of h c = None"
    and "\<And>d. address_of h d = Some a \<Longrightarrow> ow \<noteq> None \<and> owner_of h d = ow"
  shows "one_tenant (hold h c a ow)"
proof (rule one_tenantI)
  fix d e b assume a: "address_of (hold h c a ow) d = Some b" "address_of (hold h c a ow) e = Some b" "d \<noteq> e"
  have o: "owner_of h c = None" using holdings_okD(3) [OF assms(1,3)] .
  note own = owner_of_hold [OF o]
  show "\<exists>pk. owner_of (hold h c a ow) d = Some pk \<and> owner_of (hold h c a ow) e = Some pk"
  proof (cases "d = c \<or> e = c")
    case True
    then show ?thesis using a assms(4) [of d] assms(4) [of e] by (auto simp: own address_of_hold split: if_splits)
  next
    case False
    then show ?thesis using a one_tenantD [OF assms(2), of d b e] by (auto simp: own address_of_hold)
  qed
qed

lemma hold_fresh_tenant:
  assumes "holdings_ok h" and "one_tenant h" and "address_of h c = None" and "a \<notin> held h"
  shows "one_tenant (hold h c a ow)"
  using assms(4) by (intro hold_tenant [OF assms(1-3)]) (auto simp: held_def)

lemma held_by_all:
  assumes "holdings_ok h" and "one_tenant h" and "held_by h a pk" and "address_of h d = Some a"
  shows "owner_of h d = Some pk"
proof -
  obtain c where c: "address_of h c = Some a" "owner_of h c = Some pk"
    using assms(3) holdings_okD(1) [OF assms(1)] unfolding held_by_def owner_of_def by blast
  then show ?thesis using one_tenantD [OF assms(2) c(1) assms(4)] by (cases "c = d") auto
qed

lemma held_by_held:
  assumes "holdings_ok h" and "held_by h a pk"
  shows "a \<in> held h"
  using assms(2) holdings_okD(1) [OF assms(1)] unfolding held_by_def held_def by blast

lemma hold_shared_tenant:
  assumes "holdings_ok h" and "one_tenant h" and "address_of h c = None" and "held_by h a pk"
  shows "one_tenant (hold h c a (Some pk))"
  using held_by_all [OF assms(1,2,4)] by (intro hold_tenant [OF assms(1-3)]) simp

lemma release_none:
  assumes "address_of h c = None"
  shows "release_hold h c = (h\<lparr>owners := hm_remove c (owners h)\<rparr>, None)"
  using assms by (simp add: release_hold_def address_of_def)

lemma holders_owners [simp]: "holders (h\<lparr>owners := t\<rparr>) = holders h" "address_of (h\<lparr>owners := t\<rparr>) = address_of h"
  "is_held (h\<lparr>owners := t\<rparr>) = is_held h"
  by (auto simp: holders_def address_of_def is_held_def fun_eq_iff)

lemma release_some:
  assumes "address_of h c = Some a"
  obtains h' where "release_hold h c = (h', Some (a, holders h' a = []))"
    "address_of h' = (\<lambda>d. if d = c then None else address_of h d)"
    "owner_of h' = (\<lambda>d. if d = c then None else owner_of h d)"
    "holders h' = (\<lambda>b. if b = a then filter (\<lambda>d. d \<noteq> c) (holders h a) else holders h b)"
    "is_held h' = (\<lambda>b. if b = a then filter (\<lambda>d. d \<noteq> c) (holders h a) \<noteq> [] else is_held h b)"
    "hm_wf (by_conn h) \<longrightarrow> hm_wf (by_conn h')" "hm_wf (owners h) \<longrightarrow> hm_wf (owners h')"
    "hm_wf (by_addr h) \<longrightarrow> hm_wf (by_addr h')"
proof -
  let ?left = "filter (\<lambda>d. d \<noteq> c) (holders h a)"
  let ?h = "h\<lparr>owners := hm_remove c (owners h), by_conn := hm_remove c (by_conn h),
    by_addr := (if ?left = [] then hm_remove a (by_addr h) else hm_insert a ?left (by_addr h))\<rparr>"
  have hd: "holders ?h = (\<lambda>b. if b = a then ?left else holders h b)"
    by (auto simp: fun_eq_iff holders_def table)
  have "release_hold h c = (?h, Some (a, holders ?h a = []))"
    using assms unfolding hd by (simp add: release_hold_def address_of_def Let_def holders_def)
  moreover have "address_of ?h = (\<lambda>d. if d = c then None else address_of h d)"
    by (auto simp: address_of_def table fun_eq_iff)
  moreover have "owner_of ?h = (\<lambda>d. if d = c then None else owner_of h d)"
    by (auto simp: owner_of_def table fun_eq_iff)
  moreover have "is_held ?h = (\<lambda>b. if b = a then ?left \<noteq> [] else is_held h b)"
    by (auto simp: is_held_def table fun_eq_iff)
  ultimately show thesis using hd by (intro that [of ?h]) (auto intro: wf_table)
qed

lemma release_ok:
  assumes "holdings_ok h" and "one_tenant h" and "release_hold h c = (h', r)"
  shows "holdings_ok h' \<and> one_tenant h'
    \<and> address_of h' = (\<lambda>d. if d = c then None else address_of h d)
    \<and> owner_of h' = (\<lambda>d. if d = c then None else owner_of h d)
    \<and> (case r of None \<Rightarrow> held h' = held h
        | Some (a, vacated) \<Rightarrow> a \<in> held h \<and> held h' = (if vacated then held h - {a} else held h))"
proof (cases "address_of h c")
  case None
  then have h': "h' = h\<lparr>owners := hm_remove c (owners h)\<rparr>" "r = None" using assms(3) by (simp_all add: release_none)
  have o: "owner_of h' = owner_of h"
    using holdings_okD(3) [OF assms(1) None] by (auto simp: h' owner_of_def table fun_eq_iff)
  have a: "address_of h' = address_of h" by (simp add: h')
  have "holdings_ok h'" using assms(1) unfolding holdings_ok_def o a by (simp add: h' wf_table)
  moreover have "one_tenant h'" using assms(2) unfolding one_tenant_def o a .
  moreover have "address_of h' = (\<lambda>d. if d = c then None else address_of h d)"
    "owner_of h' = (\<lambda>d. if d = c then None else owner_of h d)"
    using None holdings_okD(3) [OF assms(1) None] by (simp_all add: o a fun_eq_iff)
  moreover have "held h' = held h" by (simp add: held_def a)
  ultimately show ?thesis unfolding h'(2) option.case by (intro conjI)
next
  case (Some a)
  obtain h'' where h: "release_hold h c = (h'', Some (a, holders h'' a = []))"
    "address_of h'' = (\<lambda>d. if d = c then None else address_of h d)"
    "owner_of h'' = (\<lambda>d. if d = c then None else owner_of h d)"
    "holders h'' = (\<lambda>b. if b = a then filter (\<lambda>d. d \<noteq> c) (holders h a) else holders h b)"
    "is_held h'' = (\<lambda>b. if b = a then filter (\<lambda>d. d \<noteq> c) (holders h a) \<noteq> [] else is_held h b)"
    "hm_wf (by_conn h) \<longrightarrow> hm_wf (by_conn h'')" "hm_wf (owners h) \<longrightarrow> hm_wf (owners h'')"
    "hm_wf (by_addr h) \<longrightarrow> hm_wf (by_addr h'')"
    by (rule release_some [OF Some])
  have eq: "h' = h''" "r = Some (a, holders h'' a = [])" using h(1) assms(3) by simp_all
  have "c' \<in> set (holders h'' b) \<longleftrightarrow> address_of h'' c' = Some b" for c' b
    using Some unfolding h(2,4) by (auto simp: holdings_okD(1) [OF assms(1)])
  moreover have "is_held h'' b \<longleftrightarrow> holders h'' b \<noteq> []" for b
    unfolding h(4,5) by (simp add: holdings_okD(2) [OF assms(1)])
  moreover have "address_of h'' d = None \<longrightarrow> owner_of h'' d = None" for d
    unfolding h(2,3) using holdings_okD(3) [OF assms(1)] by auto
  ultimately have ok: "holdings_ok h''"
    using assms(1) h(6-8) unfolding holdings_ok_def by simp
  moreover have "one_tenant h''"
  proof (rule one_tenantI)
    fix d e b assume "address_of h'' d = Some b" "address_of h'' e = Some b" "d \<noteq> e"
    then show "\<exists>pk. owner_of h'' d = Some pk \<and> owner_of h'' e = Some pk"
      using one_tenantD [OF assms(2), of d b e] by (auto simp: h(2,3) split: if_splits)
  qed
  moreover have "b \<in> held h'' \<longleftrightarrow> b \<in> held h \<and> (b = a \<longrightarrow> holders h'' a \<noteq> [])" for b
    using holdings_okD(2) [OF assms(1), of a] by (auto simp: held_iff [OF ok] held_iff [OF assms(1)] h(4,5))
  then have "held h'' = (if holders h'' a = [] then held h - {a} else held h)" by auto
  moreover have "a \<in> held h" using Some by (auto simp: held_def)
  ultimately show ?thesis unfolding eq using h(2,3) by simp
qed

lemma transfer_lookups [holding]:
  "address_of (transfer_holdings h from to) = address_of h"
  "holders (transfer_holdings h from to) = holders h"
  "is_held (transfer_holdings h from to) = is_held h"
  "owner_of (transfer_holdings h from to) c = map_option (\<lambda>pk. if pk = from then to else pk) (owner_of h c)"
  "held (transfer_holdings h from to) = held h"
  by (auto simp: transfer_holdings_def owner_of_def held_def hm_get_map_values)

lemma transfer_ok: "holdings_ok h \<Longrightarrow> holdings_ok (transfer_holdings h from to)"
  by (simp add: holdings_ok_def holding) (simp add: transfer_holdings_def hm_wf_map_case)

lemma transfer_tenant:
  assumes "one_tenant h"
  shows "one_tenant (transfer_holdings h from to)"
proof (rule one_tenantI)
  fix c d a assume "address_of (transfer_holdings h from to) c = Some a" "address_of (transfer_holdings h from to) d = Some a" "c \<noteq> d"
  then obtain pk where "owner_of h c = Some pk" "owner_of h d = Some pk"
    using one_tenantD [OF assms] unfolding transfer_lookups(1) by blast
  then show "\<exists>pk. owner_of (transfer_holdings h from to) c = Some pk \<and> owner_of (transfer_holdings h from to) d = Some pk"
    by (simp add: transfer_lookups(4))
qed

lemma new_holdings_ok [simp]: "holdings_ok new_holdings" "one_tenant new_holdings" "held new_holdings = {}"
  "address_of new_holdings c = None"
  by (auto simp: new_holdings_def holdings_ok_def one_tenant_def held_def address_of_def owner_of_def holders_def
      is_held_def hm_contains_def)

end
