(* ===== verification/Ip_Pool.thy ===== *)
theory Ip_Pool
  imports Ip_Holdings
begin

text \<open>
  The IPv4 pool of a multi-hop exit, \<open>IpAllocator\<close> of \<open>multihop-server/src/ip_pool.rs\<close>: random draws,
  sticky bindings, session placement, the restart reclaim and the claims of the deployer. What the
  deployer answers about an address while an operation runs is the argument \<open>is_claimed\<close> of that
  operation; \<open>claims\<close> tells whether a deployer is wired at all.
\<close>

section \<open>The pool\<close>

definition RESTART_RECLAIM_WINDOW :: duration where "RESTART_RECLAIM_WINDOW = from_secs 120"

record restart_reclaim =
  reclaim_until :: instant
  eligible :: "ipv4 set"

record ip_allocator =
  pool_network :: ipv4
  pool_prefix_len :: u8
  pool_gateway :: ipv4
  free :: "ipv4 list"
  pool_rng :: u64
  used :: "ipv4 holdings"
  sticky :: "(pubkey, ipv4) hmap"
  restart :: "restart_reclaim option"
  claims :: bool
  last_holder :: "(ipv4, pubkey option) hmap"

datatype ip_pool_error =
    InvalidPrefix u8
  | NoUsableHosts ipv4 u8 ipv4 u32
  | GatewayOutsideSubnet ipv4 u8 ipv4

definition subnet_hosts :: "u32 \<Rightarrow> u32 \<Rightarrow> ipv4 \<Rightarrow> ipv4 list" where
  "subnet_hosts net broadcast gw = filter (\<lambda>a. a \<noteq> gw) (map of_nat [unat net + 1..<unat broadcast])"

definition pool_with_seed :: "ipv4 \<Rightarrow> u8 \<Rightarrow> ipv4 \<Rightarrow> u64 \<Rightarrow> ip_pool_error + ip_allocator" where
  "pool_with_seed network_ipv4 plen gw seed =
     (if plen = 0 \<or> plen > 32 then Inl (InvalidPrefix plen)
      else
        let host_bits = 32 - unat plen;
            netmask = (if host_bits = 32 then 0 else push_bit host_bits (- 1 :: u32));
            net = network_ipv4 AND netmask;
            broadcast = net OR NOT netmask;
            capacity = (if host_bits \<ge> 31 then - 1 else of_nat (2 ^ host_bits - 2));
            hosts = subnet_hosts net broadcast gw
        in if gw AND netmask \<noteq> net then Inl (GatewayOutsideSubnet net plen gw)
           else if capacity = 0 then Inl (NoUsableHosts net plen gw capacity)
           else if hosts = [] then Inl (NoUsableHosts net plen gw capacity)
           else Inr \<lparr>pool_network = net, pool_prefix_len = plen, pool_gateway = gw, free = hosts, pool_rng = seed,
                  used = new_holdings, sticky = [], restart = None, claims = False, last_holder = []\<rparr>)"

definition set_address_claims :: "ip_allocator \<Rightarrow> ip_allocator" where
  "set_address_claims p = p\<lparr>claims := True\<rparr>"

definition enable_restart_reclaim :: "ip_allocator \<Rightarrow> ipv4 list \<Rightarrow> instant \<Rightarrow> ip_allocator" where
  "enable_restart_reclaim p addrs now =
     p\<lparr>restart := Some \<lparr>reclaim_until = now + RESTART_RECLAIM_WINDOW,
       eligible = set (filter (\<lambda>a. a \<in> set (free p)) addrs)\<rparr>\<rparr>"

definition pool_hold :: "ip_allocator \<Rightarrow> conn_id \<Rightarrow> ipv4 \<Rightarrow> pubkey option \<Rightarrow> ip_allocator" where
  "pool_hold p conn a owner =
     p\<lparr>restart := map_option (\<lambda>r. r\<lparr>eligible := eligible r - {a}\<rparr>) (restart p),
       last_holder := (if claims p then hm_insert a owner (last_holder p) else last_holder p),
       used := hold (used p) conn a owner\<rparr>"

definition reclaimable :: "ip_allocator \<Rightarrow> ipv4 \<Rightarrow> instant \<Rightarrow> ip_allocator \<times> bool" where
  "reclaimable p target now =
     (case restart p of
        None \<Rightarrow> (p, False)
      | Some r \<Rightarrow> if now < reclaim_until r then (p, target \<in> eligible r) else (p\<lparr>restart := None\<rparr>, False))"

definition last_held_by :: "ip_allocator \<Rightarrow> ipv4 \<Rightarrow> pubkey \<Rightarrow> bool" where
  "last_held_by p a pk \<longleftrightarrow> hm_get (last_holder p) a = Some (Some pk)"

definition claimed :: "(ipv4 \<Rightarrow> bool) \<Rightarrow> ip_allocator \<Rightarrow> ipv4 \<Rightarrow> bool" where
  "claimed is_claimed p a \<longleftrightarrow> claims p \<and> is_claimed a"

definition position :: "'a \<Rightarrow> 'a list \<Rightarrow> nat option" where
  "position a xs = (if a \<in> set xs then Some (length (takeWhile (\<lambda>x. x \<noteq> a) xs)) else None)"

definition take_free :: "(ipv4 \<Rightarrow> bool) \<Rightarrow> ip_allocator \<Rightarrow> ipv4 \<Rightarrow> pubkey \<Rightarrow> ip_allocator \<times> bool" where
  "take_free is_claimed p a pk =
     (case position a (free p) of
        None \<Rightarrow> (p, False)
      | Some pos \<Rightarrow>
          if claimed is_claimed p a \<and> \<not> last_held_by p a pk then (p, False)
          else (p\<lparr>free := swap_remove pos (free p)\<rparr>, True))"

fun pop_loop :: "(ipv4 \<Rightarrow> bool) \<Rightarrow> u64 \<Rightarrow> ipv4 list \<Rightarrow> nat \<Rightarrow> u64 \<times> ipv4 list \<times> ipv4 option" where
  "pop_loop taboo rng xs 0 = (rng, xs, None)"
| "pop_loop taboo rng xs (Suc undrawn) =
     (case bounded rng (Suc undrawn) of (rng', idx) \<Rightarrow>
        if \<not> taboo (xs ! idx) then (rng', swap_remove idx xs, Some (xs ! idx))
        else pop_loop taboo rng' (swap idx undrawn xs) undrawn)"

definition pop_random :: "(ipv4 \<Rightarrow> bool) \<Rightarrow> ip_allocator \<Rightarrow> ip_allocator \<times> ipv4 option" where
  "pop_random is_claimed p =
     (case pop_loop (claimed is_claimed p) (pool_rng p) (free p) (length (free p)) of
        (rng, xs, r) \<Rightarrow> (p\<lparr>pool_rng := rng, free := xs\<rparr>, r))"

definition pool_allocate :: "(ipv4 \<Rightarrow> bool) \<Rightarrow> ip_allocator \<Rightarrow> conn_id \<Rightarrow> ip_allocator \<times> ipv4 option" where
  "pool_allocate is_claimed p conn =
     (case address_of (used p) conn of
        Some a \<Rightarrow> (p, Some a)
      | None \<Rightarrow>
          case pop_random is_claimed p of
            (p', None) \<Rightarrow> (p', None)
          | (p', Some a) \<Rightarrow> (pool_hold p' conn a None, Some a))"

datatype session_intent = Legacy | Fresh | Join ipv4

definition from_prefer_ipv4 :: "ipv4 option \<Rightarrow> session_intent" where
  "from_prefer_ipv4 hint = (case hint of None \<Rightarrow> Legacy | Some a \<Rightarrow> if a = 0 then Fresh else Join a)"

definition held_by_pubkey :: "ip_allocator \<Rightarrow> ipv4 \<Rightarrow> pubkey \<Rightarrow> bool" where
  "held_by_pubkey p a pk \<longleftrightarrow> held_by (used p) a pk"

definition conns_holding :: "ip_allocator \<Rightarrow> ipv4 \<Rightarrow> conn_id list" where
  "conns_holding p a = holders (used p) a"

text \<open>The bindings after the stale owner of the address lost its own.\<close>

definition drop_stale :: "pubkey \<Rightarrow> 'a \<Rightarrow> (pubkey, 'a) hmap \<Rightarrow> (pubkey, 'a) hmap" where
  "drop_stale pk a s =
     (case find (\<lambda>e. snd e = a) s of
        Some (stale, _) \<Rightarrow> if stale \<noteq> pk then hm_remove stale s else s
      | None \<Rightarrow> s)"

definition rebind :: "'a holdings \<Rightarrow> pubkey \<Rightarrow> 'a \<Rightarrow> (pubkey, 'a) hmap \<Rightarrow> (pubkey, 'a) hmap" where
  "rebind h pk a s =
     (let s1 = drop_stale pk a s;
          incumbent_live = (case hm_get s1 pk of None \<Rightarrow> False | Some b \<Rightarrow> held_by h b pk)
      in if incumbent_live then s1 else hm_insert pk a s1)"

definition bind_sticky :: "ip_allocator \<Rightarrow> pubkey \<Rightarrow> ipv4 \<Rightarrow> ip_allocator" where
  "bind_sticky p pk a = p\<lparr>sticky := rebind (used p) pk a (sticky p)\<rparr>"

text \<open>The three attempts of a join: share with the holders, take the own address back, reclaim.\<close>

definition join_target ::
  "(ipv4 \<Rightarrow> bool) \<Rightarrow> ip_allocator \<Rightarrow> conn_id \<Rightarrow> pubkey \<Rightarrow> ipv4 \<Rightarrow> instant \<Rightarrow> bool \<Rightarrow> ip_allocator \<times> bool" where
  "join_target is_claimed p conn pk target now may_reclaim =
     (if held_by_pubkey p target pk then (pool_hold p conn target (Some pk), True)
      else
        let own = (hm_get (sticky p) pk = Some target \<or> claimed is_claimed p target \<and> last_held_by p target pk)
        in case (if own then take_free is_claimed p target pk else (p, False)) of
             (p1, True) \<Rightarrow> (pool_hold p1 conn target (Some pk), True)
           | (p1, False) \<Rightarrow>
               case (if may_reclaim then reclaimable p1 target now else (p1, False)) of
                 (p2, open) \<Rightarrow>
                   case (if open then take_free is_claimed p2 target pk else (p2, False)) of
                     (p3, True) \<Rightarrow> (bind_sticky (pool_hold p3 conn target (Some pk)) pk target, True)
                   | (p3, False) \<Rightarrow> (p3, False))"

text \<open>The sticky address: taken when it is free, shared by a hint-less request.\<close>

definition serve_sticky ::
  "(ipv4 \<Rightarrow> bool) \<Rightarrow> ip_allocator \<Rightarrow> conn_id \<Rightarrow> pubkey \<Rightarrow> session_intent \<Rightarrow> ip_allocator \<times> ipv4 option" where
  "serve_sticky is_claimed p conn pk intent =
     (case hm_get (sticky p) pk of
        None \<Rightarrow> (p, None)
      | Some preferred \<Rightarrow>
          case take_free is_claimed p preferred pk of
            (p1, True) \<Rightarrow> (pool_hold p1 conn preferred (Some pk), Some preferred)
          | (p1, False) \<Rightarrow>
              if intent = Legacy \<and> held_by_pubkey p1 preferred pk
              then (pool_hold p1 conn preferred (Some pk), Some preferred)
              else (p1, None))"

definition serve_draw :: "(ipv4 \<Rightarrow> bool) \<Rightarrow> ip_allocator \<Rightarrow> conn_id \<Rightarrow> pubkey \<Rightarrow> ip_allocator \<times> ipv4 option" where
  "serve_draw is_claimed p conn pk =
     (case pop_random is_claimed p of
        (p1, None) \<Rightarrow> (p1, None)
      | (p1, Some a) \<Rightarrow> (bind_sticky (pool_hold p1 conn a (Some pk)) pk a, Some a))"

definition pool_allocate_at ::
  "(ipv4 \<Rightarrow> bool) \<Rightarrow> ip_allocator \<Rightarrow> conn_id \<Rightarrow> pubkey \<Rightarrow> session_intent \<Rightarrow> instant \<Rightarrow> bool \<Rightarrow>
    ip_allocator \<times> ipv4 option" where
  "pool_allocate_at is_claimed p conn pk intent now may_reclaim =
     (case address_of (used p) conn of
        Some a \<Rightarrow> (p, Some a)
      | None \<Rightarrow>
          case (case intent of
                  Join target \<Rightarrow>
                    (case join_target is_claimed p conn pk target now may_reclaim of
                       (p1, joined) \<Rightarrow> (p1, if joined then Some target else None))
                | _ \<Rightarrow> (p, None)) of
            (p1, Some a) \<Rightarrow> (p1, Some a)
          | (p1, None) \<Rightarrow>
              case serve_sticky is_claimed p1 conn pk intent of
                (p2, Some a) \<Rightarrow> (p2, Some a)
              | (p2, None) \<Rightarrow> serve_draw is_claimed p2 conn pk)"

definition allocate_for_pubkey_with_intent ::
  "(ipv4 \<Rightarrow> bool) \<Rightarrow> ip_allocator \<Rightarrow> conn_id \<Rightarrow> pubkey \<Rightarrow> session_intent \<Rightarrow> instant \<Rightarrow> ip_allocator \<times> ipv4 option" where
  "allocate_for_pubkey_with_intent is_claimed p conn pk intent now =
     pool_allocate_at is_claimed p conn pk intent now False"

definition allocate_for_pubkey_reclaiming ::
  "(ipv4 \<Rightarrow> bool) \<Rightarrow> ip_allocator \<Rightarrow> conn_id \<Rightarrow> pubkey \<Rightarrow> session_intent \<Rightarrow> instant \<Rightarrow> ip_allocator \<times> ipv4 option" where
  "allocate_for_pubkey_reclaiming is_claimed p conn pk intent now =
     pool_allocate_at is_claimed p conn pk intent now True"

definition allocate_for_pubkey ::
  "(ipv4 \<Rightarrow> bool) \<Rightarrow> ip_allocator \<Rightarrow> conn_id \<Rightarrow> pubkey \<Rightarrow> instant \<Rightarrow> ip_allocator \<times> ipv4 option" where
  "allocate_for_pubkey is_claimed p conn pk now = allocate_for_pubkey_with_intent is_claimed p conn pk Legacy now"

definition transfer_binding :: "pubkey \<Rightarrow> pubkey \<Rightarrow> (pubkey, 'a) hmap \<Rightarrow> (pubkey, 'a) hmap" where
  "transfer_binding from to s =
     (case hm_get s from of
        None \<Rightarrow> s
      | Some a \<Rightarrow> hm_insert to a (hm_retain (\<lambda>_ bound. bound \<noteq> a) (hm_remove from s)))"

definition pool_transfer_owner :: "ip_allocator \<Rightarrow> pubkey \<Rightarrow> pubkey \<Rightarrow> ip_allocator" where
  "pool_transfer_owner p from to =
     (if from = to then p
      else p\<lparr>used := transfer_holdings (used p) from to,
             sticky := transfer_binding from to (sticky p),
             last_holder := map (\<lambda>(a, h). (a, if h = Some from then Some to else h)) (last_holder p)\<rparr>)"

definition pool_release :: "ip_allocator \<Rightarrow> conn_id \<Rightarrow> ip_allocator" where
  "pool_release p conn =
     (case release_hold (used p) conn of
        (h, Some (a, True)) \<Rightarrow> p\<lparr>used := h, free := free p @ [a]\<rparr>
      | (h, _) \<Rightarrow> p\<lparr>used := h\<rparr>)"

section \<open>The draw\<close>

lemma position_SomeD:
  assumes "position a xs = Some i"
  shows "i < length xs \<and> xs ! i = a"
proof -
  have a: "a \<in> set xs" "i = length (takeWhile (\<lambda>x. x \<noteq> a) xs)" using assms by (auto simp: position_def split: if_splits)
  have "takeWhile (\<lambda>x. x \<noteq> a) xs \<noteq> xs" using a(1) by (auto simp: takeWhile_eq_all_conv)
  then have "i < length xs" unfolding a(2)
    by (metis length_takeWhile_le nat_less_le takeWhile_eq_take take_all_iff order_refl)
  with nth_length_takeWhile [of "\<lambda>x. x \<noteq> a" xs] show ?thesis unfolding a(2) by blast
qed

lemma take_free_spec:
  assumes "take_free ic p a pk = (p', ok)"
  shows "if ok then a \<in> set (free p) \<and> (claimed ic p a \<longrightarrow> last_held_by p a pk)
      \<and> (\<exists>xs. p' = p\<lparr>free := xs\<rparr> \<and> mset (free p) = add_mset a (mset xs))
    else p' = p \<and> (a \<in> set (free p) \<longrightarrow> claimed ic p a \<and> \<not> last_held_by p a pk)"
proof (cases "position a (free p)")
  case None
  then have "a \<notin> set (free p)" by (simp add: position_def split: if_splits)
  with None assms show ?thesis by (auto simp: take_free_def)
next
  case (Some i)
  note i = position_SomeD [OF Some]
  then have "a \<in> set (free p)" using nth_mem by blast
  moreover have "mset (free p) = add_mset a (mset (swap_remove i (free p)))"
    using swap_remove_mset [of i "free p"] i by simp
  ultimately show ?thesis using assms Some by (auto simp: take_free_def split: if_splits)
qed

lemma pop_loop_spec:
  assumes "n \<le> length xs" and "pop_loop taboo rng xs n = (rng', ys, r)"
  shows "case r of None \<Rightarrow> mset ys = mset xs \<and> (\<forall>a \<in> set (take n xs). taboo a)
    | Some a \<Rightarrow> mset xs = add_mset a (mset ys) \<and> \<not> taboo a"
  using assms
proof (induction taboo rng xs n rule: pop_loop.induct)
  case (2 taboo rng xs n)
  obtain rng1 idx where b: "bounded rng (Suc n) = (rng1, idx)" by fastforce
  then have idx: "idx \<le> n" using bounded_less [of "Suc n" rng] by simp
  show ?case
  proof (cases "taboo (xs ! idx)")
    case False
    then show ?thesis using "2.prems" b idx swap_remove_mset [of idx xs] by auto
  next
    case True
    let ?ys = "swap idx n xs"
    have len: "n \<le> length ?ys" "idx < length xs" "n < length xs" using "2.prems"(1) idx by (simp_all add: swap_def)
    have "pop_loop taboo rng1 ?ys n = (rng', ys, r)" using "2.prems"(2) b True by simp
    from "2.IH" [OF b [symmetric] _ len(1) this] True
    have ih: "case r of None \<Rightarrow> mset ys = mset ?ys \<and> (\<forall>a \<in> set (take n ?ys). taboo a)
      | Some a \<Rightarrow> mset ?ys = add_mset a (mset ys) \<and> \<not> taboo a" by simp
    have "take (Suc n) ?ys = swap idx n (take (Suc n) xs)"
      using idx by (simp add: swap_def take_update_swap)
    then have "mset (take (Suc n) ?ys) = mset (take (Suc n) xs)" using idx len by simp
    moreover have "take (Suc n) ?ys = take n ?ys @ [xs ! idx]"
      using len idx by (subst take_Suc_conv_app_nth) (auto simp: swap_def nth_list_update)
    ultimately have "set (take (Suc n) xs) = insert (xs ! idx) (set (take n ?ys))"
      by (metis list.set(1,2) mset_eq_setD set_append Un_commute insert_is_Un)
    with ih True len show ?thesis by (auto split: option.splits)
  qed
qed simp

lemma pop_random_spec:
  assumes "pop_random ic p = (p', r)"
  shows "\<exists>rng xs. p' = p\<lparr>pool_rng := rng, free := xs\<rparr>
    \<and> (case r of None \<Rightarrow> mset xs = mset (free p) \<and> (\<forall>a \<in> set (free p). claimed ic p a)
        | Some a \<Rightarrow> mset (free p) = add_mset a (mset xs) \<and> \<not> claimed ic p a)"
proof -
  obtain rng xs where x: "pop_loop (claimed ic p) (pool_rng p) (free p) (length (free p)) = (rng, xs, r)"
    "p' = p\<lparr>pool_rng := rng, free := xs\<rparr>"
    using assms by (auto simp: pop_random_def split: prod.splits)
  from pop_loop_spec [OF order_refl x(1)] x(2) show ?thesis by (auto split: option.splits)
qed

section \<open>What an allocation does\<close>

text \<open>
  The connection gets the address, which was free or was held under its own key; a free address the
  deployer claims goes to the key that held it last.
\<close>

definition placed :: "(ipv4 \<Rightarrow> bool) \<Rightarrow> ip_allocator \<Rightarrow> conn_id \<Rightarrow> pubkey option \<Rightarrow> ipv4 \<Rightarrow> ip_allocator \<Rightarrow> bool" where
  "placed ic p c ow a q \<longleftrightarrow>
     address_of (used p) c = None \<and> used q = hold (used p) c a ow \<and> claims q = claims p
     \<and> last_holder q = (if claims p then hm_insert a ow (last_holder p) else last_holder p)
     \<and> (\<forall>r. restart q = Some r \<longrightarrow> (\<exists>r0. restart p = Some r0 \<and> eligible r = eligible r0 - {a}))
     \<and> (sticky q = sticky p \<or> (\<exists>pk. ow = Some pk \<and> sticky q = rebind (used q) pk a (sticky p)))
     \<and> (mset (free p) = add_mset a (mset (free q)) \<and> (claimed ic p a \<longrightarrow> (\<exists>pk. ow = Some pk \<and> last_held_by p a pk))
        \<or> free q = free p \<and> (\<exists>pk. ow = Some pk \<and> held_by (used p) a pk))"

text \<open>A request that found nothing: at most the passed reclaim window is dropped and the free list reordered.\<close>

definition unserved :: "ip_allocator \<Rightarrow> ip_allocator \<Rightarrow> bool" where
  "unserved p q \<longleftrightarrow> used q = used p \<and> sticky q = sticky p \<and> claims q = claims p \<and> last_holder q = last_holder p
     \<and> mset (free q) = mset (free p) \<and> (restart q = restart p \<or> restart q = None)"

definition lapsed :: "ip_allocator \<Rightarrow> ip_allocator \<Rightarrow> bool" where
  "lapsed p q \<longleftrightarrow> q = p \<or> q = p\<lparr>restart := None\<rparr>"

lemma lapsed_same:
  assumes "lapsed p q"
  shows "used q = used p" "sticky q = sticky p" "free q = free p" "claimed ic q = claimed ic p"
    "last_held_by q = last_held_by p" "placed ic q c ow a s \<Longrightarrow> placed ic p c ow a s" "unserved q s \<Longrightarrow> unserved p s"
  using assms by (auto simp: lapsed_def claimed_def last_held_by_def fun_eq_iff placed_def unserved_def)

lemma placed_shared:
  assumes "address_of (used p) c = None" and "held_by_pubkey p a pk"
  shows "placed ic p c (Some pk) a (pool_hold p c a (Some pk))"
  using assms by (auto simp: placed_def pool_hold_def held_by_pubkey_def)

lemma placed_taken:
  assumes "address_of (used p) c = None" and "mset (free p) = add_mset a (mset xs)"
    and "claimed ic p a \<Longrightarrow> \<exists>pk. ow = Some pk \<and> last_held_by p a pk"
    and "q = pool_hold (p\<lparr>pool_rng := rng, free := xs\<rparr>) c a ow \<or> q = pool_hold (p\<lparr>free := xs\<rparr>) c a ow"
  shows "placed ic p c ow a q" and "ow = Some pk \<Longrightarrow> placed ic p c ow a (bind_sticky q pk a)"
  using assms by (auto simp: placed_def pool_hold_def bind_sticky_def)

lemma placed_take_free:
  assumes "address_of (used p) c = None" and "take_free ic p a pk = (p1, True)"
  shows "placed ic p c (Some pk) a (pool_hold p1 c a (Some pk))"
    and "placed ic p c (Some pk) a (bind_sticky (pool_hold p1 c a (Some pk)) pk a)"
proof -
  from take_free_spec [OF assms(2)] obtain xs where
    "claimed ic p a \<longrightarrow> last_held_by p a pk" "p1 = p\<lparr>free := xs\<rparr>" "mset (free p) = add_mset a (mset xs)" by auto
  then show "placed ic p c (Some pk) a (pool_hold p1 c a (Some pk))"
    and "placed ic p c (Some pk) a (bind_sticky (pool_hold p1 c a (Some pk)) pk a)"
    using placed_taken [OF assms(1), of a xs ic "Some pk"] by simp_all
qed

lemma reclaimable_lapsed: "lapsed p (fst (reclaimable p a now))"
  by (simp add: reclaimable_def lapsed_def split: option.splits)

lemma join_target_spec:
  assumes "address_of (used p) c = None" and "join_target ic p c pk a now may = (q, ok)"
  shows "if ok then placed ic p c (Some pk) a q else lapsed p q"
proof (cases "held_by_pubkey p a pk")
  case True
  then show ?thesis using assms placed_shared [OF assms(1) True] by (auto simp: join_target_def)
next
  case shared: False
  obtain p1 ok1 where t1: "(if hm_get (sticky p) pk = Some a \<or> claimed ic p a \<and> last_held_by p a pk
      then take_free ic p a pk else (p, False)) = (p1, ok1)" by fastforce
  show ?thesis
  proof (cases ok1)
    case True
    then have "take_free ic p a pk = (p1, True)" using t1 by (auto split: if_splits)
    from placed_take_free(1) [OF assms(1) this] show ?thesis
      using assms(2) shared t1 True by (auto simp: join_target_def)
  next
    case False
    have p1: "p1 = p" using t1 False take_free_spec [of ic p a pk p1 False] by (auto split: if_splits)
    obtain p2 op where t2: "(if may then reclaimable p a now else (p, False)) = (p2, op)" by fastforce
    then have l: "lapsed p p2" using reclaimable_lapsed [of p a now] by (auto simp: lapsed_def split: if_splits)
    obtain p3 ok3 where t3: "(if op then take_free ic p2 a pk else (p2, False)) = (p3, ok3)" by fastforce
    have q: "(q, ok) = (if ok3 then (bind_sticky (pool_hold p3 c a (Some pk)) pk a, True) else (p3, False))"
      using assms(2) shared t1 False t2 t3 by (simp add: join_target_def p1 split: bool.splits)
    show ?thesis
    proof (cases ok3)
      case True
      then have "take_free ic p2 a pk = (p3, True)" using t3 by (auto split: if_splits)
      from placed_take_free(2) [OF _ this, of c] show ?thesis using q True lapsed_same [OF l] assms(1) by simp
    next
      case False
      then have "p3 = p2" using t3 take_free_spec [of ic p2 a pk p3 False] by (auto split: if_splits)
      with q False l show ?thesis by simp
    qed
  qed
qed

lemma mset_free_mem: "mset xs = add_mset a (mset ys) \<Longrightarrow> a \<in> set xs"
  by (metis set_mset_mset union_single_eq_member)

lemma serve_sticky_spec:
  assumes "address_of (used p) c = None" and "serve_sticky ic p c pk intent = (q, r)"
  shows "case r of None \<Rightarrow> q = p
    | Some a \<Rightarrow> placed ic p c (Some pk) a q \<and> (a \<in> set (free p) \<or> intent = Legacy \<and> hm_get (sticky p) pk = Some a)"
proof (cases "hm_get (sticky p) pk")
  case (Some a)
  obtain p1 ok where tf: "take_free ic p a pk = (p1, ok)" by fastforce
  show ?thesis
  proof (cases ok)
    case True
    then have "a \<in> set (free p)" using take_free_spec [OF tf] by simp
    moreover have "q = pool_hold p1 c a (Some pk)" "r = Some a" using tf True Some assms(2) by (simp_all add: serve_sticky_def)
    ultimately show ?thesis using placed_take_free(1) [OF assms(1)] tf True by simp
  next
    case False
    then have "p1 = p" using take_free_spec [OF tf] by simp
    then have "(q, r) = (if intent = Legacy \<and> held_by_pubkey p a pk then (pool_hold p c a (Some pk), Some a) else (p, None))"
      using tf False Some assms(2) by (simp add: serve_sticky_def)
    with placed_shared [OF assms(1)] Some show ?thesis by (simp split: if_splits)
  qed
qed (use assms(2) in \<open>simp add: serve_sticky_def\<close>)

lemma pop_random_placed:
  assumes "address_of (used p) c = None" and "pop_random ic p = (p1, r)"
  shows "case r of None \<Rightarrow> unserved p p1 \<and> (\<forall>a \<in> set (free p). claimed ic p a)
    | Some a \<Rightarrow> a \<in> set (free p) \<and> placed ic p c None a (pool_hold p1 c a None)
        \<and> placed ic p c (Some pk) a (bind_sticky (pool_hold p1 c a (Some pk)) pk a)"
proof -
  from pop_random_spec [OF assms(2)] obtain rng xs where x: "p1 = p\<lparr>pool_rng := rng, free := xs\<rparr>"
    "case r of None \<Rightarrow> mset xs = mset (free p) \<and> (\<forall>a \<in> set (free p). claimed ic p a)
     | Some a \<Rightarrow> mset (free p) = add_mset a (mset xs) \<and> \<not> claimed ic p a" by blast
  show ?thesis
  proof (cases r)
    case None
    then show ?thesis using x by (auto simp: unserved_def)
  next
    case (Some a)
    then have m: "mset (free p) = add_mset a (mset xs)" "\<not> claimed ic p a" using x(2) by simp_all
    note placed = placed_taken [OF assms(1) m(1) _ disjI1 [OF refl], of ic]
    have "placed ic p c None a (pool_hold p1 c a None)"
      unfolding x(1) by (rule placed(1)) (use m(2) in simp)
    moreover have "placed ic p c (Some pk) a (bind_sticky (pool_hold p1 c a (Some pk)) pk a)"
      unfolding x(1) by (rule placed(2)) (use m(2) in simp_all)
    ultimately show ?thesis using Some mset_free_mem [OF m(1)] by simp
  qed
qed

lemma serve_draw_spec:
  assumes "address_of (used p) c = None" and "serve_draw ic p c pk = (q, r)"
  shows "case r of None \<Rightarrow> unserved p q \<and> (\<forall>a \<in> set (free p). claimed ic p a)
    | Some a \<Rightarrow> placed ic p c (Some pk) a q \<and> a \<in> set (free p)"
proof -
  obtain p1 r1 where pr: "pop_random ic p = (p1, r1)" by fastforce
  then have "q = (case r1 of None \<Rightarrow> p1 | Some a \<Rightarrow> bind_sticky (pool_hold p1 c a (Some pk)) pk a)" "r = r1"
    using assms(2) by (auto simp: serve_draw_def split: option.splits)
  with pop_random_placed [OF assms(1) pr, of pk] show ?thesis by (cases r1) simp_all
qed

lemma pool_allocate_spec:
  assumes "address_of (used p) c = None" and "pool_allocate ic p c = (q, r)"
  shows "case r of None \<Rightarrow> unserved p q \<and> (\<forall>a \<in> set (free p). claimed ic p a)
    | Some a \<Rightarrow> placed ic p c None a q \<and> a \<in> set (free p)"
proof -
  obtain p1 r1 where pr: "pop_random ic p = (p1, r1)" by fastforce
  then have "q = (case r1 of None \<Rightarrow> p1 | Some a \<Rightarrow> pool_hold p1 c a None)" "r = r1"
    using assms by (auto simp: pool_allocate_def split: option.splits)
  with pop_random_placed [OF assms(1) pr] show ?thesis by (cases r1) simp_all
qed

lemma allocate_at_spec:
  assumes "address_of (used p) c = None" and "pool_allocate_at ic p c pk intent now may = (q, r)"
  shows "case r of None \<Rightarrow> unserved p q \<and> (\<forall>a \<in> set (free p). claimed ic p a)
    | Some a \<Rightarrow> placed ic p c (Some pk) a q
        \<and> (a \<in> set (free p) \<or> intent = Join a \<or> intent = Legacy \<and> hm_get (sticky p) pk = Some a)"
proof -
  define j where "j = (case intent of
      Join target \<Rightarrow> (case join_target ic p c pk target now may of (p1, joined) \<Rightarrow> (p1, if joined then Some target else None))
    | _ \<Rightarrow> (p, None))"
  obtain p1 r1 where j: "j = (p1, r1)" by fastforce
  have qr: "(q, r) = (case j of (p1, Some a) \<Rightarrow> (p1, Some a) | (p1, None) \<Rightarrow>
      case serve_sticky ic p1 c pk intent of (p2, Some a) \<Rightarrow> (p2, Some a) | (p2, None) \<Rightarrow> serve_draw ic p2 c pk)"
    using assms by (simp add: pool_allocate_at_def j_def)
  have js: "case r1 of None \<Rightarrow> lapsed p p1 | Some a \<Rightarrow> placed ic p c (Some pk) a p1 \<and> intent = Join a"
  proof (cases intent)
    case (Join a)
    obtain p' ok where jt: "join_target ic p c pk a now may = (p', ok)" by fastforce
    from join_target_spec [OF assms(1) jt] show ?thesis using j jt Join by (auto simp: j_def split: if_splits)
  qed (use j in \<open>auto simp: j_def lapsed_def\<close>)
  show ?thesis
  proof (cases r1)
    case (Some a)
    then show ?thesis using js j qr by simp
  next
    case None
    then have l: "lapsed p p1" using js by simp
    have a1: "address_of (used p1) c = None" using lapsed_same(1) [OF l] assms(1) by simp
    obtain p2 r2 where s: "serve_sticky ic p1 c pk intent = (p2, r2)" by fastforce
    note ss = serve_sticky_spec [OF a1 s]
    show ?thesis
    proof (cases r2)
      case (Some a)
      then have "q = p2" "r = Some a"
        using qr j None s by simp_all
      with ss Some lapsed_same [OF l] show ?thesis by auto
    next
      case n2: None
      then have "p2 = p1" using ss by simp
      then have "serve_draw ic p1 c pk = (q, r)"
        using qr j None s n2 by simp
      from serve_draw_spec [OF a1 this] lapsed_same [OF l] show ?thesis by (auto split: option.splits)
    qed
  qed
qed

end
