(* ===== verification/Ip_Pool_Inv.thy ===== *)
theory Ip_Pool_Inv
  imports Ip_Pool
begin

text \<open>
  The invariant of the IPv4 pool and its properties over every sequence of operations: every host is
  free or held and never both, connections share an address only under one key, an address the
  deployer claims stays with the key that left it, and the sticky bindings are bounded by the subnet.
\<close>

section \<open>Sticky bindings\<close>

text \<open>Every key has one binding, every address one owner, and every bound address is a host.\<close>

definition bindings_ok :: "'a set \<Rightarrow> (pubkey, 'a) hmap \<Rightarrow> bool" where
  "bindings_ok hosts s \<longleftrightarrow> hm_wf s \<and> (\<forall>k k' a. hm_get s k = Some a \<longrightarrow> hm_get s k' = Some a \<longrightarrow> k = k')
     \<and> (\<forall>k a. hm_get s k = Some a \<longrightarrow> a \<in> hosts)"

lemma bindings_okI:
  assumes "hm_wf s" and "\<And>k k' a. hm_get s k = Some a \<Longrightarrow> hm_get s k' = Some a \<Longrightarrow> k = k'"
    and "\<And>k a. hm_get s k = Some a \<Longrightarrow> a \<in> hosts"
  shows "bindings_ok hosts s"
  using assms unfolding bindings_ok_def by blast

lemma bindings_okD:
  assumes "bindings_ok hosts s"
  shows "hm_wf s" and "hm_get s k = Some a \<Longrightarrow> hm_get s k' = Some a \<Longrightarrow> k = k'"
    and "hm_get s k = Some a \<Longrightarrow> a \<in> hosts"
  using assms unfolding bindings_ok_def by blast+

lemma bindings_ok_Nil [simp]: "bindings_ok hosts []"
  by (simp add: bindings_ok_def)

lemma bindings_sub:
  assumes "bindings_ok hosts s" and "hm_wf t" and "\<And>k a. hm_get t k = Some a \<Longrightarrow> hm_get s k = Some a"
  shows "bindings_ok hosts t"
  using assms bindings_okD [OF assms(1)] by (intro bindings_okI) blast+

lemma bindings_insert:
  assumes "bindings_ok hosts s" and "a \<in> hosts" and "\<And>k. hm_get s k = Some a \<Longrightarrow> k = pk"
  shows "bindings_ok hosts (hm_insert pk a s)"
  using assms(2,3) bindings_okD [OF assms(1)]
  by (intro bindings_okI) (auto simp: table hm_wf_insert split: if_splits)

lemma bindings_length:
  assumes "bindings_ok hosts s" and "finite hosts"
  shows "length s \<le> card hosts"
proof -
  have wf: "hm_wf s" using bindings_okD(1) [OF assms(1)] .
  then have d: "distinct s" by (simp add: hm_wf_def distinct_map)
  have "inj_on snd (set s)"
  proof (rule inj_onI)
    fix x y assume m: "x \<in> set s" "y \<in> set s" and eq: "snd x = snd y"
    obtain k a where x: "x = (k, a)" by fastforce
    obtain k' where y: "y = (k', a)" using eq x by (metis prod.collapse snd_conv)
    show "x = y" using m bindings_okD(2) [OF assms(1)] unfolding x y hm_in_set_iff [OF wf] by blast
  qed
  then have "length s = card (snd ` set s)" using d by (simp add: card_image distinct_card)
  also have "\<dots> \<le> card hosts"
    using bindings_okD(3) [OF assms(1)] hm_in_set_iff [OF wf] by (intro card_mono [OF assms(2)]) auto
  finally show ?thesis .
qed

lemma drop_stale_ok:
  assumes "bindings_ok hosts s"
  shows "bindings_ok hosts (drop_stale pk a s)" and "hm_get (drop_stale pk a s) k = Some a \<Longrightarrow> k = pk"
proof -
  note wf = bindings_okD(1) [OF assms]
  show "bindings_ok hosts (drop_stale pk a s)"
    by (rule bindings_sub [OF assms]) (auto simp: drop_stale_def table wf intro: wf_table split: option.splits if_splits)
  assume k: "hm_get (drop_stale pk a s) k = Some a"
  then have "hm_get s k = Some a" by (auto simp: drop_stale_def table split: option.splits if_splits)
  then have "(k, a) \<in> set s" by (rule hm_get_in_set)
  then have "find (\<lambda>e. snd e = a) s \<noteq> None" by (auto simp: find_None_iff)
  then obtain stale b where f0: "find (\<lambda>e. snd e = a) s = Some (stale, b)" by auto
  then have "(stale, b) \<in> set s" "b = a" using find_SomeD [OF f0] by auto
  then have f: "find (\<lambda>e. snd e = a) s = Some (stale, a)" and "(stale, a) \<in> set s" using f0 by simp_all
  then have "stale = k" using bindings_okD(2) [OF assms] \<open>hm_get s k = Some a\<close> hm_in_set_iff [OF wf] by blast
  with f k show "k = pk" by (auto simp: drop_stale_def table split: if_splits)
qed

lemma rebind_ok: "bindings_ok hosts s \<Longrightarrow> a \<in> hosts \<Longrightarrow> bindings_ok hosts (rebind h pk a s)"
  by (auto simp: rebind_def Let_def intro: drop_stale_ok bindings_insert)

lemma transfer_binding_ok:
  assumes "bindings_ok hosts s"
  shows "bindings_ok hosts (transfer_binding from to s)"
proof (cases "hm_get s from")
  case (Some a)
  let ?s = "hm_retain (\<lambda>_ bound. bound \<noteq> a) (hm_remove from s)"
  have wf: "hm_wf (hm_remove from s)" using bindings_okD(1) [OF assms] by (rule wf_table)
  have "bindings_ok hosts ?s"
    by (rule bindings_sub [OF assms]) (auto simp: hm_get_retain [OF wf] table wf intro: wf_table split: option.splits if_splits)
  moreover have "a \<in> hosts" using bindings_okD(3) [OF assms Some] .
  moreover have "hm_get ?s k \<noteq> Some a" for k by (auto simp: hm_get_retain [OF wf] split: option.splits)
  ultimately show ?thesis using Some by (auto simp: transfer_binding_def intro: bindings_insert)
qed (use assms in \<open>simp add: transfer_binding_def\<close>)

section \<open>The invariant of the pool\<close>

text \<open>Once claims are wired, the record of the last holder of a held address is its holder.\<close>

definition holders_known :: "ip_allocator \<Rightarrow> bool" where
  "holders_known p \<longleftrightarrow> (\<forall>c a. address_of (used p) c = Some a \<longrightarrow> hm_get (last_holder p) a = Some (owner_of (used p) c))"

definition pool_inv :: "ipv4 set \<Rightarrow> ip_allocator \<Rightarrow> bool" where
  "pool_inv hosts p \<longleftrightarrow> holdings_ok (used p) \<and> one_tenant (used p)
     \<and> distinct (free p) \<and> set (free p) \<inter> held (used p) = {} \<and> set (free p) \<union> held (used p) = hosts
     \<and> bindings_ok hosts (sticky p)
     \<and> (\<forall>r. restart p = Some r \<longrightarrow> eligible r \<subseteq> set (free p))
     \<and> (claims p \<longrightarrow> holders_known p)"

lemma pool_invD:
  assumes "pool_inv hosts p"
  shows "holdings_ok (used p)" "one_tenant (used p)" "distinct (free p)" "set (free p) \<inter> held (used p) = {}"
    "set (free p) \<union> held (used p) = hosts" "bindings_ok hosts (sticky p)"
    "restart p = Some r \<Longrightarrow> eligible r \<subseteq> set (free p)" "claims p \<Longrightarrow> holders_known p"
  using assms unfolding pool_inv_def by blast+

lemma free_taken:
  assumes "distinct xs" and "mset xs = add_mset a (mset ys)"
  shows "distinct ys" "a \<notin> set ys" "set xs = insert a (set ys)" "a \<in> set xs"
proof -
  have "distinct (a # ys)" using assms by (metis distinct_count_atmost_1 mset.simps(2) mset_eq_setD)
  then show "distinct ys" "a \<notin> set ys" by simp_all
  show "set xs = insert a (set ys)" using assms(2) by (metis list.simps(15) mset.simps(2) mset_eq_setD)
  then show "a \<in> set xs" by simp
qed

lemma placed_tenant:
  assumes "pool_inv hosts p" and "placed ic p c ow a q"
  shows "holdings_ok (used q)" "one_tenant (used q)" "held (used q) = insert a (held (used p))"
proof -
  have u: "used q = hold (used p) c a ow" "address_of (used p) c = None" using assms(2) by (simp_all add: placed_def)
  show "holdings_ok (used q)" unfolding u(1) by (rule hold_ok [OF pool_invD(1) [OF assms(1)] u(2)])
  show "held (used q) = insert a (held (used p))" unfolding u(1) by (rule held_hold [OF u(2)])
  show "one_tenant (used q)"
  proof (cases "mset (free p) = add_mset a (mset (free q))")
    case True
    then have "a \<notin> held (used p)" using pool_invD(4) [OF assms(1)] mset_free_mem [OF True] by blast
    then show ?thesis unfolding u(1) by (rule hold_fresh_tenant [OF pool_invD(1,2) [OF assms(1)] u(2)])
  next
    case False
    then obtain pk where "ow = Some pk" "held_by (used p) a pk" using assms(2) by (auto simp: placed_def)
    then show ?thesis unfolding u(1) using hold_shared_tenant [OF pool_invD(1,2) [OF assms(1)] u(2)] by simp
  qed
qed

lemma placed_known:
  assumes "pool_inv hosts p" and "placed ic p c ow a q" and "claims q"
  shows "holders_known q"
proof -
  have u: "used q = hold (used p) c a ow" "address_of (used p) c = None" "claims p"
    "last_holder q = hm_insert a ow (last_holder p)" using assms(2,3) by (auto simp: placed_def)
  have o: "owner_of (used p) c = None" by (rule holdings_okD(3) [OF pool_invD(1) [OF assms(1)] u(2)])
  note t = one_tenantD [OF placed_tenant(2) [OF assms(1,2)]]
  show ?thesis unfolding holders_known_def
  proof (intro allI impI)
    fix d b assume d: "address_of (used q) d = Some b"
    show "hm_get (last_holder q) b = Some (owner_of (used q) d)"
    proof (cases "b = a")
      case False
      then have "address_of (used p) d = Some b" "d \<noteq> c" using d by (auto simp: u(1) address_of_hold split: if_splits)
      then show ?thesis using pool_invD(8) [OF assms(1) u(3)] False
        by (simp add: holders_known_def u(1,4) owner_of_hold [OF o] table)
    next
      case True
      have c: "address_of (used q) c = Some a" "owner_of (used q) c = ow"
        by (simp_all add: u(1) address_of_hold owner_of_hold [OF o])
      have "owner_of (used q) d = ow"
      proof (cases "d = c")
        case False
        with t [OF c(1), of d] d True c(2) show ?thesis by auto
      qed (use c(2) in simp)
      then show ?thesis by (simp add: True u(4) table)
    qed
  qed
qed

lemma placed_inv:
  assumes "pool_inv hosts p" and "placed ic p c ow a q"
  shows "pool_inv hosts q"
proof -
  note i = pool_invD [OF assms(1)]
  have f: "distinct (free q) \<and> set (free q) = set (free p) - {a} \<and> a \<in> hosts"
  proof (cases "mset (free p) = add_mset a (mset (free q))")
    case True
    show ?thesis using free_taken [OF i(3) True] i(5) by blast
  next
    case False
    then obtain pk where "free q = free p" "held_by (used p) a pk" using assms(2) by (auto simp: placed_def)
    then show ?thesis using i(3-5) held_by_held [OF i(1)] by fastforce
  qed
  have "set (free q) \<inter> held (used q) = {}" "set (free q) \<union> held (used q) = hosts"
    using f i(4,5) unfolding placed_tenant(3) [OF assms] by auto
  moreover have "bindings_ok hosts (sticky q)"
    using assms(2) i(6) f rebind_ok by (auto simp: placed_def)
  moreover have "eligible r \<subseteq> set (free q)" if r: "restart q = Some r" for r
  proof -
    obtain r0 where "restart p = Some r0" "eligible r = eligible r0 - {a}" using assms(2) r unfolding placed_def by blast
    then show ?thesis using i(7) f by blast
  qed
  ultimately show ?thesis
    using placed_tenant [OF assms] placed_known [OF assms] f unfolding pool_inv_def by blast
qed

lemma unserved_inv:
  assumes "pool_inv hosts p" and "unserved p q"
  shows "pool_inv hosts q"
proof -
  have "distinct (free q)" "set (free q) = set (free p)"
    using assms pool_invD(3) [OF assms(1)] by (auto simp: unserved_def dest: mset_eq_setD mset_eq_imp_distinct_iff)
  then show ?thesis using assms by (auto simp: pool_inv_def unserved_def holders_known_def)
qed

lemma pool_release_inv:
  assumes "pool_inv hosts p"
  shows "pool_inv hosts (pool_release p c)"
proof -
  note i = pool_invD [OF assms]
  obtain h r where r: "release_hold (used p) c = (h, r)" by fastforce
  note k = release_ok [OF i(1,2) r]
  have known: "holders_known (p\<lparr>used := h\<rparr>)" "holders_known (p\<lparr>used := h, free := xs\<rparr>)" if "claims p" for xs
    using i(8) [OF that] k by (auto simp: holders_known_def split: if_splits)
  show ?thesis
  proof (cases "\<exists>a. r = Some (a, True)")
    case True
    then obtain a where a: "r = Some (a, True)" by blast
    then have "a \<in> held (used p)" "held h = held (used p) - {a}" using k by simp_all
    moreover have "a \<notin> set (free p)" "a \<in> hosts" using calculation(1) i(4,5) by blast+
    ultimately show ?thesis using i k known r a
      by (auto simp: pool_release_def pool_inv_def)
  next
    case False
    then have "pool_release p c = p\<lparr>used := h\<rparr>" "held h = held (used p)"
      using r k by (auto simp: pool_release_def split: option.splits bool.splits)
    then show ?thesis using i k known by (simp add: pool_inv_def)
  qed
qed

lemma transfer_inv:
  assumes "pool_inv hosts p"
  shows "pool_inv hosts (pool_transfer_owner p from to)"
proof (cases "from = to")
  case False
  note i = pool_invD [OF assms]
  let ?q = "pool_transfer_owner p from to"
  have q: "used ?q = transfer_holdings (used p) from to" "sticky ?q = transfer_binding from to (sticky p)"
    "last_holder ?q = map (\<lambda>(a, h). (a, if h = Some from then Some to else h)) (last_holder p)"
    "free ?q = free p" "restart ?q = restart p" "claims ?q = claims p"
    using False by (simp_all add: pool_transfer_owner_def)
  have "holders_known ?q" if "claims p"
    using i(8) [OF that] by (auto simp: holders_known_def q(1,3) transfer_lookups hm_get_map_values map_option_case split: option.splits)
  then show ?thesis
    using i transfer_ok [OF i(1)] transfer_tenant [OF i(2)] transfer_binding_ok [OF i(6)]
    unfolding pool_inv_def q transfer_lookups by blast
qed (use assms in \<open>simp add: pool_transfer_owner_def\<close>)

lemma enable_inv: "pool_inv hosts p \<Longrightarrow> pool_inv hosts (enable_restart_reclaim p addrs now)"
  by (auto simp: enable_restart_reclaim_def pool_inv_def holders_known_def)

section \<open>Runs of the pool\<close>

datatype pool_op =
    Op_allocate conn_id
  | Op_allocate_at conn_id pubkey session_intent instant bool
  | Op_release conn_id
  | Op_transfer_owner pubkey pubkey
  | Op_enable_restart_reclaim "ipv4 list" instant

fun pool_exec :: "(ipv4 \<Rightarrow> bool) \<Rightarrow> ip_allocator \<Rightarrow> pool_op \<Rightarrow> ip_allocator" where
  "pool_exec ic p (Op_allocate c) = fst (pool_allocate ic p c)"
| "pool_exec ic p (Op_allocate_at c pk intent now may) = fst (pool_allocate_at ic p c pk intent now may)"
| "pool_exec ic p (Op_release c) = pool_release p c"
| "pool_exec ic p (Op_transfer_owner from to) = pool_transfer_owner p from to"
| "pool_exec ic p (Op_enable_restart_reclaim addrs now) = enable_restart_reclaim p addrs now"

text \<open>One operation, with whatever the deployer answers about the addresses during it.\<close>

definition pool_step :: "ip_allocator \<Rightarrow> ip_allocator \<Rightarrow> bool" where
  "pool_step p q \<longleftrightarrow> (\<exists>ic op. q = pool_exec ic p op)"

text \<open>An allocation places the connection, finds nothing, or repeats the address it holds.\<close>

lemma pool_exec_cases:
  obtains c ow a where "placed ic p c ow a (pool_exec ic p op)"
  | "unserved p (pool_exec ic p op)"
  | c where "op = Op_release c"
  | k k' where "op = Op_transfer_owner k k'"
  | addrs now where "op = Op_enable_restart_reclaim addrs now"
proof (cases op)
  case (Op_allocate c)
  show thesis
  proof (cases "address_of (used p) c")
    case None
    obtain q r where q: "pool_allocate ic p c = (q, r)" by fastforce
    from pool_allocate_spec [OF None q] show thesis using that(1,2) Op_allocate q by (cases r) auto
  qed (use that(2) Op_allocate in \<open>simp add: pool_allocate_def unserved_def\<close>)
next
  case (Op_allocate_at c pk intent now may)
  show thesis
  proof (cases "address_of (used p) c")
    case None
    obtain q r where q: "pool_allocate_at ic p c pk intent now may = (q, r)" by fastforce
    from allocate_at_spec [OF None q] show thesis using that(1,2) Op_allocate_at q by (cases r) auto
  qed (use that(2) Op_allocate_at in \<open>simp add: pool_allocate_at_def unserved_def\<close>)
qed (use that in auto)

lemma pool_exec_inv:
  assumes "pool_inv hosts p"
  shows "pool_inv hosts (pool_exec ic p op)"
  by (cases rule: pool_exec_cases [of ic p op])
    (use assms in \<open>auto intro: placed_inv unserved_inv pool_release_inv transfer_inv enable_inv\<close>)

interpretation pool_sys: invariant_steps pool_step "pool_inv hosts" for hosts
  by unfold_locales (auto simp: pool_step_def intro: pool_exec_inv)

section \<open>The subnet\<close>

lemma drop_bit_mono_word:
  fixes x y :: "'a :: len word"
  shows "x \<le> y \<Longrightarrow> drop_bit n x \<le> drop_bit n y"
  unfolding word_le_nat_alt unat_drop_bit_eq by (simp add: drop_bit_eq_div div_le_mono)

lemma between_subnet:
  fixes a net :: u32
  assumes "net \<le> a" and "a \<le> net OR NOT (push_bit n (- 1))" and "net AND push_bit n (- 1) = net"
  shows "a AND push_bit n (- 1) = net"
proof -
  have "drop_bit n (net OR NOT (push_bit n (- 1))) = drop_bit n net"
    by (rule bit_word_eqI) (auto simp: bit_simps)
  with drop_bit_mono_word [OF assms(1), of n] drop_bit_mono_word [OF assms(2), of n]
  have "drop_bit n a = drop_bit n net" by simp
  then have d: "bit (drop_bit n a) (i - n) = bit (drop_bit n net) (i - n)" for i by simp
  show ?thesis
  proof (rule bit_word_eqI)
    fix i assume i: "i < LENGTH(32)"
    have "bit net i \<Longrightarrow> \<not> i < n"
      using arg_cong [OF assms(3), of "\<lambda>w. bit w i"] i by (auto simp: bit_simps)
    then show "bit (a AND push_bit n (- 1)) i = bit net i"
      using d [of i] i by (cases "n \<le> i") (auto simp: bit_simps bit_drop_bit_eq)
  qed
qed

lemma unat_u32_less: "unat (a :: u32) < 2 ^ 32"
  using unsigned_less [of a, where ?'a = nat] by simp

lemma unat_of_nat_below: "n < unat (bc :: u32) \<Longrightarrow> unat (of_nat n :: u32) = n"
  using unat_u32_less [of bc] by (simp add: unsigned_of_nat take_bit_nat_eq_self)

lemma subnet_hosts_iff: "a \<in> set (subnet_hosts net bc gw) \<longleftrightarrow> net < a \<and> a < bc \<and> a \<noteq> gw"
proof -
  have "a \<in> of_nat ` {unat net + 1..<unat bc} \<longleftrightarrow> net < a \<and> a < bc"
  proof
    assume "a \<in> of_nat ` {unat net + 1..<unat bc}"
    then obtain n where n: "a = of_nat n" "unat net < n" "n < unat bc" by auto
    then have "unat a = n" using unat_of_nat_below by simp
    then show "net < a \<and> a < bc" using n by (simp add: word_less_nat_alt)
  next
    assume "net < a \<and> a < bc"
    then show "a \<in> of_nat ` {unat net + 1..<unat bc}"
      by (intro image_eqI [of _ _ "unat a"]) (auto simp: word_less_nat_alt)
  qed
  then show ?thesis by (auto simp: subnet_hosts_def)
qed

lemma subnet_hosts_distinct: "distinct (subnet_hosts net bc gw)"
proof -
  have "inj_on (of_nat :: nat \<Rightarrow> u32) {unat net + 1..<unat bc}"
  proof (rule inj_onI)
    fix x y assume m: "x \<in> {unat net + 1..<unat bc}" "y \<in> {unat net + 1..<unat bc}"
    assume "(of_nat x :: u32) = of_nat y"
    then have "unat (of_nat x :: u32) = unat (of_nat y :: u32)" by (rule arg_cong)
    moreover have "x < unat bc" "y < unat bc" using m by simp_all
    ultimately show "x = y" by (simp only: unat_of_nat_below)
  qed
  then show ?thesis by (simp add: subnet_hosts_def distinct_map)
qed

lemma pool_start:
  assumes "pool_with_seed net plen gw seed = Inr p0" and "p1 = p0 \<or> p1 = set_address_claims p0"
  shows "pool_inv (set (free p0)) p1" and "distinct (free p0)" and "sticky p1 = []"
    and "a \<in> set (free p0) \<Longrightarrow> a \<noteq> gw \<and> a \<noteq> pool_network p0
      \<and> a AND push_bit (32 - unat plen) (- 1) = net AND push_bit (32 - unat plen) (- 1)"
proof -
  let ?m = "push_bit (32 - unat plen) (- 1 :: u32)"
  have "plen \<noteq> 0" using assms(1) by (auto simp: pool_with_seed_def)
  then have "0 < unat plen" by (simp add: unat_gt_0)
  then have m: "32 - unat plen \<noteq> 32" by linarith
  have f: "free p0 = subnet_hosts (net AND ?m) (net AND ?m OR NOT ?m) gw"
    "used p0 = new_holdings" "sticky p0 = []" "restart p0 = None" "pool_network p0 = net AND ?m"
    using assms(1) m by (auto simp: pool_with_seed_def Let_def split: if_splits)
  show d: "distinct (free p0)" unfolding f by (rule subnet_hosts_distinct)
  show "pool_inv (set (free p0)) p1" "sticky p1 = []"
    using assms(2) d f by (auto simp: pool_inv_def set_address_claims_def holders_known_def)
  assume a: "a \<in> set (free p0)"
  have "a AND ?m = net AND ?m"
    by (rule between_subnet) (use a in \<open>auto simp: f subnet_hosts_iff and.assoc\<close>)
  with a show "a \<noteq> gw \<and> a \<noteq> pool_network p0 \<and> a AND ?m = net AND ?m" by (auto simp: f subnet_hosts_iff)
qed

end
