(* ===== verification/Ip_Pool_V6.thy ===== *)
theory Ip_Pool_V6
  imports Ip_Pool_Inv
begin

text \<open>
  The IPv6 pool of a multi-hop exit, \<open>IpAllocatorV6\<close> of \<open>multihop-server/src/ip_pool.rs\<close>: interface
  identifiers drawn at random in a /64 and recycled. The lemmas show the same tenancy as for the IPv4
  pool and that the network and gateway addresses are never handed out.
\<close>

section \<open>The pool\<close>

type_synonym ipv6 = "128 word"

record ip_allocator6 =
  network6 :: ipv6
  gateway6 :: ipv6
  rng6 :: u64
  recycled :: "u64 list"
  used6 :: "u64 holdings"
  sticky6 :: "(pubkey, u64) hmap"

datatype session_intent6 = Legacy6 | Fresh6 | Join6 "conn_id list"

definition pool6_with_seed :: "ipv6 \<Rightarrow> u64 \<Rightarrow> ip_allocator6" where
  "pool6_with_seed net seed =
     (let network = net AND push_bit 64 (- 1)
      in \<lparr>network6 = network, gateway6 = network OR 1, rng6 = seed, recycled = [], used6 = new_holdings, sticky6 = []\<rparr>)"

definition addr_of :: "ip_allocator6 \<Rightarrow> u64 \<Rightarrow> ipv6" where
  "addr_of p offset = network6 p OR ucast offset"

fun draw_offset :: "u64 holdings \<Rightarrow> nat \<Rightarrow> u64 \<Rightarrow> u64 \<times> u64 option" where
  "draw_offset h 0 rng = (rng, None)"
| "draw_offset h (Suc tries) rng =
     (case next_u64 rng of (rng', offset) \<Rightarrow>
        if offset < 2 then draw_offset h tries rng'
        else if is_held h offset then draw_offset h tries rng'
        else (rng', Some offset))"

definition pop_offset :: "ip_allocator6 \<Rightarrow> ip_allocator6 \<times> u64 option" where
  "pop_offset p =
     (if recycled p \<noteq> [] then
        case bounded (rng6 p) (length (recycled p)) of (rng, idx) \<Rightarrow>
          (p\<lparr>rng6 := rng, recycled := swap_remove idx (recycled p)\<rparr>, Some (recycled p ! idx))
      else case draw_offset (used6 p) 64 (rng6 p) of (rng, r) \<Rightarrow> (p\<lparr>rng6 := rng\<rparr>, r))"

definition allocate6 :: "ip_allocator6 \<Rightarrow> conn_id \<Rightarrow> ip_allocator6 \<times> ipv6 option" where
  "allocate6 p conn =
     (case address_of (used6 p) conn of
        Some offset \<Rightarrow> (p, Some (addr_of p offset))
      | None \<Rightarrow>
          case pop_offset p of
            (p', None) \<Rightarrow> (p', None)
          | (p', Some offset) \<Rightarrow> (p'\<lparr>used6 := hold (used6 p') conn offset None\<rparr>, Some (addr_of p' offset)))"

fun shared_offset :: "u64 holdings \<Rightarrow> pubkey \<Rightarrow> conn_id list \<Rightarrow> u64 option" where
  "shared_offset h pk [] = None"
| "shared_offset h pk (c # cs) =
     (case (if owner_of h c = Some pk then address_of h c else None) of
        Some offset \<Rightarrow> Some offset
      | None \<Rightarrow> shared_offset h pk cs)"

definition join6 :: "ip_allocator6 \<Rightarrow> pubkey \<Rightarrow> session_intent6 \<Rightarrow> u64 option" where
  "join6 p pk intent = (case intent of Join6 siblings \<Rightarrow> shared_offset (used6 p) pk siblings | _ \<Rightarrow> None)"

text \<open>The sticky identifier: reused when it is recycled, shared by a hint-less request.\<close>

definition sticky_offset :: "ip_allocator6 \<Rightarrow> pubkey \<Rightarrow> session_intent6 \<Rightarrow> (ip_allocator6 \<times> u64) option" where
  "sticky_offset p pk intent =
     (case hm_get (sticky6 p) pk of
        None \<Rightarrow> None
      | Some preferred \<Rightarrow>
          case position preferred (recycled p) of
            Some pos \<Rightarrow> Some (p\<lparr>recycled := swap_remove pos (recycled p)\<rparr>, preferred)
          | None \<Rightarrow> if intent = Legacy6 \<and> held_by (used6 p) preferred pk then Some (p, preferred) else None)"

definition allocate6_with_intent ::
  "ip_allocator6 \<Rightarrow> conn_id \<Rightarrow> pubkey \<Rightarrow> session_intent6 \<Rightarrow> ip_allocator6 \<times> ipv6 option" where
  "allocate6_with_intent p conn pk intent =
     (case address_of (used6 p) conn of
        Some offset \<Rightarrow> (p, Some (addr_of p offset))
      | None \<Rightarrow>
          case join6 p pk intent of
            Some offset \<Rightarrow> (p\<lparr>used6 := hold (used6 p) conn offset (Some pk)\<rparr>, Some (addr_of p offset))
          | None \<Rightarrow>
              case sticky_offset p pk intent of
                Some (p1, offset) \<Rightarrow> (p1\<lparr>used6 := hold (used6 p1) conn offset (Some pk)\<rparr>, Some (addr_of p1 offset))
              | None \<Rightarrow>
                  case pop_offset p of
                    (p1, None) \<Rightarrow> (p1, None)
                  | (p1, Some offset) \<Rightarrow>
                      let h = hold (used6 p1) conn offset (Some pk)
                      in (p1\<lparr>used6 := h, sticky6 := rebind h pk offset (sticky6 p1)\<rparr>, Some (addr_of p1 offset)))"

definition transfer6 :: "ip_allocator6 \<Rightarrow> pubkey \<Rightarrow> pubkey \<Rightarrow> ip_allocator6" where
  "transfer6 p from to =
     (if from = to then p
      else p\<lparr>used6 := transfer_holdings (used6 p) from to, sticky6 := transfer_binding from to (sticky6 p)\<rparr>)"

definition release6 :: "ip_allocator6 \<Rightarrow> conn_id \<Rightarrow> ip_allocator6" where
  "release6 p conn =
     (case release_hold (used6 p) conn of
        (h, Some (offset, True)) \<Rightarrow> p\<lparr>used6 := h, recycled := recycled p @ [offset]\<rparr>
      | (h, _) \<Rightarrow> p\<lparr>used6 := h\<rparr>)"

section \<open>What an allocation does\<close>

text \<open>The connection gets an identifier nobody holds, recycled or new, or one its own key holds.\<close>

definition placed6 :: "ip_allocator6 \<Rightarrow> conn_id \<Rightarrow> pubkey option \<Rightarrow> u64 \<Rightarrow> ip_allocator6 \<Rightarrow> bool" where
  "placed6 p c ow x q \<longleftrightarrow>
     address_of (used6 p) c = None \<and> used6 q = hold (used6 p) c x ow \<and> network6 q = network6 p
     \<and> (sticky6 q = sticky6 p \<or> (\<exists>pk. ow = Some pk \<and> sticky6 q = rebind (used6 q) pk x (sticky6 p)))
     \<and> (mset (recycled p) = add_mset x (mset (recycled q))
        \<or> recycled p = [] \<and> recycled q = [] \<and> 2 \<le> x \<and> \<not> is_held (used6 p) x
        \<or> recycled q = recycled p \<and> (\<exists>pk. ow = Some pk \<and> held_by (used6 p) x pk))"

definition unserved6 :: "ip_allocator6 \<Rightarrow> ip_allocator6 \<Rightarrow> bool" where
  "unserved6 p q \<longleftrightarrow> (\<exists>rng. q = p\<lparr>rng6 := rng\<rparr>)"

lemma draw_offset_spec: "draw_offset h n rng = (rng', Some x) \<Longrightarrow> 2 \<le> x \<and> \<not> is_held h x"
  by (induction h n rng rule: draw_offset.induct) (auto split: prod.splits if_splits simp: not_less)

lemma pop_offset_spec:
  assumes "pop_offset p = (q, r)"
  shows "\<exists>rng xs. q = p\<lparr>rng6 := rng, recycled := xs\<rparr>
    \<and> (case r of None \<Rightarrow> xs = recycled p
        | Some x \<Rightarrow> mset (recycled p) = add_mset x (mset xs)
            \<or> recycled p = [] \<and> xs = [] \<and> 2 \<le> x \<and> \<not> is_held (used6 p) x)"
proof (cases "recycled p = []")
  case True
  obtain rng where d: "draw_offset (used6 p) 64 (rng6 p) = (rng, r)" "q = p\<lparr>rng6 := rng\<rparr>"
    using assms True by (auto simp: pop_offset_def split: prod.splits)
  then have "q = p\<lparr>rng6 := rng, recycled := recycled p\<rparr>" by simp
  moreover have "2 \<le> x \<and> \<not> is_held (used6 p) x" if "r = Some x" for x using draw_offset_spec d(1) that by blast
  ultimately show ?thesis using True by (intro exI [of _ rng] exI [of _ "recycled p"]) (auto split: option.splits)
next
  case False
  then have l: "0 < length (recycled p)" by simp
  obtain rng idx where b: "bounded (rng6 p) (length (recycled p)) = (rng, idx)" by fastforce
  then have "idx < length (recycled p)" using bounded_less [OF l, of "rng6 p"] by simp
  from swap_remove_mset [OF this] show ?thesis using assms False b
    by (intro exI [of _ rng] exI [of _ "swap_remove idx (recycled p)"]) (auto simp: pop_offset_def)
qed

lemma shared_offset_held:
  assumes "shared_offset h pk cs = Some x"
  shows "\<exists>c \<in> set cs. owner_of h c = Some pk \<and> address_of h c = Some x"
  using assms by (induction cs) (auto split: option.splits if_splits)

lemma held_byI:
  assumes "holdings_ok h" and "owner_of h c = Some pk" and "address_of h c = Some x"
  shows "held_by h x pk"
  using assms(2,3) holdings_okD(1) [OF assms(1)] unfolding held_by_def owner_of_def by blast

definition unheld6 :: "ip_allocator6 \<Rightarrow> u64 \<Rightarrow> ip_allocator6 \<Rightarrow> bool" where
  "unheld6 p x q \<longleftrightarrow> mset (recycled p) = add_mset x (mset (recycled q))
     \<or> recycled p = [] \<and> recycled q = [] \<and> 2 \<le> x \<and> \<not> is_held (used6 p) x"

lemma pop_offset_placed:
  assumes "address_of (used6 p) c = None" and "pop_offset p = (p1, r)"
  shows "case r of None \<Rightarrow> unserved6 p p1
    | Some x \<Rightarrow> addr_of p1 = addr_of p \<and> unheld6 p x p1 \<and> placed6 p c ow x (p1\<lparr>used6 := hold (used6 p1) c x ow\<rparr>)
        \<and> (ow = Some pk \<longrightarrow> placed6 p c ow x (p1\<lparr>used6 := hold (used6 p1) c x ow,
             sticky6 := rebind (hold (used6 p1) c x ow) pk x (sticky6 p1)\<rparr>))"
proof -
  from pop_offset_spec [OF assms(2)] obtain rng xs where q: "p1 = p\<lparr>rng6 := rng, recycled := xs\<rparr>"
    "case r of None \<Rightarrow> xs = recycled p
     | Some x \<Rightarrow> mset (recycled p) = add_mset x (mset xs) \<or> recycled p = [] \<and> xs = [] \<and> 2 \<le> x \<and> \<not> is_held (used6 p) x"
    by blast
  show ?thesis
  proof (cases r)
    case None
    then have "p1 = p\<lparr>rng6 := rng\<rparr>" using q by simp
    then show ?thesis using None by (auto simp: unserved6_def)
  next
    case (Some x)
    then show ?thesis using q assms(1) by (auto simp: placed6_def unheld6_def addr_of_def fun_eq_iff)
  qed
qed

lemma allocate6_spec:
  assumes "address_of (used6 p) c = None" and "allocate6 p c = (q, r)"
  shows "case r of None \<Rightarrow> unserved6 p q
    | Some a \<Rightarrow> \<exists>x. a = addr_of p x \<and> placed6 p c None x q \<and> unheld6 p x q"
proof -
  obtain p1 r1 where pop: "pop_offset p = (p1, r1)" by fastforce
  note s = pop_offset_placed [OF assms(1) pop, of None]
  show ?thesis
  proof (cases r1)
    case None
    then have "q = p1" "r = None" using assms pop by (simp_all add: allocate6_def)
    then show ?thesis using s None by simp
  next
    case (Some x)
    then have "q = p1\<lparr>used6 := hold (used6 p1) c x None\<rparr>" "r = Some (addr_of p1 x)"
      using assms pop by (simp_all add: allocate6_def)
    then show ?thesis using s Some by (auto simp: unheld6_def)
  qed
qed

lemma sticky_offset_spec:
  assumes "address_of (used6 p) c = None" and "sticky_offset p pk intent = Some (p1, x)"
  shows "addr_of p1 = addr_of p \<and> placed6 p c (Some pk) x (p1\<lparr>used6 := hold (used6 p1) c x (Some pk)\<rparr>)
    \<and> (unheld6 p x p1 \<or> intent = Legacy6)"
proof -
  obtain "hm_get (sticky6 p) pk = Some x"
    and s: "case position x (recycled p) of Some pos \<Rightarrow> p1 = p\<lparr>recycled := swap_remove pos (recycled p)\<rparr>
       | None \<Rightarrow> p1 = p \<and> intent = Legacy6 \<and> held_by (used6 p) x pk"
    using assms(2) by (auto simp: sticky_offset_def split: option.splits if_splits)
  show ?thesis
  proof (cases "position x (recycled p)")
    case None
    then show ?thesis using s assms(1) by (auto simp: placed6_def)
  next
    case (Some i)
    from position_SomeD [OF Some] have "mset (recycled p) = add_mset x (mset (swap_remove i (recycled p)))"
      using swap_remove_mset [of i "recycled p"] by simp
    then show ?thesis using s Some assms(1) by (auto simp: placed6_def unheld6_def addr_of_def fun_eq_iff)
  qed
qed

lemma allocate6_intent_spec:
  assumes "holdings_ok (used6 p)" and "address_of (used6 p) c = None" and "allocate6_with_intent p c pk intent = (q, r)"
  shows "case r of None \<Rightarrow> unserved6 p q
    | Some a \<Rightarrow> \<exists>x. a = addr_of p x \<and> placed6 p c (Some pk) x q
        \<and> (unheld6 p x q \<or> intent = Legacy6
           \<or> (\<exists>cs d. intent = Join6 cs \<and> d \<in> set cs \<and> address_of (used6 p) d = Some x))"
proof (cases "join6 p pk intent")
  case (Some x)
  then obtain cs where cs: "intent = Join6 cs" "shared_offset (used6 p) pk cs = Some x"
    by (auto simp: join6_def split: session_intent6.splits)
  from shared_offset_held [OF cs(2)] obtain d where d: "d \<in> set cs" "owner_of (used6 p) d = Some pk"
    "address_of (used6 p) d = Some x" by blast
  have "q = p\<lparr>used6 := hold (used6 p) c x (Some pk)\<rparr>" "r = Some (addr_of p x)"
    using assms(2,3) Some by (simp_all add: allocate6_with_intent_def)
  then show ?thesis using cs(1) d held_byI [OF assms(1) d(2,3)] assms(2) by (auto simp: placed6_def)
next
  case nj: None
  show ?thesis
  proof (cases "sticky_offset p pk intent")
    case (Some px)
    obtain p1 x where px: "px = (p1, x)" by fastforce
    then have "q = p1\<lparr>used6 := hold (used6 p1) c x (Some pk)\<rparr>" "r = Some (addr_of p1 x)"
      using assms(2,3) Some nj by (simp_all add: allocate6_with_intent_def)
    then show ?thesis using sticky_offset_spec [OF assms(2) Some [unfolded px]] by (auto simp: unheld6_def)
  next
    case None
    obtain p1 r1 where pop: "pop_offset p = (p1, r1)" by fastforce
    note s = pop_offset_placed [OF assms(2) pop, of "Some pk" pk]
    show ?thesis
    proof (cases r1)
      case n: None
      then have "q = p1" "r = None" using assms(2,3) pop None nj by (simp_all add: allocate6_with_intent_def)
      then show ?thesis using s n by simp
    next
      case (Some x)
      then have "q = p1\<lparr>used6 := hold (used6 p1) c x (Some pk),
          sticky6 := rebind (hold (used6 p1) c x (Some pk)) pk x (sticky6 p1)\<rparr>" "r = Some (addr_of p1 x)"
        using assms(2,3) pop None nj by (simp_all add: allocate6_with_intent_def Let_def)
      then show ?thesis using s Some by (auto simp: unheld6_def)
    qed
  qed
qed

section \<open>The invariant\<close>

definition pool6_inv :: "ip_allocator6 \<Rightarrow> bool" where
  "pool6_inv p \<longleftrightarrow> holdings_ok (used6 p) \<and> one_tenant (used6 p)
     \<and> distinct (recycled p) \<and> set (recycled p) \<inter> held (used6 p) = {}
     \<and> (\<forall>x \<in> set (recycled p) \<union> held (used6 p). 2 \<le> x)
     \<and> bindings_ok (set (recycled p) \<union> held (used6 p)) (sticky6 p)"

lemma pool6_invD:
  assumes "pool6_inv p"
  shows "holdings_ok (used6 p)" "one_tenant (used6 p)" "distinct (recycled p)" "set (recycled p) \<inter> held (used6 p) = {}"
    "x \<in> set (recycled p) \<union> held (used6 p) \<Longrightarrow> 2 \<le> x" "bindings_ok (set (recycled p) \<union> held (used6 p)) (sticky6 p)"
  using assms unfolding pool6_inv_def by blast+

lemma bindings_mono: "bindings_ok A s \<Longrightarrow> A \<subseteq> B \<Longrightarrow> bindings_ok B s"
  unfolding bindings_ok_def by blast

lemma unheld6_free:
  assumes "pool6_inv p" and "unheld6 p x q"
  shows "x \<notin> held (used6 p)"
proof (cases "mset (recycled p) = add_mset x (mset (recycled q))")
  case True
  from mset_free_mem [OF this] pool6_invD(4) [OF assms(1)] show ?thesis by blast
next
  case False
  then show ?thesis using assms(2) held_iff [OF pool6_invD(1) [OF assms(1)]] by (simp add: unheld6_def)
qed

lemma placed6_tenant:
  assumes "pool6_inv p" and "placed6 p c ow x q"
  shows "holdings_ok (used6 q)" "one_tenant (used6 q)" "held (used6 q) = insert x (held (used6 p))"
proof -
  have u: "used6 q = hold (used6 p) c x ow" "address_of (used6 p) c = None" using assms(2) by (simp_all add: placed6_def)
  show "holdings_ok (used6 q)" unfolding u(1) by (rule hold_ok [OF pool6_invD(1) [OF assms(1)] u(2)])
  show "held (used6 q) = insert x (held (used6 p))" unfolding u(1) by (rule held_hold [OF u(2)])
  show "one_tenant (used6 q)"
  proof (cases "unheld6 p x q")
    case True
    from unheld6_free [OF assms(1) this] show ?thesis
      unfolding u(1) by (rule hold_fresh_tenant [OF pool6_invD(1,2) [OF assms(1)] u(2)])
  next
    case False
    then obtain pk where "ow = Some pk" "held_by (used6 p) x pk" using assms(2) by (auto simp: placed6_def unheld6_def)
    then show ?thesis unfolding u(1) using hold_shared_tenant [OF pool6_invD(1,2) [OF assms(1)] u(2)] by simp
  qed
qed

lemma placed6_inv:
  assumes "pool6_inv p" and "placed6 p c ow x q"
  shows "pool6_inv q"
proof -
  note i = pool6_invD [OF assms(1)]
  have f: "distinct (recycled q) \<and> set (recycled q) = set (recycled p) - {x} \<and> 2 \<le> x"
  proof (cases "mset (recycled p) = add_mset x (mset (recycled q))")
    case True
    show ?thesis using free_taken [OF i(3) True] i(5) by blast
  next
    case False
    then consider "recycled p = []" "recycled q = []" "2 \<le> x" | pk where "recycled q = recycled p" "held_by (used6 p) x pk"
      using assms(2) by (auto simp: placed6_def)
    then show ?thesis
    proof cases
      case 2
      then have "x \<in> held (used6 p)" using held_by_held [OF i(1)] by blast
      then show ?thesis using i(3-5) 2 by fastforce
    qed simp
  qed
  have h: "held (used6 q) = insert x (held (used6 p))" by (rule placed6_tenant(3) [OF assms])
  have all: "set (recycled q) \<union> held (used6 q) = insert x (set (recycled p) \<union> held (used6 p))" using f h by auto
  have b: "bindings_ok (set (recycled q) \<union> held (used6 q)) (sticky6 p)"
    using i(6) by (rule bindings_mono) (simp add: all subset_insertI)
  have "x \<in> set (recycled q) \<union> held (used6 q)" unfolding all by simp
  note r = rebind_ok [OF b this]
  consider "sticky6 q = sticky6 p" | pk where "sticky6 q = rebind (used6 q) pk x (sticky6 p)"
    using assms(2) by (auto simp: placed6_def)
  then have "bindings_ok (set (recycled q) \<union> held (used6 q)) (sticky6 q)"
    by cases (simp_all only: b r)
  moreover have "set (recycled q) \<inter> held (used6 q) = {}" using f h i(4) by auto
  moreover have "\<forall>y \<in> set (recycled q) \<union> held (used6 q). 2 \<le> y" using i(5) f all by auto
  ultimately show ?thesis using placed6_tenant [OF assms] f by (simp add: pool6_inv_def)
qed

lemma unserved6_inv: "pool6_inv p \<Longrightarrow> unserved6 p q \<Longrightarrow> pool6_inv q"
  by (auto simp: unserved6_def pool6_inv_def)

lemma release6_inv:
  assumes "pool6_inv p"
  shows "pool6_inv (release6 p c)"
proof -
  note i = pool6_invD [OF assms]
  obtain h r where r: "release_hold (used6 p) c = (h, r)" by fastforce
  note k = release_ok [OF i(1,2) r]
  show ?thesis
  proof (cases "\<exists>x. r = Some (x, True)")
    case True
    then obtain x where x: "r = Some (x, True)" by blast
    then have h: "x \<in> held (used6 p)" "held h = held (used6 p) - {x}" using k by simp_all
    then have "set (recycled p @ [x]) \<union> held h = set (recycled p) \<union> held (used6 p)" "x \<notin> set (recycled p)"
      using i(4) by auto
    moreover have "release6 p c = p\<lparr>used6 := h, recycled := recycled p @ [x]\<rparr>" using r x by (simp add: release6_def)
    ultimately show ?thesis using i k h assms unfolding pool6_inv_def by auto
  next
    case False
    then have "release6 p c = p\<lparr>used6 := h\<rparr>" "held h = held (used6 p)"
      using r k by (auto simp: release6_def split: option.splits bool.splits)
    then show ?thesis using assms k by (simp add: pool6_inv_def)
  qed
qed

lemma transfer6_inv: "pool6_inv p \<Longrightarrow> pool6_inv (transfer6 p k k')"
  by (auto simp: pool6_inv_def transfer6_def transfer_lookups intro: transfer_ok transfer_tenant transfer_binding_ok)

lemma pool6_start: "pool6_inv (pool6_with_seed net seed)"
  by (simp add: pool6_with_seed_def pool6_inv_def Let_def)

end
