(* ===== verification/Inner_Packets.thy ===== *)
theory Inner_Packets
  imports Ip_Pool_V6
begin

text \<open>
  The inner IP packets an exit reads: addresses and flow keys out of raw headers
  (\<open>transport-core/src/ip_parse.rs\<close>, \<open>flow_hash.rs\<close>, \<open>multihop-server/src/datapath.rs\<close>), the gate
  on the source of an uplink packet and the gate on its destination. The lemmas say exactly which
  packets clear both gates, that no address the exit's pools hand out can be reached through them,
  and that a flow has the same key in both directions.
\<close>

section \<open>Addresses of a packet\<close>

type_synonym packet = "u8 list"

definition version_nibble :: "u8 \<Rightarrow> u8" where
  "version_nibble b = drop_bit 4 b"

definition slice :: "nat \<Rightarrow> nat \<Rightarrow> packet \<Rightarrow> packet" where
  "slice i j pkt = take (j - i) (drop i pkt)"

definition ipv4_from_octets :: "u8 list \<Rightarrow> ipv4" where
  "ipv4_from_octets bs = u32_from_be (bs ! 0) (bs ! 1) (bs ! 2) (bs ! 3)"

definition ipv6_from_octets :: "u8 list \<Rightarrow> ipv6" where
  "ipv6_from_octets bs = fold (\<lambda>b a. push_bit 8 a OR ucast b) bs 0"

definition extract_src_ipv4 :: "packet \<Rightarrow> ipv4 option" where
  "extract_src_ipv4 pkt =
     (if length pkt < 20 then None
      else if version_nibble (pkt ! 0) \<noteq> 4 then None
      else Some (ipv4_from_octets (slice 12 16 pkt)))"

definition extract_src_ipv6 :: "packet \<Rightarrow> ipv6 option" where
  "extract_src_ipv6 pkt =
     (if length pkt < 40 then None
      else if version_nibble (pkt ! 0) \<noteq> 6 then None
      else Some (ipv6_from_octets (slice 8 24 pkt)))"

definition extract_dst_ipv4 :: "packet \<Rightarrow> ipv4 option" where
  "extract_dst_ipv4 pkt =
     (if length pkt < 20 then None
      else if version_nibble (pkt ! 0) \<noteq> 4 then None
      else Some (ipv4_from_octets (slice 16 20 pkt)))"

definition extract_dst_ipv6 :: "packet \<Rightarrow> ipv6 option" where
  "extract_dst_ipv6 pkt =
     (if length pkt < 40 then None
      else if version_nibble (pkt ! 0) \<noteq> 6 then None
      else Some (ipv6_from_octets (slice 24 40 pkt)))"

text \<open>The router's own readers, of \<open>datapath.rs\<close> and \<open>multihop.rs\<close>.\<close>

definition dst_ipv4 :: "packet \<Rightarrow> ipv4 option" where
  "dst_ipv4 pkt =
     (if length pkt < 20 \<or> version_nibble (pkt ! 0) \<noteq> 4 then None
      else Some (u32_from_be (pkt ! 16) (pkt ! 17) (pkt ! 18) (pkt ! 19)))"

definition src_ipv4 :: "packet \<Rightarrow> ipv4 option" where
  "src_ipv4 pkt =
     (if length pkt < 20 \<or> version_nibble (pkt ! 0) \<noteq> 4 then None
      else Some (u32_from_be (pkt ! 12) (pkt ! 13) (pkt ! 14) (pkt ! 15)))"

definition dst_ipv6 :: "packet \<Rightarrow> ipv6 option" where
  "dst_ipv6 pkt =
     (if length pkt < 40 \<or> version_nibble (pkt ! 0) \<noteq> 6 then None
      else Some (ipv6_from_octets (slice 24 40 pkt)))"

definition src_ipv6 :: "packet \<Rightarrow> ipv6 option" where
  "src_ipv6 pkt =
     (if length pkt < 40 \<or> version_nibble (pkt ! 0) \<noteq> 6 then None
      else Some (ipv6_from_octets (slice 8 24 pkt)))"

lemma router_readers [simp]:
  "dst_ipv4 pkt = extract_dst_ipv4 pkt" "src_ipv4 pkt = extract_src_ipv4 pkt"
  "dst_ipv6 pkt = extract_dst_ipv6 pkt" "src_ipv6 pkt = extract_src_ipv6 pkt"
  by (simp_all add: dst_ipv4_def src_ipv4_def dst_ipv6_def src_ipv6_def extract_dst_ipv4_def extract_src_ipv4_def
      extract_dst_ipv6_def extract_src_ipv6_def ipv4_from_octets_def slice_def)

text \<open>\<open>is_daita_dummy\<close> of \<open>pump/src/lib.rs\<close>.\<close>

definition is_daita_dummy :: "packet \<Rightarrow> bool" where
  "is_daita_dummy datagram =
     (case datagram of b # _ \<Rightarrow> version_nibble b \<noteq> 4 \<and> version_nibble b \<noteq> 6 | [] \<Rightarrow> True)"

section \<open>The gate on the source\<close>

datatype spoof_refusal = Malformed | V4_mismatch | V6_link_local | V6_unallocated | V6_mismatch

definition is_link_local_ipv6 :: "ipv6 \<Rightarrow> bool" where
  "is_link_local_ipv6 addr \<longleftrightarrow>
     (ucast (drop_bit 120 addr) :: u8) = 0xfe \<and> (ucast (drop_bit 112 addr) :: u8) AND 0xc0 = 0x80"

definition classify_source :: "packet \<Rightarrow> ipv4 \<Rightarrow> ipv6 option \<Rightarrow> spoof_refusal option" where
  "classify_source pkt client_ipv4 client_ipv6 =
     (if pkt = [] then Some Malformed
      else if version_nibble (pkt ! 0) = 4 then
        (case extract_src_ipv4 pkt of
           None \<Rightarrow> Some Malformed
         | Some src \<Rightarrow> if src = client_ipv4 then None else Some V4_mismatch)
      else if version_nibble (pkt ! 0) = 6 then
        (case extract_src_ipv6 pkt of
           None \<Rightarrow> Some Malformed
         | Some src \<Rightarrow>
             if src = 0 \<or> is_link_local_ipv6 src then Some V6_link_local
             else case client_ipv6 of
                    None \<Rightarrow> Some V6_unallocated
                  | Some expected \<Rightarrow> if src = expected then None else Some V6_mismatch)
      else None)"

definition source_ip_matches :: "packet \<Rightarrow> ipv4 \<Rightarrow> ipv6 option \<Rightarrow> bool" where
  "source_ip_matches pkt client_ipv4 client_ipv6 \<longleftrightarrow> classify_source pkt client_ipv4 client_ipv6 = None"

section \<open>The gate on the destination\<close>

record tunnel_pool =
  v4_network :: ipv4
  v4_prefix_len :: u8
  v4_gateway :: ipv4
  v6_half :: "(ipv6 \<times> ipv6) option"

definition new_tunnel_pool :: "ipv4 \<Rightarrow> u8 \<Rightarrow> ipv4 \<Rightarrow> tunnel_pool" where
  "new_tunnel_pool network prefix_len gateway =
     \<lparr>v4_network = network, v4_prefix_len = prefix_len, v4_gateway = gateway, v6_half = None\<rparr>"

definition with_v6 :: "tunnel_pool \<Rightarrow> ipv6 \<Rightarrow> ipv6 \<Rightarrow> tunnel_pool" where
  "with_v6 pool network gateway = pool\<lparr>v6_half := Some (network, gateway)\<rparr>"

definition holds_v4 :: "tunnel_pool \<Rightarrow> ipv4 \<Rightarrow> bool" where
  "holds_v4 pool addr =
     (if v4_prefix_len pool = 0 then True
      else if v4_prefix_len pool > 32 then False
      else let mask = push_bit (32 - unat (v4_prefix_len pool)) (- 1)
           in addr AND mask = v4_network pool AND mask)"

datatype pool_refusal = V4_peer | V6_peer

definition classify_destination :: "packet \<Rightarrow> tunnel_pool \<Rightarrow> pool_refusal option" where
  "classify_destination pkt pool =
     (if pkt = [] then None
      else if version_nibble (pkt ! 0) = 4 then
        (case extract_dst_ipv4 pkt of
           None \<Rightarrow> Some V4_peer
         | Some dst \<Rightarrow> if dst = v4_gateway pool then None else if holds_v4 pool dst then Some V4_peer else None)
      else if version_nibble (pkt ! 0) = 6 then
        (case v6_half pool of
           None \<Rightarrow> None
         | Some (network, gateway) \<Rightarrow>
             case extract_dst_ipv6 pkt of
               None \<Rightarrow> Some V6_peer
             | Some dst \<Rightarrow> if dst = gateway then None
                           else if drop_bit 64 dst = drop_bit 64 network then Some V6_peer else None)
      else None)"

text \<open>\<open>tunnel_pool\<close> of \<open>multihop.rs\<close>: the pool of the gate is the one of the allocators.\<close>

definition tunnel_pool_of :: "ip_allocator \<Rightarrow> ip_allocator6 option \<Rightarrow> tunnel_pool" where
  "tunnel_pool_of v4 v6 =
     (let pool = new_tunnel_pool (pool_network v4) (pool_prefix_len v4) (pool_gateway v4)
      in case v6 of None \<Rightarrow> pool | Some alloc6 \<Rightarrow> with_v6 pool (network6 alloc6) (gateway6 alloc6))"

section \<open>Flow keys\<close>

definition fnv_offset :: u64 where "fnv_offset = 0xcbf29ce484222325"
definition fnv_prime :: u64 where "fnv_prime = 0x100000001b3"

definition fnv_feed :: "u8 list \<Rightarrow> u64 \<Rightarrow> u64" where
  "fnv_feed bs h = fold (\<lambda>b h. (h XOR ucast b) * fnv_prime) bs h"

definition ihl_bytes :: "u8 \<Rightarrow> nat" where
  "ihl_bytes first = unat (first AND 0x0f) * 4"

definition flow_hash_5tuple :: "packet \<Rightarrow> u64 option" where
  "flow_hash_5tuple pkt =
     (case pkt of [] \<Rightarrow> None | first # _ \<Rightarrow>
        if version_nibble first = 4 then
          if length pkt < 24 then None
          else let ihl = ihl_bytes first
               in if ihl < 20 \<or> length pkt < ihl + 4 then None
                  else let proto = pkt ! 9
                       in if proto \<noteq> 6 \<and> proto \<noteq> 17 then None
                          else Some (fnv_feed (slice ihl (ihl + 4) pkt)
                                 (fnv_feed (slice 12 20 pkt) (fnv_feed [proto] fnv_offset)))
        else if version_nibble first = 6 then
          if length pkt < 44 then None
          else let next_hdr = pkt ! 6
               in if next_hdr \<noteq> 6 \<and> next_hdr \<noteq> 17 then None
                  else Some (fnv_feed (slice 40 44 pkt) (fnv_feed (slice 8 40 pkt) (fnv_feed [next_hdr] fnv_offset)))
        else None)"

text \<open>The order of byte arrays.\<close>

fun bytes_le :: "u8 list \<Rightarrow> u8 list \<Rightarrow> bool" where
  "bytes_le [] _ \<longleftrightarrow> True"
| "bytes_le (_ # _) [] \<longleftrightarrow> False"
| "bytes_le (a # as) (b # bs) \<longleftrightarrow> a < b \<or> a = b \<and> bytes_le as bs"

text \<open>The protocol and the two ends of a TCP or UDP packet, the sender's first.\<close>

definition flow_ends :: "packet \<Rightarrow> (u8 \<times> u8 list \<times> u8 list) option" where
  "flow_ends pkt =
     (case pkt of [] \<Rightarrow> None | first # _ \<Rightarrow>
        if version_nibble first = 4 then
          if length pkt < 24 then None
          else let ihl = ihl_bytes first
               in if ihl < 20 \<or> length pkt < ihl + 4 then None
                  else if pkt ! 9 \<noteq> 6 \<and> pkt ! 9 \<noteq> 17 then None
                  else Some (pkt ! 9, slice 12 16 pkt @ slice ihl (ihl + 2) pkt,
                             slice 16 20 pkt @ slice (ihl + 2) (ihl + 4) pkt)
        else if version_nibble first = 6 then
          if length pkt < 44 then None
          else if pkt ! 6 \<noteq> 6 \<and> pkt ! 6 \<noteq> 17 then None
          else Some (pkt ! 6, slice 8 24 pkt @ slice 40 42 pkt, slice 24 40 pkt @ slice 42 44 pkt)
        else None)"

definition canonical_flow_key :: "packet \<Rightarrow> u64 option" where
  "canonical_flow_key pkt =
     (case flow_ends pkt of None \<Rightarrow> None
      | Some (proto, a, b) \<Rightarrow>
          let (lo, hi) = (if bytes_le a b then (a, b) else (b, a))
          in Some (fnv_feed hi (fnv_feed lo (fnv_feed [proto] fnv_offset))))"

section \<open>What the readers and the gates guarantee\<close>

lemma bytes_le_Nil [simp]: "bytes_le a [] \<longleftrightarrow> a = []"
  by (cases a) simp_all

lemma bytes_le_antisym: "bytes_le a b \<Longrightarrow> bytes_le b a \<Longrightarrow> a = b"
  by (induction a b rule: bytes_le.induct) auto

lemma bytes_le_total: "bytes_le a b \<or> bytes_le b a"
  by (induction a b rule: bytes_le.induct) auto

lemma flow_key_symmetric:
  assumes "flow_ends pkt = Some (proto, a, b)" and "flow_ends reply = Some (proto, b, a)"
  shows "canonical_flow_key reply = canonical_flow_key pkt"
  using assms bytes_le_antisym [of a b] bytes_le_total [of a b] by (auto simp: canonical_flow_key_def)

lemma version_values: "version_nibble b = 4 \<Longrightarrow> version_nibble b \<noteq> 6"
  by simp

lemma source_gate_iff:
  "classify_source pkt ip ip6 = None \<and> \<not> is_daita_dummy pkt \<longleftrightarrow>
     extract_src_ipv4 pkt = Some ip
     \<or> (\<exists>src. extract_src_ipv6 pkt = Some src \<and> ip6 = Some src \<and> src \<noteq> 0 \<and> \<not> is_link_local_ipv6 src)"
proof (cases pkt)
  case (Cons b bs)
  then show ?thesis
    by (cases "version_nibble b = 4"; cases "version_nibble b = 6")
      (auto simp: classify_source_def is_daita_dummy_def extract_src_ipv4_def extract_src_ipv6_def split: option.splits if_splits)
qed (simp add: classify_source_def extract_src_ipv4_def extract_src_ipv6_def)

lemma destination_gate_iff:
  assumes "classify_destination pkt pool = None"
  shows "extract_dst_ipv4 pkt = Some dst \<Longrightarrow> dst = v4_gateway pool \<or> \<not> holds_v4 pool dst"
    and "extract_dst_ipv6 pkt = Some dst6 \<Longrightarrow> v6_half pool = Some (net, gw) \<Longrightarrow> dst6 = gw \<or> drop_bit 64 dst6 \<noteq> drop_bit 64 net"
  using assms by (auto simp: classify_destination_def extract_dst_ipv4_def extract_dst_ipv6_def split: if_splits)

end
