(* ===== verification/Ip_Pool_Props.thy ===== *)
theory Ip_Pool_Props
  imports Ip_Pool_Inv
begin

text \<open>
  The properties of the IPv4 pool over every run from a freshly built pool: one tenant per address, the
  placement of a session, the claims of the deployer and the size of the sticky map.
\<close>

section \<open>A pool in use\<close>

definition demo_pool :: ip_allocator where
  "demo_pool = \<lparr>pool_network = 0x0A420000, pool_prefix_len = 29, pool_gateway = 0x0A420001,
     free = [0x0A420002, 0x0A420003, 0x0A420004, 0x0A420005, 0x0A420006], pool_rng = 7, used = new_holdings,
     sticky = [], restart = None, claims = False, last_holder = []\<rparr>"

lemma demo_pool_built: "pool_with_seed 0x0A420000 29 0x0A420001 7 = Inr demo_pool"
  by (simp add: pool_with_seed_def subnet_hosts_def demo_pool_def Let_def push_bit_eq_mult)

lemma demo_draw: "bounded 7 (Suc 4) = (0x9E3779B97F4A7C1C, 2)"
  by (simp add: bounded_def next_u64_def Let_def drop_bit_eq_div)

text \<open>A first connection of a key, and a second one that joins its session.\<close>

definition demo_first :: ip_allocator where
  "demo_first = pool_exec (\<lambda>_. False) (set_address_claims demo_pool) (Op_allocate_at 1 [1] Fresh 0 False)"

definition demo_bonded :: ip_allocator where
  "demo_bonded = pool_exec (\<lambda>_. False) demo_first (Op_allocate_at 2 [1] (Join 0x0A420004) 0 False)"

definition demo_first_fields :: ip_allocator where
  "demo_first_fields = demo_pool\<lparr>claims := True, free := [0x0A420002, 0x0A420003, 0x0A420006, 0x0A420005],
    pool_rng := 0x9E3779B97F4A7C1C, last_holder := [(0x0A420004, Some [1])], sticky := [([1], 0x0A420004)],
    used := \<lparr>by_conn = [(1, 0x0A420004)], owners = [(1, [1])], by_addr = [(0x0A420004, [1])]\<rparr>\<rparr>"

lemma demo_first_served:
  "pool_allocate_at (\<lambda>_. False) (set_address_claims demo_pool) 1 [1] Fresh 0 False = (demo_first_fields, Some 0x0A420004)"
proof -
  have "pop_random (\<lambda>_. False) (set_address_claims demo_pool) = ((set_address_claims demo_pool)
      \<lparr>pool_rng := 0x9E3779B97F4A7C1C, free := [0x0A420002, 0x0A420003, 0x0A420006, 0x0A420005]\<rparr>, Some 0x0A420004)"
  proof -
    have l: "length (free (set_address_claims demo_pool)) = Suc 4" "pool_rng (set_address_claims demo_pool) = 7"
      "free (set_address_claims demo_pool) = [0x0A420002, 0x0A420003, 0x0A420004, 0x0A420005, 0x0A420006]"
      by (simp_all add: demo_pool_def set_address_claims_def)
    show ?thesis unfolding pop_random_def l(1,2) pop_loop.simps demo_draw
      by (simp add: l(3) claimed_def swap_remove_def)
  qed
  then show ?thesis
    by (simp add: demo_first_fields_def pool_allocate_at_def serve_sticky_def serve_draw_def bind_sticky_def pool_hold_def
        hold_def demo_pool_def set_address_claims_def new_holdings_def rebind_def drop_stale_def holders_def
        address_of_def Let_def)
qed

lemma demo_first_eq: "demo_first = demo_first_fields"
  by (simp add: demo_first_def demo_first_served)

lemma demo_bonded_served:
  "pool_allocate_at (\<lambda>_. False) demo_first 2 [1] (Join 0x0A420004) 0 False = (demo_bonded, Some 0x0A420004)"
  by (simp add: demo_bonded_def demo_first_eq demo_first_fields_def pool_allocate_at_def join_target_def held_by_pubkey_def
      held_by_def holders_def address_of_def hm_get_def)

lemma demo_bonded_lookups: "address_of (used demo_bonded) 1 = Some 0x0A420004" "address_of (used demo_bonded) 2 = Some 0x0A420004"
    "owner_of (used demo_bonded) 1 = Some [1]" "owner_of (used demo_bonded) 2 = Some [1]" "claims demo_bonded"
    "length (sticky demo_bonded) = 1"
  by (simp_all add: demo_bonded_def demo_first_eq demo_first_fields_def pool_allocate_at_def join_target_def held_by_pubkey_def held_by_def
      holders_def pool_hold_def hold_def address_of_def owner_of_def demo_pool_def hm_get_def)

lemma demo_bonded_reached: "pool_step\<^sup>*\<^sup>* (set_address_claims demo_pool) demo_bonded"
  unfolding demo_bonded_def demo_first_def
  by (intro rtranclp.rtrancl_into_rtrancl [OF rtranclp.rtrancl_into_rtrancl [OF rtranclp.rtrancl_refl]])
    (auto simp: pool_step_def simp del: pool_exec.simps)

section \<open>Addresses and tenants\<close>

text \<open>
  C24: No address serves two clients. In every state of the pool, after any sequence of allocations,
  releases, key transfers and reclaims, two connections share an address only when one key
  authenticated both; every address in use is a host of the subnet other than the gateway and the
  network address, and every host of the pool is either free, once, or in use.
\<close>
theorem pool_addresses_have_one_tenant:
  assumes "pool_with_seed net plen gw seed = Inr p0" and "p1 = p0 \<or> p1 = set_address_claims p0"
    and "pool_step\<^sup>*\<^sup>* p1 p"
  shows "(\<forall>c d a. address_of (used p) c = Some a \<and> address_of (used p) d = Some a \<and> c \<noteq> d \<longrightarrow>
      (\<exists>pk. owner_of (used p) c = Some pk \<and> owner_of (used p) d = Some pk))
    \<and> (\<forall>c a. address_of (used p) c = Some a \<longrightarrow> a \<noteq> gw \<and> a \<noteq> pool_network p0
        \<and> a AND push_bit (32 - unat plen) (- 1) = net AND push_bit (32 - unat plen) (- 1))
    \<and> distinct (free p) \<and> (\<forall>a. a \<in> set (free p0) \<longleftrightarrow> (a \<in> set (free p)) \<noteq> (\<exists>c. address_of (used p) c = Some a))"
proof -
  have inv: "pool_inv (set (free p0)) p" by (rule pool_sys.run_inv [OF assms(3) pool_start(1) [OF assms(1,2)]])
  note i = pool_invD [OF inv]
  have "a \<in> set (free p0)" if "address_of (used p) c = Some a" for c a
    using that i(5) by (auto simp: held_def)
  then have "\<forall>c a. address_of (used p) c = Some a \<longrightarrow> a \<noteq> gw \<and> a \<noteq> pool_network p0
      \<and> a AND push_bit (32 - unat plen) (- 1) = net AND push_bit (32 - unat plen) (- 1)"
    using pool_start(4) [OF assms(1,2)] by blast
  moreover have "\<forall>a. a \<in> set (free p0) \<longleftrightarrow> (a \<in> set (free p)) \<noteq> (\<exists>c. address_of (used p) c = Some a)"
    using i(4,5) unfolding held_def by blast
  ultimately show ?thesis using one_tenantD [OF i(2)] i(3) by blast
qed

theorem pool_addresses_have_one_tenant_witness:
  "address_of (used demo_bonded) 1 = Some 0x0A420004 \<and> address_of (used demo_bonded) 2 = Some 0x0A420004
    \<and> (\<exists>pk. owner_of (used demo_bonded) 1 = Some pk \<and> owner_of (used demo_bonded) 2 = Some pk)"
  using pool_addresses_have_one_tenant [OF demo_pool_built disjI2 [OF refl] demo_bonded_reached] demo_bonded_lookups
  by simp

text \<open>
  C26: A session gets its own address. A connection that holds none yet is given an address nobody held,
  which only it holds then, unless it names the address of its own live session or sends no hint at all
  and its key's session is live on its sticky address; then every holder has its key. It is refused only
  when every free address is claimed by the deployer, and then no allocation changed.
\<close>
theorem session_placement:
  assumes "pool_with_seed net plen gw seed = Inr p0" and "p1 = p0 \<or> p1 = set_address_claims p0"
    and "pool_step\<^sup>*\<^sup>* p1 p" and "address_of (used p) c = None"
    and "pool_allocate_at ic p c pk intent now may = (q, r)"
  shows "case r of
      None \<Rightarrow> used q = used p \<and> sticky q = sticky p \<and> (\<forall>a \<in> set (free p). claims p \<and> ic a)
    | Some a \<Rightarrow> address_of (used q) = (address_of (used p))(c := Some a) \<and> owner_of (used q) c = Some pk
        \<and> (if a \<in> set (free p) then \<forall>d. address_of (used q) d = Some a \<longrightarrow> d = c
           else (\<forall>d. address_of (used q) d = Some a \<longrightarrow> owner_of (used q) d = Some pk)
             \<and> (intent = Join a \<or> intent = Legacy \<and> hm_get (sticky p) pk = Some a))"
proof -
  have inv: "pool_inv (set (free p0)) p" by (rule pool_sys.run_inv [OF assms(3) pool_start(1) [OF assms(1,2)]])
  note spec = allocate_at_spec [OF assms(4,5)]
  show ?thesis
  proof (cases r)
    case None
    then show ?thesis using spec by (auto simp: unserved_def claimed_def)
  next
    case (Some a)
    then have pl: "placed ic p c (Some pk) a q" using spec by simp
    then have u: "used q = hold (used p) c a (Some pk)" by (simp add: placed_def)
    have o: "owner_of (used p) c = None" by (rule holdings_okD(3) [OF pool_invD(1) [OF inv] assms(4)])
    have c: "address_of (used q) c = Some a" "owner_of (used q) c = Some pk"
      by (simp_all add: u address_of_hold owner_of_hold [OF o])
    have own: "owner_of (used q) d = Some pk" if "address_of (used q) d = Some a" for d
      using one_tenantD [OF placed_tenant(2) [OF inv pl] c(1) that] c(2) by (cases "d = c") auto
    have sole: "d = c" if "a \<in> set (free p)" "address_of (used q) d = Some a" for d
    proof -
      have "a \<notin> held (used p)" using pool_invD(4) [OF inv] that(1) by blast
      then show ?thesis using that(2) by (auto simp: u address_of_hold held_def split: if_splits)
    qed
    have "address_of (used q) = (address_of (used p))(c := Some a)" by (auto simp: u address_of_hold fun_eq_iff)
    moreover have "if a \<in> set (free p) then \<forall>d. address_of (used q) d = Some a \<longrightarrow> d = c
      else (\<forall>d. address_of (used q) d = Some a \<longrightarrow> owner_of (used q) d = Some pk)
        \<and> (intent = Join a \<or> intent = Legacy \<and> hm_get (sticky p) pk = Some a)"
      using spec sole own unfolding Some option.case by presburger
    ultimately show ?thesis unfolding Some option.case using c(2) by (intro conjI)
  qed
qed

theorem session_placement_witness:
  "\<exists>q r. pool_allocate_at (\<lambda>_. False) demo_bonded 3 [2] Fresh 0 False = (q, r)
    \<and> (\<exists>a. r = Some a \<and> (\<forall>d. address_of (used q) d = Some a \<longrightarrow> d = 3))"
proof -
  have n: "address_of (used demo_bonded) 3 = None" and f: "free demo_bonded \<noteq> []"
    by (simp_all add: demo_bonded_def demo_first_eq demo_first_fields_def pool_allocate_at_def join_target_def held_by_pubkey_def held_by_def
      holders_def pool_hold_def hold_def address_of_def owner_of_def demo_pool_def hm_get_def)
  obtain q r where q: "pool_allocate_at (\<lambda>_. False) demo_bonded 3 [2] Fresh 0 False = (q, r)" by fastforce
  note p = session_placement [OF demo_pool_built disjI2 [OF refl] demo_bonded_reached n q]
  obtain a where r: "r = Some a" using p f by (cases r) (auto simp: neq_Nil_conv)
  have "\<forall>d. address_of (used q) d = Some a \<longrightarrow> d = 3"
    using conjunct2 [OF conjunct2 [OF p [unfolded r option.case]]] by (simp split: if_splits)
  with q r show ?thesis by blast
qed

section \<open>Claimed addresses\<close>

text \<open>A step during which the deployer claims the address and the key is not handed over.\<close>

definition claimed_step :: "ipv4 \<Rightarrow> pubkey \<Rightarrow> ip_allocator \<Rightarrow> ip_allocator \<Rightarrow> bool" where
  "claimed_step a k p q \<longleftrightarrow> (\<exists>ic op. q = pool_exec ic p op \<and> ic a \<and> (\<forall>k'. op \<noteq> Op_transfer_owner k k'))"

definition kept_for :: "ipv4 set \<Rightarrow> ipv4 \<Rightarrow> pubkey \<Rightarrow> ip_allocator \<Rightarrow> bool" where
  "kept_for hosts a k p \<longleftrightarrow> pool_inv hosts p \<and> claims p \<and> last_held_by p a k"

lemma placed_kept:
  assumes "kept_for hosts a k p" and "placed ic p c ow b q" and "ic a"
  shows "kept_for hosts a k q"
proof -
  have inv: "pool_inv hosts p" and cl: "claims p" and k: "hm_get (last_holder p) a = Some (Some k)"
    using assms(1) by (simp_all add: kept_for_def last_held_by_def)
  have l: "last_holder q = hm_insert b ow (last_holder p)" "claims q" using assms(2) cl by (simp_all add: placed_def)
  have "ow = Some k" if b: "b = a"
  proof -
    consider (free) pk where "ow = Some pk" "last_held_by p a pk" | (shared) pk where "ow = Some pk" "held_by (used p) a pk"
      using assms(2,3) cl unfolding placed_def claimed_def b by blast
    then show ?thesis
    proof cases
      case shared
      then obtain d where d: "address_of (used p) d = Some a" "owner_of (used p) d = Some pk"
        using holdings_okD(1) [OF pool_invD(1) [OF inv]] unfolding held_by_def owner_of_def by blast
      then show ?thesis using pool_invD(8) [OF inv cl] k shared(1) by (auto simp: holders_known_def)
    qed (use k in \<open>simp add: last_held_by_def\<close>)
  qed
  then have "last_held_by q a k" using k by (simp add: last_held_by_def l table)
  with placed_inv [OF inv assms(2)] l(2) show ?thesis by (simp add: kept_for_def)
qed

interpretation claim_sys: invariant_steps "claimed_step a k" "kept_for hosts a k" for a k hosts
proof
  fix p q assume "claimed_step a k p q" and kept: "kept_for hosts a k p"
  then obtain ic op where q: "q = pool_exec ic p op" "ic a" "\<And>k'. op \<noteq> Op_transfer_owner k k'"
    by (auto simp: claimed_step_def)
  have inv: "pool_inv hosts q" using kept pool_exec_inv unfolding q(1) kept_for_def by blast
  show "kept_for hosts a k q"
  proof (cases rule: pool_exec_cases [of ic p op])
    case (1 c ow b)
    from placed_kept [OF kept this q(2)] show ?thesis unfolding q(1) .
  next
    case 2
    then show ?thesis using kept inv q(1) by (auto simp: kept_for_def unserved_def last_held_by_def)
  next
    case (3 c)
    then show ?thesis using kept inv q(1)
      by (auto simp: kept_for_def pool_release_def last_held_by_def split: prod.splits option.splits bool.splits)
  next
    case (4 k1 k2)
    then show ?thesis using kept inv q(1,3)
      by (auto simp: kept_for_def pool_transfer_owner_def last_held_by_def hm_get_map_values)
  next
    case (5 addrs now)
    then show ?thesis using kept inv q(1) by (auto simp: kept_for_def enable_restart_reclaim_def last_held_by_def)
  qed
qed

text \<open>
  C25: A claimed address stays with the key that left it. Once a connection of a key holds an address,
  then for as long as the deployer claims that address and the key is not handed over to another, every
  connection that ever holds the address belongs to that key: whatever leaves, reconnects, names the
  address, draws at random or reclaims after a restart in the meantime.
\<close>
theorem claimed_address_stays_with_its_key:
  assumes "pool_with_seed net plen gw seed = Inr p0" and "pool_step\<^sup>*\<^sup>* (set_address_claims p0) p" and "claims p"
    and "address_of (used p) c = Some a" and "owner_of (used p) c = Some k"
    and "(claimed_step a k)\<^sup>*\<^sup>* p q" and "address_of (used q) d = Some a"
  shows "owner_of (used q) d = Some k"
proof -
  have inv: "pool_inv (set (free p0)) p" by (rule pool_sys.run_inv [OF assms(2) pool_start(1) [OF assms(1) disjI2 [OF refl]]])
  have "kept_for (set (free p0)) a k p"
    using inv assms(3-5) pool_invD(8) [OF inv assms(3)] by (simp add: kept_for_def last_held_by_def holders_known_def)
  from claim_sys.run_inv [OF assms(6) this] have q: "pool_inv (set (free p0)) q" "claims q" "last_held_by q a k"
    by (simp_all add: kept_for_def)
  then show ?thesis using pool_invD(8) [OF q(1,2)] assms(7) by (simp add: holders_known_def last_held_by_def)
qed

theorem claimed_address_stays_with_its_key_witness:
  "\<exists>q. (claimed_step 0x0A420004 [1])\<^sup>*\<^sup>* demo_bonded q \<and> address_of (used q) 2 = Some 0x0A420004
    \<and> owner_of (used q) 2 = Some [1]"
proof -
  let ?q = "pool_exec (\<lambda>_. True) demo_bonded (Op_release 1)"
  have r: "(claimed_step 0x0A420004 [1])\<^sup>*\<^sup>* demo_bonded ?q"
    by (rule r_into_rtranclp) (auto simp: claimed_step_def simp del: pool_exec.simps intro!: exI [of _ "\<lambda>_. True"])
  have "address_of (used ?q) 2 = Some 0x0A420004"
    by (simp add: demo_bonded_def demo_first_eq demo_first_fields_def pool_allocate_at_def join_target_def held_by_pubkey_def held_by_def
      holders_def pool_hold_def hold_def address_of_def owner_of_def demo_pool_def hm_get_def pool_release_def
      release_hold_def hm_remove_def Let_def)
  moreover from claimed_address_stays_with_its_key [OF demo_pool_built demo_bonded_reached demo_bonded_lookups(5,1,3) r this]
  have "owner_of (used ?q) 2 = Some [1]" .
  ultimately show ?thesis using r by blast
qed

section \<open>The size of the sticky map\<close>

text \<open>
  However many keys ever connect, the pool remembers at most one of them per host: the sticky map
  never holds more bindings than the subnet has hosts, no two keys are bound to one address, and every
  bound address is a host.
\<close>
theorem sticky_bindings_bounded:
  assumes "pool_with_seed net plen gw seed = Inr p0" and "p1 = p0 \<or> p1 = set_address_claims p0"
    and "pool_step\<^sup>*\<^sup>* p1 p"
  shows "length (sticky p) \<le> length (free p0)
    \<and> (\<forall>k k' a. hm_get (sticky p) k = Some a \<and> hm_get (sticky p) k' = Some a \<longrightarrow> k = k' \<and> a \<in> set (free p0))"
proof -
  have inv: "pool_inv (set (free p0)) p" by (rule pool_sys.run_inv [OF assms(3) pool_start(1) [OF assms(1,2)]])
  note b = pool_invD(6) [OF inv]
  have "length (sticky p) \<le> card (set (free p0))" by (rule bindings_length [OF b]) simp
  then have "length (sticky p) \<le> length (free p0)" using card_length [of "free p0"] by linarith
  then show ?thesis using bindings_okD(2,3) [OF b] by blast
qed

theorem sticky_bindings_bounded_witness: "length (sticky demo_bonded) \<le> 5"
  using sticky_bindings_bounded [OF demo_pool_built disjI2 [OF refl] demo_bonded_reached] by (simp add: demo_pool_def)

end
