(* ===== verification/Ip_Assign.thy ===== *)
theory Ip_Assign
  imports Ip_Pool_Props Ip_Pool_V6
begin

text \<open>
  The addresses of a multi-hop connection: \<open>allocate_on_first_frame\<close> of \<open>multihop-server/src/multihop.rs\<close>
  places a connection in both pools, the end of a connection releases it in both, and a lease that moves
  to a new serial moves the ownership in both. The pools have a lock each; an operation on both is one
  step here.
\<close>

section \<open>Assigning addresses\<close>

record exit_pools =
  pool4 :: ip_allocator
  pool6 :: "ip_allocator6 option"

record ip_assign_spec =
  assigned :: ipv4
  spec_gateway :: ipv4
  spec_prefix_len :: u8
  assigned_v6 :: "ipv6 option"
  gateway_v6 :: "ipv6 option"
  prefix_len_v6 :: u8

definition project_intent :: "session_intent \<Rightarrow> conn_id list \<Rightarrow> session_intent6" where
  "project_intent intent siblings =
     (if intent = Legacy then Legacy6 else if siblings \<noteq> [] then Join6 siblings else Fresh6)"

definition allocate_on_first_frame ::
  "(ipv4 \<Rightarrow> bool) \<Rightarrow> exit_pools \<Rightarrow> conn_id \<Rightarrow> pubkey option \<Rightarrow> bool \<Rightarrow> ipv4 option \<Rightarrow> instant \<Rightarrow>
    exit_pools \<times> ip_assign_spec option" where
  "allocate_on_first_frame is_claimed ps conn sticky_pubkey wants_ipv6 prefer now =
     (let intent = from_prefer_ipv4 prefer;
          dual_stack = (wants_ipv6 \<and> pool6 ps \<noteq> None)
      in case (case sticky_pubkey of
                 Some pk \<Rightarrow>
                   if dual_stack then allocate_for_pubkey_with_intent is_claimed (pool4 ps) conn pk intent now
                   else allocate_for_pubkey_reclaiming is_claimed (pool4 ps) conn pk intent now
               | None \<Rightarrow> pool_allocate is_claimed (pool4 ps) conn) of
           (p4, None) \<Rightarrow> (ps\<lparr>pool4 := p4\<rparr>, None)
         | (p4, Some a) \<Rightarrow>
             let siblings = filter (\<lambda>c. c \<noteq> conn) (conns_holding p4 a);
                 spec = \<lparr>assigned = a, spec_gateway = pool_gateway p4, spec_prefix_len = pool_prefix_len p4,
                         assigned_v6 = None, gateway_v6 = None, prefix_len_v6 = 0\<rparr>
             in case (if wants_ipv6 then pool6 ps else None) of
                  None \<Rightarrow> (ps\<lparr>pool4 := p4\<rparr>, Some spec)
                | Some p6 \<Rightarrow>
                    case (case sticky_pubkey of
                            Some pk \<Rightarrow> allocate6_with_intent p6 conn pk (project_intent intent siblings)
                          | None \<Rightarrow> allocate6 p6 conn) of
                      (p6', v6) \<Rightarrow>
                        (\<lparr>pool4 = p4, pool6 = Some p6'\<rparr>,
                         Some (case v6 of
                                 Some addr \<Rightarrow> spec\<lparr>assigned_v6 := Some addr, gateway_v6 := Some (gateway6 p6'), prefix_len_v6 := 64\<rparr>
                               | None \<Rightarrow> spec)))"

definition release_conn :: "exit_pools \<Rightarrow> conn_id \<Rightarrow> exit_pools" where
  "release_conn ps conn =
     \<lparr>pool4 = pool_release (pool4 ps) conn, pool6 = map_option (\<lambda>p6. release6 p6 conn) (pool6 ps)\<rparr>"

definition move_lease_owner :: "exit_pools \<Rightarrow> pubkey \<Rightarrow> pubkey \<Rightarrow> exit_pools" where
  "move_lease_owner ps from to =
     \<lparr>pool4 = pool_transfer_owner (pool4 ps) from to, pool6 = map_option (\<lambda>p6. transfer6 p6 from to) (pool6 ps)\<rparr>"

section \<open>Runs of the exit\<close>

datatype assign_op =
    First_frame conn_id "pubkey option" bool "ipv4 option" instant
  | End_conn conn_id
  | Move_owner pubkey pubkey

fun assign_exec :: "(ipv4 \<Rightarrow> bool) \<Rightarrow> exit_pools \<Rightarrow> assign_op \<Rightarrow> exit_pools" where
  "assign_exec ic ps (First_frame c pk w hint now) = fst (allocate_on_first_frame ic ps c pk w hint now)"
| "assign_exec ic ps (End_conn c) = release_conn ps c"
| "assign_exec ic ps (Move_owner k k') = move_lease_owner ps k k'"

text \<open>Every keyed request says which session it belongs to.\<close>

fun hinted :: "assign_op \<Rightarrow> bool" where
  "hinted (First_frame c pk w hint now) \<longleftrightarrow> pk = None \<or> hint \<noteq> None"
| "hinted _ \<longleftrightarrow> True"

definition assign_step :: "(assign_op \<Rightarrow> bool) \<Rightarrow> exit_pools \<Rightarrow> exit_pools \<Rightarrow> bool" where
  "assign_step P ps qs \<longleftrightarrow> (\<exists>ic op. P op \<and> qs = assign_exec ic ps op)"

definition v4_of :: "exit_pools \<Rightarrow> conn_id \<Rightarrow> ipv4 option" where
  "v4_of ps c = address_of (used (pool4 ps)) c"

definition v6_of :: "exit_pools \<Rightarrow> conn_id \<Rightarrow> ipv6 option" where
  "v6_of ps c = (case pool6 ps of None \<Rightarrow> None | Some p6 \<Rightarrow> map_option (addr_of p6) (address_of (used6 p6) c))"

section \<open>The parts of a first frame\<close>

text \<open>The IPv4 part keeps what a connection holds and gives the new one the assigned address.\<close>

lemma first_frame_v4:
  assumes "pool_inv hosts p" and "(case pko of
       Some pk \<Rightarrow> if dual then allocate_for_pubkey_with_intent ic p c pk intent now
                  else allocate_for_pubkey_reclaiming ic p c pk intent now
     | None \<Rightarrow> pool_allocate ic p c) = (q, r)"
  shows "pool_inv hosts q"
    and "address_of (used q) = (case r of None \<Rightarrow> address_of (used p) | Some a \<Rightarrow> (address_of (used p))(c := Some a))"
    and "address_of (used p) c = None \<or> r = address_of (used p) c"
proof -
  obtain may where alloc: "(case pko of Some pk \<Rightarrow> pool_allocate_at ic p c pk intent now may | None \<Rightarrow> pool_allocate ic p c) = (q, r)"
    using assms(2) by (cases pko; cases dual)
      (auto simp: allocate_for_pubkey_with_intent_def allocate_for_pubkey_reclaiming_def)
  consider (known) a where "address_of (used p) c = Some a" "q = p" "r = Some a"
    | (none) "address_of (used p) c = None" "r = None" "unserved p q"
    | (new) a where "address_of (used p) c = None" "r = Some a" "\<exists>ow. placed ic p c ow a q"
  proof (cases "address_of (used p) c")
    case (Some a)
    then show ?thesis using known alloc by (cases pko) (simp_all add: pool_allocate_at_def pool_allocate_def)
  next
    case None
    show ?thesis
    proof (cases pko)
      case n: None
      then show ?thesis using pool_allocate_spec [OF None, of ic q r] alloc none new None by (cases r) auto
    next
      case (Some pk)
      then show ?thesis using allocate_at_spec [OF None, of ic pk intent now may q r] alloc none new None by (cases r) auto
    qed
  qed
  then have "pool_inv hosts q
    \<and> address_of (used q) = (case r of None \<Rightarrow> address_of (used p) | Some a \<Rightarrow> (address_of (used p))(c := Some a))
    \<and> (address_of (used p) c = None \<or> r = address_of (used p) c)"
  proof cases
    case known
    then show ?thesis using assms(1) by (auto simp: fun_eq_iff)
  next
    case none
    then show ?thesis using unserved_inv [OF assms(1)] by (simp add: unserved_def)
  next
    case new
    then obtain ow where pl: "placed ic p c ow a q" by blast
    then have "used q = hold (used p) c a ow" by (simp add: placed_def)
    then have "address_of (used q) = (address_of (used p))(c := Some a)" by (auto simp: address_of_hold fun_eq_iff)
    with placed_inv [OF assms(1) pl] new show ?thesis by simp
  qed
  then show "pool_inv hosts q"
    and "address_of (used q) = (case r of None \<Rightarrow> address_of (used p) | Some a \<Rightarrow> (address_of (used p))(c := Some a))"
    and "address_of (used p) c = None \<or> r = address_of (used p) c" by blast+
qed

text \<open>The IPv6 part gives the connection an identifier that is new, or that of a named sibling.\<close>

lemma first_frame_v6:
  assumes "pool6_inv p" and "(case pko of Some pk \<Rightarrow> allocate6_with_intent p c pk intent | None \<Rightarrow> allocate6 p c) = (q, r)"
  shows "pool6_inv q \<and> network6 q = network6 p"
    and "address_of (used6 p) c \<noteq> None \<Longrightarrow> used6 q = used6 p"
    and "address_of (used6 p) c = None \<Longrightarrow> used6 q = used6 p
      \<or> (\<exists>x ow. used6 q = hold (used6 p) c x ow \<and> (x \<notin> held (used6 p) \<or> intent = Legacy6 \<and> pko \<noteq> None
          \<or> (\<exists>cs d. intent = Join6 cs \<and> d \<in> set cs \<and> address_of (used6 p) d = Some x)))"
proof -
  note ok = pool6_invD(1) [OF assms(1)]
  have known: "q = p" if "address_of (used6 p) c \<noteq> None"
    using that assms(2) by (auto simp: allocate6_with_intent_def allocate6_def split: option.splits)
  have new: "(unserved6 p q) \<or> (\<exists>x ow. placed6 p c ow x q \<and> (unheld6 p x q \<or> intent = Legacy6 \<and> pko \<noteq> None
          \<or> (\<exists>cs d. intent = Join6 cs \<and> d \<in> set cs \<and> address_of (used6 p) d = Some x)))"
    if n: "address_of (used6 p) c = None"
  proof (cases pko)
    case None
    then show ?thesis using allocate6_spec [OF n, of q r] assms(2) by (cases r) auto
  next
    case (Some pk)
    then show ?thesis using allocate6_intent_spec [OF ok n, of pk intent q r] assms(2) by (cases r) auto
  qed
  show "pool6_inv q \<and> network6 q = network6 p"
  proof (cases "address_of (used6 p) c")
    case None
    from new [OF this] consider "unserved6 p q" | x ow where "placed6 p c ow x q" by blast
    then show ?thesis
    proof cases
      case 1
      then show ?thesis using unserved6_inv [OF assms(1) 1] by (auto simp: unserved6_def)
    next
      case 2
      then show ?thesis using placed6_inv [OF assms(1) 2] by (simp add: placed6_def)
    qed
  qed (use known assms(1) in simp)
  show "address_of (used6 p) c \<noteq> None \<Longrightarrow> used6 q = used6 p" using known by simp
  assume n: "address_of (used6 p) c = None"
  from new [OF n] show "used6 q = used6 p
      \<or> (\<exists>x ow. used6 q = hold (used6 p) c x ow \<and> (x \<notin> held (used6 p) \<or> intent = Legacy6 \<and> pko \<noteq> None
          \<or> (\<exists>cs d. intent = Join6 cs \<and> d \<in> set cs \<and> address_of (used6 p) d = Some x)))"
  proof (elim disjE exE conjE)
    assume "unserved6 p q"
    then show ?thesis by (auto simp: unserved6_def)
  next
    fix x ow assume pl: "placed6 p c ow x q" and "unheld6 p x q"
    then show ?thesis using unheld6_free [OF assms(1)] by (auto simp: placed6_def)
  qed (auto simp: placed6_def)
qed

lemma first_frame_cases:
  obtains p4 r4 where "(case pko of
       Some pk \<Rightarrow> if w \<and> pool6 ps \<noteq> None then allocate_for_pubkey_with_intent ic (pool4 ps) c pk (from_prefer_ipv4 hint) now
                  else allocate_for_pubkey_reclaiming ic (pool4 ps) c pk (from_prefer_ipv4 hint) now
     | None \<Rightarrow> pool_allocate ic (pool4 ps) c) = (p4, r4)"
    "fst (allocate_on_first_frame ic ps c pko w hint now) = ps\<lparr>pool4 := p4\<rparr>"
  | p4 a p6 p6' v6 where "(case pko of
       Some pk \<Rightarrow> if w \<and> pool6 ps \<noteq> None then allocate_for_pubkey_with_intent ic (pool4 ps) c pk (from_prefer_ipv4 hint) now
                  else allocate_for_pubkey_reclaiming ic (pool4 ps) c pk (from_prefer_ipv4 hint) now
     | None \<Rightarrow> pool_allocate ic (pool4 ps) c) = (p4, Some a)" "pool6 ps = Some p6"
    "(case pko of Some pk \<Rightarrow> allocate6_with_intent p6 c pk
         (project_intent (from_prefer_ipv4 hint) (filter (\<lambda>d. d \<noteq> c) (conns_holding p4 a)))
      | None \<Rightarrow> allocate6 p6 c) = (p6', v6)"
    "fst (allocate_on_first_frame ic ps c pko w hint now) = \<lparr>pool4 = p4, pool6 = Some p6'\<rparr>"
proof -
  obtain p4 r4 where v4: "(case pko of
       Some pk \<Rightarrow> if w \<and> pool6 ps \<noteq> None then allocate_for_pubkey_with_intent ic (pool4 ps) c pk (from_prefer_ipv4 hint) now
                  else allocate_for_pubkey_reclaiming ic (pool4 ps) c pk (from_prefer_ipv4 hint) now
     | None \<Rightarrow> pool_allocate ic (pool4 ps) c) = (p4, r4)" by fastforce
  show thesis
  proof (cases "r4 = None \<or> (if w then pool6 ps else None) = None")
    case True
    then have "fst (allocate_on_first_frame ic ps c pko w hint now) = ps\<lparr>pool4 := p4\<rparr>"
      unfolding allocate_on_first_frame_def Let_def v4 by (auto split: option.splits)
    then show thesis by (rule that(1) [OF v4])
  next
    case False
    then obtain a p6 where a: "r4 = Some a" "w" "pool6 ps = Some p6" by (auto split: if_splits)
    obtain p6' v6 where v6: "(case pko of Some pk \<Rightarrow> allocate6_with_intent p6 c pk
         (project_intent (from_prefer_ipv4 hint) (filter (\<lambda>d. d \<noteq> c) (conns_holding p4 a)))
      | None \<Rightarrow> allocate6 p6 c) = (p6', v6)" by fastforce
    have "fst (allocate_on_first_frame ic ps c pko w hint now) = \<lparr>pool4 = p4, pool6 = Some p6'\<rparr>"
      unfolding allocate_on_first_frame_def Let_def v4 using a v6 by simp
    then show thesis using that(2) [OF _ a(3) v6] v4 a(1) by blast
  qed
qed

section \<open>Tenancy in both pools\<close>

definition exit_inv :: "ipv4 set \<Rightarrow> ipv6 \<Rightarrow> exit_pools \<Rightarrow> bool" where
  "exit_inv hosts net ps \<longleftrightarrow> pool_inv hosts (pool4 ps)
     \<and> (\<forall>p6. pool6 ps = Some p6 \<longrightarrow> pool6_inv p6 \<and> network6 p6 = net)"

lemma release6_network [simp]: "network6 (release6 p c) = network6 p" "network6 (transfer6 p k k') = network6 p"
  by (auto simp: release6_def transfer6_def split: prod.splits option.splits bool.splits)

lemma assign_exec_inv:
  assumes "exit_inv hosts net ps"
  shows "exit_inv hosts net (assign_exec ic ps op)"
proof (cases op)
  case (First_frame c pko w hint now)
  have p4: "pool_inv hosts (pool4 ps)" using assms by (simp add: exit_inv_def)
  show ?thesis
  proof (cases rule: first_frame_cases [where pko = pko and w = w and ps = ps and ic = ic and c = c and hint = hint and now = now])
    case (1 q r)
    then show ?thesis using assms first_frame_v4(1) [OF p4 1(1)] First_frame by (simp add: exit_inv_def)
  next
    case (2 q a p6 q6 r)
    have "pool6_inv p6" "network6 p6 = net" using assms 2(2) by (simp_all add: exit_inv_def)
    then show ?thesis using first_frame_v4(1) [OF p4 2(1)] first_frame_v6(1) [OF _ 2(3)] 2(4) First_frame
      by (simp add: exit_inv_def)
  qed
next
  case (End_conn c)
  then show ?thesis using assms pool_release_inv release6_inv by (auto simp: exit_inv_def release_conn_def)
next
  case (Move_owner k k')
  then show ?thesis using assms transfer_inv transfer6_inv by (auto simp: exit_inv_def move_lease_owner_def)
qed

interpretation exit_sys: invariant_steps "assign_step P" "exit_inv hosts net" for P hosts net
  by unfold_locales (auto simp: assign_step_def intro: assign_exec_inv)

lemma exit_start:
  assumes "pool_with_seed net plen gw seed = Inr p0" and "p1 = p0 \<or> p1 = set_address_claims p0"
    and "ps = \<lparr>pool4 = p1, pool6 = p6\<rparr>" and "p6 = None \<or> p6 = Some (pool6_with_seed net6 seed6)"
  shows "exit_inv (set (free p0)) (net6 AND push_bit 64 (- 1)) ps"
  using pool_start(1) [OF assms(1,2)] pool6_start assms(3,4) by (auto simp: exit_inv_def pool6_with_seed_def Let_def)

lemma addr_of_parts:
  assumes "network6 p = net AND push_bit 64 (- 1)"
  shows "(ucast (addr_of p x) :: u64) = x" and "addr_of p x AND push_bit 64 (- 1) = network6 p"
proof -
  show "(ucast (addr_of p x) :: u64) = x"
    by (rule bit_word_eqI) (simp add: addr_of_def assms bit_simps)
  show "addr_of p x AND push_bit 64 (- 1) = network6 p"
    by (rule bit_word_eqI) (auto simp: addr_of_def assms bit_simps dest: bit_imp_le_length)
qed

lemma exit_v4_tenant:
  assumes "exit_inv hosts net ps" and "v4_of ps c = Some a"
  shows "a \<in> hosts" and "v4_of ps d = Some a \<Longrightarrow> c \<noteq> d \<Longrightarrow>
    \<exists>pk. owner_of (used (pool4 ps)) c = Some pk \<and> owner_of (used (pool4 ps)) d = Some pk"
proof -
  have p4: "pool_inv hosts (pool4 ps)" using assms(1) by (simp add: exit_inv_def)
  show "a \<in> hosts" using pool_invD(5) [OF p4] assms(2) by (auto simp: held_def v4_of_def)
  show "v4_of ps d = Some a \<Longrightarrow> c \<noteq> d \<Longrightarrow> \<exists>pk. owner_of (used (pool4 ps)) c = Some pk \<and> owner_of (used (pool4 ps)) d = Some pk"
    using one_tenantD [OF pool_invD(2) [OF p4]] assms(2) unfolding v4_of_def by blast
qed

lemma exit_v6_tenant:
  assumes "exit_inv hosts (net6 AND push_bit 64 (- 1)) ps" and "pool6 ps = Some p6" and v: "v6_of ps c = Some a"
  shows "let prefix = net6 AND push_bit 64 (- 1) in a AND push_bit 64 (- 1) = prefix \<and> a \<noteq> prefix \<and> a \<noteq> prefix OR 1"
    and "v6_of ps d = Some a \<Longrightarrow> c \<noteq> d \<Longrightarrow> \<exists>pk. owner_of (used6 p6) c = Some pk \<and> owner_of (used6 p6) d = Some pk"
proof -
  have p6: "pool6_inv p6" and net: "network6 p6 = net6 AND push_bit 64 (- 1)" using assms(1,2) by (simp_all add: exit_inv_def)
  note parts = addr_of_parts [OF net]
  have offset: "\<exists>x. address_of (used6 p6) c = Some x \<and> a = addr_of p6 x" if "v6_of ps c = Some a" for c a
    using that assms(2) by (auto simp: v6_of_def)
  obtain x where x: "address_of (used6 p6) c = Some x" "a = addr_of p6 x" using offset [OF v] by blast
  then have "2 \<le> x" using pool6_invD(5) [OF p6, of x] by (auto simp: held_def)
  moreover have "network6 p6 = addr_of p6 0" "network6 p6 OR 1 = addr_of p6 1" by (simp_all add: addr_of_def)
  moreover have "x \<noteq> 0" "x \<noteq> 1" using \<open>2 \<le> x\<close> by (auto simp: word_le_nat_alt)
  ultimately have "a \<noteq> network6 p6" "a \<noteq> network6 p6 OR 1" using parts(1) x(2) by metis+
  then show "let prefix = net6 AND push_bit 64 (- 1) in a AND push_bit 64 (- 1) = prefix \<and> a \<noteq> prefix \<and> a \<noteq> prefix OR 1"
    using parts(2) [of x] x(2) net by (simp add: Let_def)
  assume d: "v6_of ps d = Some a" "c \<noteq> d"
  obtain y where y: "address_of (used6 p6) d = Some y" "a = addr_of p6 y" using offset [OF d(1)] by blast
  then have "x = y" using parts(1) x(2) by metis
  then show "\<exists>pk. owner_of (used6 p6) c = Some pk \<and> owner_of (used6 p6) d = Some pk"
    using one_tenantD [OF pool6_invD(2) [OF p6] x(1) _ d(2)] y(1) by simp
qed

text \<open>
  C27: No IPv6 address serves two clients, and both families keep their tenants. In every state the exit
  can reach by serving first frames of any kind, ending connections and moving lease owners, two
  connections with the same IPv6 address, like two with the same IPv4 address, are authenticated by one
  key; and every assigned IPv6 address lies in the prefix and is neither the network nor the gateway
  address.
\<close>
theorem dual_stack_addresses_have_one_tenant:
  assumes "pool_with_seed net plen gw seed = Inr p0" and "p1 = p0 \<or> p1 = set_address_claims p0"
    and "start = \<lparr>pool4 = p1, pool6 = Some (pool6_with_seed net6 seed6)\<rparr>"
    and "(assign_step (\<lambda>_. True))\<^sup>*\<^sup>* start ps" and "pool6 ps = Some p6"
  shows "(\<forall>c d a. v6_of ps c = Some a \<and> v6_of ps d = Some a \<and> c \<noteq> d \<longrightarrow>
      (\<exists>pk. owner_of (used6 p6) c = Some pk \<and> owner_of (used6 p6) d = Some pk))
    \<and> (\<forall>c d a. v4_of ps c = Some a \<and> v4_of ps d = Some a \<and> c \<noteq> d \<longrightarrow>
      (\<exists>pk. owner_of (used (pool4 ps)) c = Some pk \<and> owner_of (used (pool4 ps)) d = Some pk))
    \<and> (\<forall>c a. v6_of ps c = Some a \<longrightarrow> (let prefix = net6 AND push_bit 64 (- 1)
        in a AND push_bit 64 (- 1) = prefix \<and> a \<noteq> prefix \<and> a \<noteq> prefix OR 1))"
proof -
  have inv: "exit_inv (set (free p0)) (net6 AND push_bit 64 (- 1)) ps"
    by (rule exit_sys.run_inv [OF assms(4) exit_start [OF assms(1,2,3) disjI2 [OF refl]]])
  show ?thesis using exit_v6_tenant [OF inv assms(5)] exit_v4_tenant(2) [OF inv] by blast
qed

section \<open>Both families in one session\<close>

text \<open>Connections that share an IPv6 identifier share their IPv4 address.\<close>

definition aligned :: "ipv4 set \<Rightarrow> ipv6 \<Rightarrow> exit_pools \<Rightarrow> bool" where
  "aligned hosts net ps \<longleftrightarrow> exit_inv hosts net ps
     \<and> (\<forall>p6 c d x. pool6 ps = Some p6 \<longrightarrow> address_of (used6 p6) c = Some x \<longrightarrow> address_of (used6 p6) d = Some x \<longrightarrow>
          (\<exists>a. v4_of ps c = Some a \<and> v4_of ps d = Some a))"

lemma alignedD:
  assumes "aligned hosts net ps" and "pool6 ps = Some p6" and "address_of (used6 p6) c = Some x"
    and "address_of (used6 p6) d = Some x"
  shows "\<exists>a. v4_of ps c = Some a \<and> v4_of ps d = Some a"
  using assms unfolding aligned_def by blast

lemma alignedI:
  assumes "exit_inv hosts net ps"
    and "\<And>p6 c d x. pool6 ps = Some p6 \<Longrightarrow> address_of (used6 p6) c = Some x \<Longrightarrow> address_of (used6 p6) d = Some x \<Longrightarrow>
      \<exists>a. v4_of ps c = Some a \<and> v4_of ps d = Some a"
  shows "aligned hosts net ps"
  using assms unfolding aligned_def by blast

lemma release_lookup:
  assumes "pool_inv hosts p"
  shows "address_of (used (pool_release p c)) = (\<lambda>d. if d = c then None else address_of (used p) d)"
proof -
  obtain h r where r: "release_hold (used p) c = (h, r)" by fastforce
  have "used (pool_release p c) = h" using r by (auto simp: pool_release_def split: option.splits bool.splits)
  then show ?thesis using release_ok [OF pool_invD(1,2) [OF assms] r] by simp
qed

lemma release6_lookup:
  assumes "pool6_inv p"
  shows "address_of (used6 (release6 p c)) = (\<lambda>d. if d = c then None else address_of (used6 p) d)"
proof -
  obtain h r where r: "release_hold (used6 p) c = (h, r)" by fastforce
  have "used6 (release6 p c) = h" using r by (auto simp: release6_def split: option.splits bool.splits)
  then show ?thesis using release_ok [OF pool6_invD(1,2) [OF assms] r] by simp
qed

lemma project_intent_simps:
  "project_intent (from_prefer_ipv4 hint) sib = Legacy6 \<longleftrightarrow> hint = None"
  "project_intent intent sib = Join6 cs \<Longrightarrow> cs = sib"
  by (auto simp: project_intent_def from_prefer_ipv4_def split: if_splits option.splits)

text \<open>A connection that joins through its siblings gets the identifier of a connection with its address.\<close>

lemma aligned_first_frame:
  assumes "aligned hosts net ps" and "pko = None \<or> hint \<noteq> None"
  shows "aligned hosts net (fst (allocate_on_first_frame ic ps c pko w hint now))" (is "aligned _ _ ?qs")
proof (rule alignedI)
  have ps: "exit_inv hosts net ps" using assms(1) by (simp add: aligned_def)
  show "exit_inv hosts net ?qs" using assign_exec_inv [OF ps, of ic "First_frame c pko w hint now"] by simp
  fix q6 d e x assume q6: "pool6 ?qs = Some q6" "address_of (used6 q6) d = Some x" "address_of (used6 q6) e = Some x"
  have p4: "pool_inv hosts (pool4 ps)" using ps by (simp add: exit_inv_def)
  show "\<exists>a. v4_of ?qs d = Some a \<and> v4_of ?qs e = Some a"
  proof (cases rule: first_frame_cases [where pko = pko and w = w and ps = ps and ic = ic and c = c and hint = hint and now = now])
    case (1 q r)
    then obtain a where a: "v4_of ps d = Some a" "v4_of ps e = Some a"
      using alignedD [OF assms(1) _ q6(2,3)] q6(1) by auto
    then show ?thesis using first_frame_v4(2,3) [OF p4 1(1)] 1(2)
      by (auto simp: v4_of_def split: option.splits)
  next
    case (2 q a p6 p6' v6)
    let ?sib = "filter (\<lambda>d. d \<noteq> c) (conns_holding q a)"
    have q6': "q6 = p6'" "v4_of ?qs = address_of (used q)" using 2(4) q6(1) by (simp_all add: v4_of_def fun_eq_iff)
    have v4: "address_of (used q) = (address_of (used (pool4 ps)))(c := Some a)"
      "address_of (used (pool4 ps)) c = None \<or> address_of (used (pool4 ps)) c = Some a"
      using first_frame_v4(2,3) [OF p4 2(1)] by auto
    have old: "\<exists>b. address_of (used q) d' = Some b \<and> address_of (used q) e' = Some b"
      if x: "address_of (used6 p6) d' = Some x'" "address_of (used6 p6) e' = Some x'" for d' e' x'
    proof -
      obtain b where "v4_of ps d' = Some b" "v4_of ps e' = Some b" using alignedD [OF assms(1) 2(2) x] by blast
      then show ?thesis using v4 by (auto simp: v4_of_def)
    qed
    have inv6: "pool6_inv p6" using ps 2(2) by (simp add: exit_inv_def)
    show ?thesis
    proof (cases "used6 p6' = used6 p6")
      case True
      then show ?thesis using old q6(2,3) q6' by simp
    next
      case False
      then have n: "address_of (used6 p6) c = None" using first_frame_v6(2) [OF inv6 2(3)] by blast
      from first_frame_v6(3) [OF inv6 2(3) this] False obtain y ow where y: "used6 p6' = hold (used6 p6) c y ow"
        and y2: "y \<notin> held (used6 p6) \<or> project_intent (from_prefer_ipv4 hint) ?sib = Legacy6 \<and> pko \<noteq> None
          \<or> (\<exists>cs s. project_intent (from_prefer_ipv4 hint) ?sib = Join6 cs \<and> s \<in> set cs \<and> address_of (used6 p6) s = Some y)"
        by blast
      from y2 assms(2) have y2: "y \<notin> held (used6 p6) \<or> (\<exists>s \<in> set ?sib. address_of (used6 p6) s = Some y)"
        using project_intent_simps(2) [of "from_prefer_ipv4 hint" ?sib] unfolding project_intent_simps(1) by blast
      have c: "address_of (used q) c = Some a" using v4(1) by simp
      have new: "address_of (used q) s = Some a" if "address_of (used6 p6) s = Some y" for s
      proof -
        have "y \<in> held (used6 p6)" using that by (auto simp: held_def)
        then obtain s' where s': "s' \<in> set (conns_holding q a)" "address_of (used6 p6) s' = Some y" using y2 by auto
        have "pool_inv hosts q" by (rule first_frame_v4(1) [OF p4 2(1)])
        then have "address_of (used q) s' = Some a"
          using s'(1) holdings_okD(1) [OF pool_invD(1)] unfolding conns_holding_def by blast
        then show ?thesis using old [OF that s'(2)] by auto
      qed
      show ?thesis
      proof (cases "x = y")
        case True
        have "address_of (used q) s = Some a" if "address_of (used6 p6') s = Some y" for s
          using that new c by (cases "s = c") (simp_all add: y address_of_hold)
        then show ?thesis using q6(2,3) unfolding q6' True by blast
      next
        case ne: False
        have "address_of (used6 p6) s = Some x" if "address_of (used6 p6') s = Some x" for s
          using that ne by (auto simp: y address_of_hold split: if_splits)
        then show ?thesis using old q6(2,3) unfolding q6' by blast
      qed
    qed
  qed
qed

interpretation align_sys: invariant_steps "assign_step hinted" "aligned hosts net" for hosts net
proof
  fix ps qs assume "assign_step hinted ps qs" and al: "aligned hosts net ps"
  then obtain ic op where op: "hinted op" "qs = assign_exec ic ps op" by (auto simp: assign_step_def)
  have ps: "exit_inv hosts net ps" using al by (simp add: aligned_def)
  have p4: "pool_inv hosts (pool4 ps)" using ps by (simp add: exit_inv_def)
  have qs: "exit_inv hosts net qs" unfolding op(2) by (rule assign_exec_inv [OF ps])
  show "aligned hosts net qs"
  proof (cases op)
    case (First_frame c pko w hint now)
    then show ?thesis using aligned_first_frame [OF al] op by simp
  next
    case (End_conn c)
    show ?thesis
    proof (rule alignedI [OF qs])
      fix q6 d e x assume q: "pool6 qs = Some q6" "address_of (used6 q6) d = Some x" "address_of (used6 q6) e = Some x"
      then obtain p6 where p6: "pool6 ps = Some p6" "q6 = release6 p6 c" using op(2) End_conn by (auto simp: release_conn_def)
      then have "pool6_inv p6" using ps by (simp add: exit_inv_def)
      note l = release6_lookup [OF this] release_lookup [OF p4]
      have "d \<noteq> c" "e \<noteq> c" "address_of (used6 p6) d = Some x" "address_of (used6 p6) e = Some x"
        using q(2,3) unfolding p6(2) l(1) by (auto split: if_splits)
      then show "\<exists>a. v4_of qs d = Some a \<and> v4_of qs e = Some a"
        using alignedD [OF al p6(1)] op(2) End_conn by (auto simp: v4_of_def release_conn_def l(2))
    qed
  next
    case (Move_owner k k')
    show ?thesis
    proof (rule alignedI [OF qs])
      fix q6 d e x assume q: "pool6 qs = Some q6" "address_of (used6 q6) d = Some x" "address_of (used6 q6) e = Some x"
      then obtain p6 where p6: "pool6 ps = Some p6" "q6 = transfer6 p6 k k'" using op(2) Move_owner by (auto simp: move_lease_owner_def)
      have "address_of (used6 q6) = address_of (used6 p6)" by (simp add: p6(2) transfer6_def transfer_lookups)
      moreover have "v4_of qs = v4_of ps"
        using op(2) Move_owner by (simp add: v4_of_def move_lease_owner_def pool_transfer_owner_def transfer_lookups fun_eq_iff)
      ultimately show "\<exists>a. v4_of qs d = Some a \<and> v4_of qs e = Some a" using alignedD [OF al p6(1)] q(2,3) by simp
    qed
  qed
qed

text \<open>
  C28: Both address families of a connection belong to one session. While every keyed request says which
  session it belongs to, two connections that share their IPv6 address share their IPv4 address, in
  every state the exit can reach.
\<close>
theorem dual_stack_sessions_agree:
  assumes "pool_with_seed net plen gw seed = Inr p0" and "p1 = p0 \<or> p1 = set_address_claims p0"
    and "start = \<lparr>pool4 = p1, pool6 = Some (pool6_with_seed net6 seed6)\<rparr>"
    and "(assign_step hinted)\<^sup>*\<^sup>* start ps" and "v6_of ps c = Some a" and "v6_of ps d = Some a"
  shows "\<exists>b. v4_of ps c = Some b \<and> v4_of ps d = Some b"
proof -
  have "aligned (set (free p0)) (net6 AND push_bit 64 (- 1)) start"
    using exit_start [OF assms(1,2,3) disjI2 [OF refl]] assms(3)
    by (simp add: aligned_def pool6_with_seed_def Let_def)
  from align_sys.run_inv [OF assms(4) this] have al: "aligned (set (free p0)) (net6 AND push_bit 64 (- 1)) ps" .
  obtain p6 x y where p6: "pool6 ps = Some p6" "address_of (used6 p6) c = Some x" "address_of (used6 p6) d = Some y"
    "addr_of p6 x = addr_of p6 y" using assms(5,6) by (auto simp: v6_of_def split: option.splits)
  have "network6 p6 = net6 AND push_bit 64 (- 1)" using al p6(1) by (simp add: aligned_def exit_inv_def)
  from addr_of_parts(1) [OF this] have "x = y" using p6(4) by metis
  then show ?thesis using alignedD [OF al p6(1,2)] p6(3) by simp
qed

section \<open>A bonded dual-stack session\<close>

definition demo_exit :: exit_pools where
  "demo_exit = \<lparr>pool4 = set_address_claims demo_pool, pool6 = Some (pool6_with_seed 0xFDCC000F000100000000000000000000 7)\<rparr>"

definition demo_one :: exit_pools where
  "demo_one = assign_exec (\<lambda>_. False) demo_exit (First_frame 1 (Some [1]) True (Some 0) 0)"

definition demo_two :: exit_pools where
  "demo_two = assign_exec (\<lambda>_. False) demo_one (First_frame 2 (Some [1]) True (Some 0x0A420004) 0)"

lemma demo_offset: "draw_offset h 64 7 = (if is_held h 0x63CBE1E459320DD7 then draw_offset h 63 0x9E3779B97F4A7C1C
    else (0x9E3779B97F4A7C1C, Some 0x63CBE1E459320DD7))"
proof -
  have "next_u64 7 = (0x9E3779B97F4A7C1C, 0x63CBE1E459320DD7)"
    by (simp add: next_u64_def Let_def drop_bit_eq_div)
  moreover have "(64 :: nat) = Suc 63" by simp
  ultimately show ?thesis by (simp only: draw_offset.simps) simp
qed

lemma demo_one_eq: "demo_one = \<lparr>pool4 = demo_first, pool6 = Some ((pool6_with_seed 0xFDCC000F000100000000000000000000 7)
    \<lparr>rng6 := 0x9E3779B97F4A7C1C, sticky6 := [([1], 0x63CBE1E459320DD7)],
     used6 := \<lparr>by_conn = [(1, 0x63CBE1E459320DD7)], owners = [(1, [1])], by_addr = [(0x63CBE1E459320DD7, [1])]\<rparr>\<rparr>)\<rparr>"
proof -
  have "conns_holding demo_first_fields 0x0A420004 = [1]"
    by (simp add: conns_holding_def demo_first_fields_def holders_def hm_get_def)
  then show ?thesis
    by (simp add: demo_one_def demo_exit_def allocate_on_first_frame_def from_prefer_ipv4_def demo_first_eq demo_first_served
      allocate_for_pubkey_with_intent_def project_intent_def allocate6_with_intent_def join6_def sticky_offset_def
      pop_offset_def pool6_with_seed_def Let_def new_holdings_def address_of_def demo_offset is_held_def hm_contains_def
      hold_def holders_def rebind_def drop_stale_def hm_get_def)
qed

lemma demo_two_lookups:
  "pool4 demo_two = demo_bonded"
  "v6_of demo_two 1 = Some 0xFDCC000F0001000063CBE1E459320DD7" "v6_of demo_two 2 = Some 0xFDCC000F0001000063CBE1E459320DD7"
proof -
  have c: "conns_holding demo_bonded 0x0A420004 = [1, 2]"
    by (simp add: demo_bonded_def demo_first_eq demo_first_fields_def pool_allocate_at_def join_target_def held_by_pubkey_def
      held_by_def holders_def pool_hold_def hold_def address_of_def conns_holding_def hm_get_def)
  note s = demo_two_def demo_one_eq allocate_on_first_frame_def from_prefer_ipv4_def allocate_for_pubkey_with_intent_def
    demo_bonded_served c project_intent_def allocate6_with_intent_def join6_def pool6_with_seed_def Let_def
    address_of_def owner_of_def hm_get_def v6_of_def hold_def holders_def addr_of_def
  show "pool4 demo_two = demo_bonded" by (simp add: s)
  show "v6_of demo_two 1 = Some 0xFDCC000F0001000063CBE1E459320DD7" "v6_of demo_two 2 = Some 0xFDCC000F0001000063CBE1E459320DD7"
    by (simp_all add: s push_bit_eq_mult)
qed

lemma demo_two_reached: "\<forall>op. hinted op \<longrightarrow> P op \<Longrightarrow> (assign_step P)\<^sup>*\<^sup>* demo_exit demo_two"
  unfolding demo_two_def demo_one_def
  by (intro rtranclp.rtrancl_into_rtrancl [OF rtranclp.rtrancl_into_rtrancl [OF rtranclp.rtrancl_refl]])
    (auto simp: assign_step_def simp del: assign_exec.simps intro!: exI)

theorem dual_stack_sessions_agree_witness:
  "v6_of demo_two 1 = v6_of demo_two 2 \<and> (\<exists>b. v4_of demo_two 1 = Some b \<and> v4_of demo_two 2 = Some b)"
  using dual_stack_sessions_agree [OF demo_pool_built disjI2 [OF refl] demo_exit_def demo_two_reached demo_two_lookups(2,3)]
    demo_two_lookups(2,3) by simp

theorem dual_stack_addresses_have_one_tenant_witness:
  "\<exists>p6 pk. pool6 demo_two = Some p6 \<and> owner_of (used6 p6) 1 = Some pk \<and> owner_of (used6 p6) 2 = Some pk"
proof -
  obtain p6 where p6: "pool6 demo_two = Some p6" using demo_two_lookups(2) by (auto simp: v6_of_def split: option.splits)
  from dual_stack_addresses_have_one_tenant [OF demo_pool_built disjI2 [OF refl] demo_exit_def demo_two_reached p6]
  have "\<forall>c d a. v6_of demo_two c = Some a \<and> v6_of demo_two d = Some a \<and> c \<noteq> d \<longrightarrow>
      (\<exists>pk. owner_of (used6 p6) c = Some pk \<and> owner_of (used6 p6) d = Some pk)" by simp
  moreover have "(1 :: conn_id) \<noteq> 2" by simp
  ultimately show ?thesis using demo_two_lookups(2,3) p6 by blast
qed

text \<open>
  The hypothesis on the hints is needed. A client without hints connects over IPv4 only, its key opens
  a second, hinted session with both families, and reconnects without a hint and with both families:
  the last connection joins the first session in IPv4 and the second one in IPv6.
\<close>

definition demo_mixed :: exit_pools where
  "demo_mixed = foldl (assign_exec (\<lambda>_. False)) demo_exit [First_frame 1 (Some [1]) False None 0,
     First_frame 2 (Some [1]) True (Some 0) 0, First_frame 3 (Some [1]) True None 0]"

lemma demo_draw_next: "bounded 0x9E3779B97F4A7C1C (Suc 3) = (0x3C6EF372FE94F831, 0)"
  by (simp add: bounded_def next_u64_def Let_def drop_bit_eq_div)

definition demo_second :: ip_allocator where
  "demo_second = demo_first_fields\<lparr>free := [0x0A420005, 0x0A420003, 0x0A420006], pool_rng := 0x3C6EF372FE94F831,
     last_holder := [(0x0A420004, Some [1]), (0x0A420002, Some [1])],
     used := \<lparr>by_conn = [(1, 0x0A420004), (2, 0x0A420002)], owners = [(1, [1]), (2, [1])],
       by_addr = [(0x0A420004, [1]), (0x0A420002, [2])]\<rparr>\<rparr>"

lemma demo_second_served:
  "pool_allocate_at (\<lambda>_. False) demo_first_fields 2 [1] Fresh 0 False = (demo_second, Some 0x0A420002)"
proof -
  have l: "length (free demo_first_fields) = Suc 3" "pool_rng demo_first_fields = 0x9E3779B97F4A7C1C"
    "free demo_first_fields = [0x0A420002, 0x0A420003, 0x0A420006, 0x0A420005]"
    by (simp_all add: demo_first_fields_def)
  have "pop_random (\<lambda>_. False) demo_first_fields =
      (demo_first_fields\<lparr>pool_rng := 0x3C6EF372FE94F831, free := [0x0A420005, 0x0A420003, 0x0A420006]\<rparr>, Some 0x0A420002)"
    unfolding pop_random_def l(1,2) pop_loop.simps demo_draw_next by (simp add: l(3) claimed_def swap_remove_def)
  then show ?thesis
    by (simp add: demo_second_def demo_first_fields_def pool_allocate_at_def serve_sticky_def serve_draw_def bind_sticky_def
        pool_hold_def take_free_def position_def demo_pool_def hold_def rebind_def drop_stale_def holders_def held_by_def
        address_of_def hm_get_def hm_remove_def Let_def)
qed

lemma hintless_request_splits_a_session:
  "v6_of demo_mixed 2 = v6_of demo_mixed 3 \<and> v6_of demo_mixed 2 \<noteq> None
    \<and> v4_of demo_mixed 2 = Some 0x0A420002 \<and> v4_of demo_mixed 3 = Some 0x0A420004"
proof -
  have first: "pool_allocate_at (\<lambda>_. False) (set_address_claims demo_pool) 1 [1] Legacy 0 True = (demo_first_fields, Some 0x0A420004)"
    using demo_first_served by (simp add: pool_allocate_at_def serve_sticky_def demo_pool_def set_address_claims_def)
  have one: "assign_exec (\<lambda>_. False) demo_exit (First_frame 1 (Some [1]) False None 0) = demo_exit\<lparr>pool4 := demo_first_fields\<rparr>"
    using first by (simp add: allocate_on_first_frame_def from_prefer_ipv4_def allocate_for_pubkey_reclaiming_def demo_exit_def Let_def)
  have sib: "conns_holding demo_second 0x0A420002 = [2]"
    by (simp add: demo_second_def conns_holding_def holders_def hm_get_def)
  have two: "assign_exec (\<lambda>_. False) (demo_exit\<lparr>pool4 := demo_first_fields\<rparr>) (First_frame 2 (Some [1]) True (Some 0) 0)
    = \<lparr>pool4 = demo_second, pool6 = Some ((pool6_with_seed 0xFDCC000F000100000000000000000000 7)
    \<lparr>rng6 := 0x9E3779B97F4A7C1C, sticky6 := [([1], 0x63CBE1E459320DD7)],
     used6 := \<lparr>by_conn = [(2, 0x63CBE1E459320DD7)], owners = [(2, [1])], by_addr = [(0x63CBE1E459320DD7, [2])]\<rparr>\<rparr>)\<rparr>"
    by (simp add: demo_second_served sib demo_exit_def allocate_on_first_frame_def from_prefer_ipv4_def
      allocate_for_pubkey_with_intent_def project_intent_def allocate6_with_intent_def join6_def sticky_offset_def
      pop_offset_def pool6_with_seed_def Let_def new_holdings_def address_of_def demo_offset is_held_def hm_contains_def
      hold_def holders_def rebind_def drop_stale_def hm_get_def)
  show ?thesis
    unfolding demo_mixed_def foldl.simps one two
    by (simp add: demo_second_def allocate_on_first_frame_def from_prefer_ipv4_def allocate_for_pubkey_with_intent_def
      pool_allocate_at_def serve_sticky_def take_free_def position_def held_by_pubkey_def held_by_def holders_def
      pool_hold_def hold_def project_intent_def allocate6_with_intent_def join6_def sticky_offset_def pool6_with_seed_def
      address_of_def owner_of_def hm_get_def v6_of_def v4_of_def demo_first_fields_def demo_pool_def Let_def)
qed

end
