(* ===== verification/Exit_Gates.thy ===== *)
theory Exit_Gates
  imports Inner_Packets Ip_Assign
begin

text \<open>
  The gates of an exit against its address pools: the subnet an allocator was built on never changes,
  so the destination gate of every connection covers every address any connection holds.
\<close>

section \<open>The subnet of a pool\<close>

definition subnet4 :: "ip_allocator \<Rightarrow> ipv4 \<times> u8 \<times> ipv4" where
  "subnet4 p = (pool_network p, pool_prefix_len p, pool_gateway p)"

definition subnet6 :: "ip_allocator6 \<Rightarrow> ipv6 \<times> ipv6" where
  "subnet6 p = (network6 p, gateway6 p)"

lemma subnet4_update [simp]:
  "subnet4 (p\<lparr>free := f\<rparr>) = subnet4 p" "subnet4 (p\<lparr>pool_rng := r\<rparr>) = subnet4 p" "subnet4 (p\<lparr>used := h\<rparr>) = subnet4 p"
  "subnet4 (p\<lparr>sticky := s\<rparr>) = subnet4 p" "subnet4 (p\<lparr>restart := w\<rparr>) = subnet4 p" "subnet4 (p\<lparr>claims := b\<rparr>) = subnet4 p"
  "subnet4 (p\<lparr>last_holder := l\<rparr>) = subnet4 p"
  by (simp_all add: subnet4_def)

lemma subnet4_hold [simp]: "subnet4 (pool_hold p c a ow) = subnet4 p" "subnet4 (bind_sticky p pk a) = subnet4 p"
  by (simp_all add: pool_hold_def bind_sticky_def)

lemma subnet4_parts:
  "reclaimable p a now = (q, open) \<Longrightarrow> subnet4 q = subnet4 p" "take_free ic p a pk = (q, ok) \<Longrightarrow> subnet4 q = subnet4 p"
  "pop_random ic p = (q, r) \<Longrightarrow> subnet4 q = subnet4 p"
  by (auto simp: reclaimable_def take_free_def pop_random_def split: option.splits prod.splits if_splits)

lemma subnet4_serve:
  "serve_sticky ic p c pk intent = (q, r) \<Longrightarrow> subnet4 q = subnet4 p"
  "serve_draw ic p c pk = (q, r) \<Longrightarrow> subnet4 q = subnet4 p"
  by (auto simp: serve_sticky_def serve_draw_def dest!: subnet4_parts split: option.splits prod.splits if_splits bool.splits)

lemma subnet4_join: "join_target ic p c pk target now may = (q, joined) \<Longrightarrow> subnet4 q = subnet4 p"
  by (auto simp: join_target_def Let_def dest!: subnet4_parts split: prod.splits if_splits bool.splits)

lemma subnet4_allocate:
  "pool_allocate ic p c = (q, r) \<Longrightarrow> subnet4 q = subnet4 p"
  "pool_allocate_at ic p c pk intent now may = (q, r) \<Longrightarrow> subnet4 q = subnet4 p"
  by (auto simp: pool_allocate_def pool_allocate_at_def dest!: subnet4_parts subnet4_serve subnet4_join
      split: option.splits prod.splits session_intent.splits if_splits)

lemma subnet4_release [simp]: "subnet4 (pool_release p c) = subnet4 p" "subnet4 (pool_transfer_owner p k k') = subnet4 p"
  by (auto simp: pool_release_def pool_transfer_owner_def split: prod.splits option.splits bool.splits)

lemma subnet6_parts:
  "pop_offset p = (q, r) \<Longrightarrow> subnet6 q = subnet6 p"
  "sticky_offset p pk intent = Some (q, x) \<Longrightarrow> subnet6 q = subnet6 p"
  by (auto simp: pop_offset_def sticky_offset_def subnet6_def Let_def split: option.splits prod.splits if_splits)

lemma subnet6_allocate:
  "allocate6 p c = (q, r) \<Longrightarrow> subnet6 q = subnet6 p"
  "allocate6_with_intent p c pk intent = (q, r) \<Longrightarrow> subnet6 q = subnet6 p"
  by (auto simp: allocate6_def allocate6_with_intent_def dest!: subnet6_parts simp: subnet6_def Let_def split: option.splits prod.splits if_splits)

lemma subnet6_release [simp]: "subnet6 (release6 p c) = subnet6 p" "subnet6 (transfer6 p k k') = subnet6 p"
  by (auto simp: release6_def transfer6_def subnet6_def split: prod.splits option.splits bool.splits)

definition exit_subnets :: "exit_pools \<Rightarrow> (ipv4 \<times> u8 \<times> ipv4) \<times> (ipv6 \<times> ipv6) option" where
  "exit_subnets ps = (subnet4 (pool4 ps), map_option subnet6 (pool6 ps))"

lemma exit_subnets_exec: "exit_subnets (assign_exec ic ps op) = exit_subnets ps"
proof (cases op)
  case (First_frame c pko w hint now)
  show ?thesis
  proof (cases rule: first_frame_cases [where pko = pko and w = w and ps = ps and ic = ic and c = c and hint = hint and now = now])
    case (1 q r)
    then show ?thesis using First_frame
      by (auto simp: exit_subnets_def allocate_for_pubkey_with_intent_def allocate_for_pubkey_reclaiming_def
          dest!: subnet4_allocate split: option.splits if_splits)
  next
    case (2 q a p6 q6 r)
    then show ?thesis using First_frame
      by (auto simp: exit_subnets_def allocate_for_pubkey_with_intent_def allocate_for_pubkey_reclaiming_def
          dest!: subnet4_allocate subnet6_allocate split: option.splits if_splits)
  qed
qed (simp_all add: exit_subnets_def release_conn_def move_lease_owner_def option.map_comp comp_def)

lemma exit_subnets_run: "(assign_step P)\<^sup>*\<^sup>* ps qs \<Longrightarrow> exit_subnets qs = exit_subnets ps"
  by (induction rule: rtranclp_induct) (auto simp: assign_step_def exit_subnets_exec)

section \<open>What clears the gates\<close>

lemma tunnel_pool_subnets:
  "exit_subnets qs = exit_subnets ps \<Longrightarrow> tunnel_pool_of (pool4 qs) (pool6 qs) = tunnel_pool_of (pool4 ps) (pool6 ps)"
  by (auto simp: exit_subnets_def subnet4_def subnet6_def tunnel_pool_of_def Let_def split: option.splits)

lemma host_in_pool:
  assumes "pool_with_seed net plen gw seed = Inr p0" and "p1 = p0 \<or> p1 = set_address_claims p0" and "a \<in> set (free p0)"
  shows "holds_v4 (tunnel_pool_of p1 p6) a" and "a \<noteq> v4_gateway (tunnel_pool_of p1 p6)"
proof -
  let ?m = "push_bit (32 - unat plen) (- 1 :: u32)"
  have plen: "plen \<noteq> 0" "\<not> plen > 32" using assms(1) by (auto simp: pool_with_seed_def)
  then have "0 < unat plen" by (simp add: unat_gt_0)
  then have "32 - unat plen \<noteq> 32" by linarith
  then have p0: "pool_network p0 = net AND ?m" "pool_prefix_len p0 = plen" "pool_gateway p0 = gw"
    using assms(1) by (auto simp: pool_with_seed_def Let_def split: if_splits)
  have a: "a \<noteq> gw" "a AND ?m = net AND ?m" using pool_start(4) [OF assms(1,2,3)] by auto
  have "pool_network p1 = net AND ?m" "pool_prefix_len p1 = plen" "pool_gateway p1 = gw"
    using p0 assms(2) by (auto simp: set_address_claims_def)
  then show "holds_v4 (tunnel_pool_of p1 p6) a" "a \<noteq> v4_gateway (tunnel_pool_of p1 p6)"
    using a plen by (auto simp: holds_v4_def tunnel_pool_of_def new_tunnel_pool_def with_v6_def Let_def and.assoc split: option.splits)
qed

lemma prefix64:
  assumes "(a :: ipv6) AND push_bit 64 (- 1) = b AND push_bit 64 (- 1)"
  shows "drop_bit 64 a = drop_bit 64 b"
proof (rule bit_word_eqI)
  fix n assume "n < LENGTH(128)"
  then show "bit (drop_bit 64 a) n = bit (drop_bit 64 b) n"
    using arg_cong [OF assms, of "\<lambda>w. bit w (64 + n)"] by (auto simp: bit_simps dest: bit_imp_le_length)
qed

lemma held_in_pool6:
  assumes "exit_inv hosts (net6 AND push_bit 64 (- 1)) ps" and "pool6 ps = Some p6" and "v6_of ps c = Some b"
    and "subnet6 p6 = subnet6 (pool6_with_seed net6 seed6)"
  shows "drop_bit 64 b = drop_bit 64 (network6 p6)" and "b \<noteq> gateway6 p6"
proof -
  have "network6 p6 = net6 AND push_bit 64 (- 1)" "gateway6 p6 = network6 p6 OR 1"
    using assms(4) by (auto simp: subnet6_def pool6_with_seed_def Let_def)
  moreover have "b AND push_bit 64 (- 1) = net6 AND push_bit 64 (- 1)" "b \<noteq> (net6 AND push_bit 64 (- 1)) OR 1"
    using exit_v6_tenant(1) [OF assms(1,2,3)] by (simp_all add: Let_def)
  ultimately show "drop_bit 64 b = drop_bit 64 (network6 p6)" "b \<noteq> gateway6 p6"
    using prefix64 [of b "net6 AND push_bit 64 (- 1)"] by (simp_all add: and.assoc)
qed

text \<open>Two connections under one key, in either pool.\<close>

definition same_client :: "exit_pools \<Rightarrow> conn_id \<Rightarrow> conn_id \<Rightarrow> bool" where
  "same_client ps c d \<longleftrightarrow> c = d \<or>
     (\<exists>pk. owner_of (used (pool4 ps)) c = Some pk \<and> owner_of (used (pool4 ps)) d = Some pk) \<or>
     (\<exists>p6 pk. pool6 ps = Some p6 \<and> owner_of (used6 p6) c = Some pk \<and> owner_of (used6 p6) d = Some pk)"

lemma exit_reached:
  assumes "pool_with_seed net plen gw seed = Inr p0" and "p1 = p0 \<or> p1 = set_address_claims p0"
    and "start = \<lparr>pool4 = p1, pool6 = p6\<rparr>" and "p6 = None \<or> p6 = Some (pool6_with_seed net6 seed6)"
    and "(assign_step (\<lambda>_. True))\<^sup>*\<^sup>* start ps"
  shows "exit_inv (set (free p0)) (net6 AND push_bit 64 (- 1)) ps" and "exit_subnets ps = exit_subnets start"
    and "pool6 ps = Some q6 \<Longrightarrow> subnet6 q6 = subnet6 (pool6_with_seed net6 seed6)"
  using exit_sys.run_inv [OF assms(5) exit_start [OF assms(1,2,3,4)]] exit_subnets_run [OF assms(5)] assms(3,4)
  by (auto simp: exit_subnets_def)

text \<open>
  C37: The gates of the exit keep its clients apart. Take any state the exit reaches, two connections of
  different clients in it, and the gates the first was armed with when it was set up, on the addresses
  it holds and on the pools as they were then. An IP packet that clears both gates carries neither the
  IPv4 nor the IPv6 address of the other client as its source, and is addressed to neither: one client
  cannot speak as another and cannot reach another's tunnel address through the exit.
\<close>
theorem uplink_gates_isolate_clients:
  assumes "pool_with_seed net plen gw seed = Inr p0" and "p1 = p0 \<or> p1 = set_address_claims p0"
    and "start = \<lparr>pool4 = p1, pool6 = p6\<rparr>" and "p6 = None \<or> p6 = Some (pool6_with_seed net6 seed6)"
    and "(assign_step (\<lambda>_. True))\<^sup>*\<^sup>* start at_setup" and "(assign_step (\<lambda>_. True))\<^sup>*\<^sup>* at_setup ps"
    and "v4_of ps d = Some ip" and "classify_source pkt ip (v6_of ps d) = None" and "\<not> is_daita_dummy pkt"
    and "classify_destination pkt (tunnel_pool_of (pool4 at_setup) (pool6 at_setup)) = None"
    and "\<not> same_client ps c d"
  shows "(\<forall>a. v4_of ps c = Some a \<longrightarrow> extract_src_ipv4 pkt \<noteq> Some a \<and> extract_dst_ipv4 pkt \<noteq> Some a)
    \<and> (\<forall>b. v6_of ps c = Some b \<longrightarrow> extract_src_ipv6 pkt \<noteq> Some b \<and> extract_dst_ipv6 pkt \<noteq> Some b)"
proof -
  let ?pool = "tunnel_pool_of (pool4 ps) (pool6 ps)"
  have run: "(assign_step (\<lambda>_. True))\<^sup>*\<^sup>* start ps" using assms(5,6) by (rule rtranclp_trans)
  note reached = exit_reached [OF assms(1-4) run]
  have dest: "classify_destination pkt ?pool = None"
    using assms(10) tunnel_pool_subnets [OF exit_subnets_run [OF assms(6)]] by simp
  have pool: "?pool = tunnel_pool_of p1 p6" using tunnel_pool_subnets [OF reached(2)] assms(3) by simp
  have src: "extract_src_ipv4 pkt = Some ip \<or> (\<exists>s. extract_src_ipv6 pkt = Some s \<and> v6_of ps d = Some s)"
    using source_gate_iff [of pkt ip "v6_of ps d"] assms(8,9) by auto
  have other: "\<not> (extract_src_ipv4 pkt \<noteq> None \<and> extract_src_ipv6 pkt \<noteq> None)"
    by (auto simp: extract_src_ipv4_def extract_src_ipv6_def)
  have "extract_src_ipv4 pkt \<noteq> Some a \<and> extract_dst_ipv4 pkt \<noteq> Some a" if a: "v4_of ps c = Some a" for a
  proof
    show "extract_src_ipv4 pkt \<noteq> Some a"
      using exit_v4_tenant(2) [OF reached(1) a, of d] src other assms(7,11) by (auto simp: same_client_def)
    show "extract_dst_ipv4 pkt \<noteq> Some a"
      using destination_gate_iff(1) [OF dest, of a] host_in_pool [OF assms(1,2) exit_v4_tenant(1) [OF reached(1) a], of p6] pool by auto
  qed
  moreover have "extract_src_ipv6 pkt \<noteq> Some b \<and> extract_dst_ipv6 pkt \<noteq> Some b" if b: "v6_of ps c = Some b" for b
  proof -
    obtain q6 where q6: "pool6 ps = Some q6" using b by (auto simp: v6_of_def split: option.splits)
    have half: "v6_half ?pool = Some (network6 q6, gateway6 q6)" by (simp add: q6 tunnel_pool_of_def with_v6_def Let_def)
    have "extract_src_ipv6 pkt \<noteq> Some b"
      using exit_v6_tenant(2) [OF reached(1) q6 b, of d] src other assms(11) q6 by (auto simp: same_client_def)
    moreover have "extract_dst_ipv6 pkt \<noteq> Some b"
      using destination_gate_iff(2) [OF dest _ half, of b] held_in_pool6 [OF reached(1) q6 b reached(3) [OF q6]] by auto
    ultimately show ?thesis by blast
  qed
  ultimately show ?thesis by blast
qed

text \<open>A second client joins the exit of the example, over IPv4.\<close>

definition demo_guest :: exit_pools where
  "demo_guest = assign_exec (\<lambda>_. False) demo_one (First_frame 2 (Some [2]) False (Some 0) 0)"

lemma demo_guest_served:
  "pool_allocate_at (\<lambda>_. False) demo_first_fields 2 [2] Fresh 0 True =
    (demo_second\<lparr>sticky := [([1], 0x0A420004), ([2], 0x0A420002)], last_holder := [(0x0A420004, Some [1]), (0x0A420002, Some [2])],
       used := (used demo_second)\<lparr>owners := [(1, [1]), (2, [2])]\<rparr>\<rparr>, Some 0x0A420002)"
proof -
  have l: "length (free demo_first_fields) = Suc 3" "pool_rng demo_first_fields = 0x9E3779B97F4A7C1C"
    "free demo_first_fields = [0x0A420002, 0x0A420003, 0x0A420006, 0x0A420005]"
    by (simp_all add: demo_first_fields_def)
  have "pop_random (\<lambda>_. False) demo_first_fields =
      (demo_first_fields\<lparr>pool_rng := 0x3C6EF372FE94F831, free := [0x0A420005, 0x0A420003, 0x0A420006]\<rparr>, Some 0x0A420002)"
    unfolding pop_random_def l(1,2) pop_loop.simps demo_draw_next by (simp add: l(3) claimed_def swap_remove_def)
  then show ?thesis
    by (simp add: demo_second_def demo_first_fields_def pool_allocate_at_def serve_sticky_def serve_draw_def bind_sticky_def
        pool_hold_def demo_pool_def hold_def rebind_def drop_stale_def holders_def held_by_def
        address_of_def hm_get_def hm_remove_def Let_def)
qed

lemma demo_guest_lookups:
  "v4_of demo_guest 1 = Some 0x0A420004" "v4_of demo_guest 2 = Some 0x0A420002"
  "v6_of demo_guest 1 = Some 0xFDCC000F0001000063CBE1E459320DD7" "v6_of demo_guest 2 = None" "\<not> same_client demo_guest 1 2"
  by (simp_all add: demo_guest_def demo_one_eq demo_first_eq demo_guest_served allocate_on_first_frame_def from_prefer_ipv4_def
      allocate_for_pubkey_reclaiming_def v4_of_def v6_of_def same_client_def demo_second_def address_of_def owner_of_def hm_get_def
      addr_of_def pool6_with_seed_def mask_eq_exp_minus_1 Let_def)

lemma demo_guest_reached: "(assign_step (\<lambda>_. True))\<^sup>*\<^sup>* demo_exit demo_one" "(assign_step (\<lambda>_. True))\<^sup>*\<^sup>* demo_one demo_guest"
proof -
  have step: "(assign_step (\<lambda>_. True))\<^sup>*\<^sup>* ps (assign_exec ic ps op)" for ic ps op
    by (rule r_into_rtranclp) (auto simp: assign_step_def)
  show "(assign_step (\<lambda>_. True))\<^sup>*\<^sup>* demo_exit demo_one" "(assign_step (\<lambda>_. True))\<^sup>*\<^sup>* demo_one demo_guest"
    unfolding demo_guest_def demo_one_def by (rule step)+
qed

text \<open>A packet of the second client to an address on the internet.\<close>

definition demo_packet :: packet where
  "demo_packet = [0x45] @ replicate 11 0 @ [10, 66, 0, 2] @ [1, 1, 1, 1]"

lemma demo_packet_reads: "extract_src_ipv4 demo_packet = Some 0x0A420002" "extract_dst_ipv4 demo_packet = Some 0x01010101"
  "extract_src_ipv6 demo_packet = None" "\<not> is_daita_dummy demo_packet" "version_nibble (demo_packet ! 0) = 4"
  by code_simp+

theorem uplink_gates_isolate_clients_witness:
  "v4_of demo_guest 1 = Some 0x0A420004 \<and> v4_of demo_guest 2 = Some 0x0A420002
    \<and> extract_src_ipv4 demo_packet \<noteq> Some 0x0A420004 \<and> extract_dst_ipv4 demo_packet \<noteq> Some 0x0A420004"
proof -
  have src: "classify_source demo_packet 0x0A420002 (v6_of demo_guest 2) = None"
    using source_gate_iff [of demo_packet "0x0A420002" "v6_of demo_guest 2"] demo_packet_reads by simp
  have "\<not> holds_v4 (tunnel_pool_of (pool4 demo_one) (pool6 demo_one)) 0x01010101"
    by (simp add: demo_one_eq demo_first_eq demo_first_fields_def demo_pool_def tunnel_pool_of_def new_tunnel_pool_def with_v6_def
        holds_v4_def push_bit_eq_mult)
  then have dst: "classify_destination demo_packet (tunnel_pool_of (pool4 demo_one) (pool6 demo_one)) = None"
    using demo_packet_reads(2,5) by (simp add: classify_destination_def)
  show ?thesis
    using uplink_gates_isolate_clients [OF demo_pool_built disjI2 [OF refl] demo_exit_def disjI2 [OF refl] demo_guest_reached
        demo_guest_lookups(2) src demo_packet_reads(4) dst demo_guest_lookups(5)] demo_guest_lookups(1,2) by simp
qed

end
