(* ===== verification/Downlink_Router.thy ===== *)
theory Downlink_Router
  imports Inner_Packets
begin

text \<open>
  The downlink router of a multi-hop exit, \<open>RouteTable\<close> and \<open>MultihopTunRouter\<close> of
  \<open>multihop-server/src/multihop.rs\<close>: the channels registered under an assigned address, the flows
  learned from the uplink, the choice of a channel for a downlink packet, and the two janitors that
  take the route from a dead connection. A channel stands for its sender (\<open>same_channel\<close> is equality);
  what a liveness handle reads at a moment is given by the \<open>world\<close> of that moment.
\<close>

section \<open>The table\<close>

type_synonym chan = nat

record world =
  activity_now :: "nat \<Rightarrow> u64"
  packets_now :: "nat \<Rightarrow> u64"
  closed_now :: "nat \<Rightarrow> bool"

record downlink =
  tx :: chan
  activity :: "nat option"
  peer :: "nat option"
  stale :: bool

record route_slot =
  senders :: "downlink list"
  rr :: u64
  flows :: "(u64, chan) hmap"

type_synonym 'a routes = "('a, route_slot) hmap"

definition MAX_SENDERS_PER_IP :: nat where "MAX_SENDERS_PER_IP = 16"
definition FLOW_TABLE_CAP_PER_IP :: nat where "FLOW_TABLE_CAP_PER_IP = 8192"

definition new_downlink :: "chan \<Rightarrow> downlink" where
  "new_downlink c = \<lparr>tx = c, activity = None, peer = None, stale = False\<rparr>"

definition new_slot :: "chan \<Rightarrow> route_slot" where
  "new_slot c = \<lparr>senders = [new_downlink c], rr = 0, flows = []\<rparr>"

definition slot_note_flow :: "route_slot \<Rightarrow> u64 \<Rightarrow> chan \<Rightarrow> route_slot" where
  "slot_note_flow slot key c =
     (if hm_contains (flows slot) key then slot
      else let kept = (if length (flows slot) \<ge> FLOW_TABLE_CAP_PER_IP
                       then (case flows slot of [] \<Rightarrow> [] | (victim, _) # _ \<Rightarrow> hm_remove victim (flows slot))
                       else flows slot)
           in slot\<lparr>flows := hm_insert key c kept\<rparr>)"

definition remove_nth :: "nat \<Rightarrow> 'b list \<Rightarrow> 'b list" where
  "remove_nth i xs = take i xs @ drop (Suc i) xs"

text \<open>The index of the first element that satisfies the test, \<open>position(..).unwrap_or(0)\<close>.\<close>

definition first_or_0 :: "('b \<Rightarrow> bool) \<Rightarrow> 'b list \<Rightarrow> nat" where
  "first_or_0 P xs = (if \<exists>x \<in> set xs. P x then length (takeWhile (\<lambda>x. \<not> P x) xs) else 0)"

definition peer_closed :: "world \<Rightarrow> downlink \<Rightarrow> bool" where
  "peer_closed w d = (case peer d of None \<Rightarrow> False | Some p \<Rightarrow> closed_now w p)"

definition register_route :: "world \<Rightarrow> 'a routes \<Rightarrow> 'a \<Rightarrow> chan \<Rightarrow> 'a routes" where
  "register_route w routes ip c =
     (let slot = (case hm_get routes ip of None \<Rightarrow> new_slot c | Some s \<Rightarrow> s)
      in if \<exists>d \<in> set (senders slot). tx d = c then hm_insert ip slot routes
         else let kept = (if length (senders slot) \<ge> MAX_SENDERS_PER_IP
                          then remove_nth (first_or_0 (peer_closed w) (senders slot)) (senders slot)
                          else senders slot)
              in hm_insert ip (slot\<lparr>senders := kept @ [new_downlink c]\<rparr>) routes)"

text \<open>The first sender of the slot on the channel is updated.\<close>

fun update_sender :: "chan \<Rightarrow> (downlink \<Rightarrow> downlink) \<Rightarrow> downlink list \<Rightarrow> downlink list" where
  "update_sender c f [] = []"
| "update_sender c f (d # ds) = (if tx d = c then f d # ds else d # update_sender c f ds)"

definition attach_liveness :: "'a routes \<Rightarrow> 'a \<Rightarrow> chan \<Rightarrow> nat \<Rightarrow> nat option \<Rightarrow> 'a routes" where
  "attach_liveness routes ip c act pr =
     (case hm_get routes ip of
        None \<Rightarrow> routes
      | Some slot \<Rightarrow>
          hm_insert ip (slot\<lparr>senders := update_sender c (\<lambda>d. d\<lparr>activity := Some act, peer := pr\<rparr>) (senders slot)\<rparr>) routes)"

definition unregister_if_owner :: "'a routes \<Rightarrow> 'a \<Rightarrow> chan \<Rightarrow> 'a routes" where
  "unregister_if_owner routes ip c =
     (case hm_get routes ip of
        None \<Rightarrow> routes
      | Some slot \<Rightarrow>
          let slot' = slot\<lparr>senders := filter (\<lambda>d. tx d \<noteq> c) (senders slot),
                           flows := hm_retain (\<lambda>_ s. s \<noteq> c) (flows slot)\<rparr>
          in if senders slot' = [] then hm_remove ip routes else hm_insert ip slot' routes)"

definition note_flow :: "'a routes \<Rightarrow> 'a \<Rightarrow> u64 \<Rightarrow> chan \<Rightarrow> 'a routes" where
  "note_flow routes ip key c =
     (case hm_get routes ip of
        None \<Rightarrow> routes
      | Some slot \<Rightarrow> hm_insert ip (slot_note_flow slot key c) routes)"

definition snapshot_keys :: "'a routes \<Rightarrow> 'a list" where
  "snapshot_keys routes = map fst routes"

section \<open>The choice of a channel\<close>

text \<open>The senders a packet may go to: those not reported stale, or all when every one is.\<close>

definition serving :: "route_slot \<Rightarrow> downlink list" where
  "serving slot = (let fresh = filter (\<lambda>d. \<not> stale d) (senders slot) in if fresh = [] then senders slot else fresh)"

definition learned_owner :: "route_slot \<Rightarrow> u64 option \<Rightarrow> chan option" where
  "learned_owner slot flow_key =
     (case flow_key of None \<Rightarrow> None | Some k \<Rightarrow>
        case hm_get (flows slot) k of None \<Rightarrow> None
        | Some c \<Rightarrow> if \<exists>d \<in> set (serving slot). tx d = c then Some c else None)"

text \<open>The channel of a packet, and the slot with its round-robin counter moved on.\<close>

definition pick :: "route_slot \<Rightarrow> u64 option \<Rightarrow> u64 option \<Rightarrow> chan \<times> route_slot" where
  "pick slot flow_key hash =
     (case learned_owner slot flow_key of
        Some c \<Rightarrow> (c, slot)
      | None \<Rightarrow>
          case hash of
            Some h \<Rightarrow> (tx (serving slot ! (unat h mod length (serving slot))), slot)
          | None \<Rightarrow> (tx (serving slot ! (unat (rr slot) mod length (serving slot))), slot\<lparr>rr := rr slot + 1\<rparr>))"

datatype send_result = Send_ok | Send_full | Send_closed

datatype dispatch_verdict = Delivered chan | Channel_full chan | No_route

lemma serving_subset: "set (serving slot) \<subseteq> set (senders slot)" "senders slot \<noteq> [] \<Longrightarrow> serving slot \<noteq> []"
  by (auto simp: serving_def Let_def)

lemma pick_serving: "senders slot \<noteq> [] \<Longrightarrow> \<exists>d \<in> set (serving slot). tx d = fst (pick slot k h)"
  using serving_subset(2) [of slot]
  by (auto simp: pick_def learned_owner_def split: option.splits if_splits intro!: bexI [OF refl nth_mem])

lemma pick_slot: "senders (snd (pick slot k h)) = senders slot" "flows (snd (pick slot k h)) = flows slot"
  by (auto simp: pick_def split: option.splits)

text \<open>The loop of \<open>dispatch\<close>: a closed channel loses its route and the packet is tried on the others.\<close>

function dispatch_loop ::
  "(nat \<Rightarrow> chan \<Rightarrow> send_result) \<Rightarrow> nat \<Rightarrow> 'a \<Rightarrow> u64 option \<Rightarrow> u64 option \<Rightarrow> 'a routes \<Rightarrow> 'a routes \<times> dispatch_verdict" where
  "dispatch_loop outcome n ip flow_key hash routes =
     (case hm_get routes ip of
        None \<Rightarrow> (routes, No_route)
      | Some slot \<Rightarrow>
          if senders slot = [] then (routes, No_route)
          else case pick slot flow_key hash of
                 (c, slot') \<Rightarrow>
                   let routes' = hm_insert ip slot' routes
                   in case outcome n c of
                        Send_ok \<Rightarrow> (routes', Delivered c)
                      | Send_full \<Rightarrow> (routes', Channel_full c)
                      | Send_closed \<Rightarrow> dispatch_loop outcome (n + 1) ip flow_key hash (unregister_if_owner routes' ip c))"
  by pat_completeness auto

definition senders_of :: "'a routes \<Rightarrow> 'a \<Rightarrow> downlink list" where
  "senders_of routes ip = (case hm_get routes ip of None \<Rightarrow> [] | Some slot \<Rightarrow> senders slot)"

lemma senders_unregister: "senders_of (unregister_if_owner routes ip c) j =
    (if j = ip then filter (\<lambda>d. tx d \<noteq> c) (senders_of routes ip) else senders_of routes j)"
  by (auto simp: senders_of_def unregister_if_owner_def Let_def table split: option.splits)

lemma senders_insert: "senders_of (hm_insert ip slot routes) j = (if j = ip then senders slot else senders_of routes j)"
  by (simp add: senders_of_def table)

lemma pick_prunes:
  assumes "hm_get routes ip = Some slot" and "senders slot \<noteq> []" and "pick slot k h = (c, slot')"
  shows "length (senders_of (unregister_if_owner (hm_insert ip slot' routes) ip c) ip) < length (senders_of routes ip)"
proof -
  obtain d where d: "d \<in> set (senders slot)" "tx d = c"
    using pick_serving [OF assms(2), of k h] serving_subset(1) [of slot] assms(3) by auto
  have "senders slot' = senders slot" using pick_slot(1) [of slot k h] assms(3) by simp
  then show ?thesis using d assms(1) length_filter_less [of d "senders slot" "\<lambda>d. tx d \<noteq> c"]
    by (simp add: senders_unregister senders_insert) (simp add: senders_of_def)
qed

termination dispatch_loop
  by (relation "measure (\<lambda>(outcome, n, ip, k, h, routes). length (senders_of routes ip))") (auto intro: pick_prunes [OF _ _ sym])

declare dispatch_loop.simps [simp del]

definition table_dispatch :: "(nat \<Rightarrow> chan \<Rightarrow> send_result) \<Rightarrow> 'a routes \<Rightarrow> 'a \<Rightarrow> packet \<Rightarrow> 'a routes \<times> dispatch_verdict" where
  "table_dispatch outcome routes ip pkt = dispatch_loop outcome 0 ip (canonical_flow_key pkt) (flow_hash_5tuple pkt) routes"

section \<open>The router\<close>

record tun_router =
  routes_v4 :: "ipv4 routes"
  routes_v6 :: "ipv6 routes"

definition new_router :: tun_router where
  "new_router = \<lparr>routes_v4 = [], routes_v6 = []\<rparr>"

text \<open>\<open>None\<close> is a packet without a destination, counted as unroutable.\<close>

definition router_dispatch :: "(nat \<Rightarrow> chan \<Rightarrow> send_result) \<Rightarrow> tun_router \<Rightarrow> packet \<Rightarrow> tun_router \<times> dispatch_verdict option" where
  "router_dispatch outcome r pkt =
     (if pkt \<noteq> [] \<and> version_nibble (pkt ! 0) = 6 then
        case dst_ipv6 pkt of
          None \<Rightarrow> (r, None)
        | Some dst \<Rightarrow> (case table_dispatch outcome (routes_v6 r) dst pkt of (t, v) \<Rightarrow> (r\<lparr>routes_v6 := t\<rparr>, Some v))
      else
        case dst_ipv4 pkt of
          None \<Rightarrow> (r, None)
        | Some dst \<Rightarrow> (case table_dispatch outcome (routes_v4 r) dst pkt of (t, v) \<Rightarrow> (r\<lparr>routes_v4 := t\<rparr>, Some v)))"

definition note_uplink :: "tun_router \<Rightarrow> packet \<Rightarrow> chan \<Rightarrow> tun_router" where
  "note_uplink r pkt c =
     (case canonical_flow_key pkt of None \<Rightarrow> r | Some key \<Rightarrow>
        if pkt \<noteq> [] \<and> version_nibble (pkt ! 0) = 6 then
          (case src_ipv6 pkt of None \<Rightarrow> r | Some src \<Rightarrow> r\<lparr>routes_v6 := note_flow (routes_v6 r) src key c\<rparr>)
        else (case src_ipv4 pkt of None \<Rightarrow> r | Some src \<Rightarrow> r\<lparr>routes_v4 := note_flow (routes_v4 r) src key c\<rparr>))"

definition active_ipv4s :: "tun_router \<Rightarrow> ipv4 set" where
  "active_ipv4s r = set (snapshot_keys (routes_v4 r))"

section \<open>The takeover re-check\<close>

record predecessor =
  pre_tx :: chan
  pre_activity :: nat
  pre_activity_seen :: u64
  pre_peer :: "nat option"
  pre_packets_seen :: u64

datatype evict_reason = Evict_closed | Evict_silent

record evictions =
  n_closed :: nat
  n_silent :: nat

definition no_evictions :: evictions where
  "no_evictions = \<lparr>n_closed = 0, n_silent = 0\<rparr>"

fun evictions_note :: "evict_reason \<Rightarrow> evictions \<Rightarrow> evictions" where
  "evictions_note Evict_closed e = e\<lparr>n_closed := n_closed e + 1\<rparr>"
| "evictions_note Evict_silent e = e\<lparr>n_silent := n_silent e + 1\<rparr>"

definition evictions_merge :: "evictions \<Rightarrow> evictions \<Rightarrow> evictions" where
  "evictions_merge e f = \<lparr>n_closed = n_closed e + n_closed f, n_silent = n_silent e + n_silent f\<rparr>"

definition evictions_total :: "evictions \<Rightarrow> nat" where
  "evictions_total e = n_closed e + n_silent e"

definition snapshot_predecessors :: "world \<Rightarrow> 'a routes \<Rightarrow> 'a \<Rightarrow> chan \<Rightarrow> predecessor list" where
  "snapshot_predecessors w routes ip newcomer =
     (case hm_get routes ip of
        None \<Rightarrow> []
      | Some slot \<Rightarrow> List.map_filter (\<lambda>d. case activity d of
            None \<Rightarrow> None
          | Some a \<Rightarrow> Some \<lparr>pre_tx = tx d, pre_activity = a, pre_activity_seen = activity_now w a, pre_peer = peer d,
              pre_packets_seen = (case peer d of None \<Rightarrow> 0 | Some p \<Rightarrow> packets_now w p)\<rparr>)
          (filter (\<lambda>d. tx d \<noteq> newcomer) (senders slot)))"

definition predecessor_verdict :: "world \<Rightarrow> bool \<Rightarrow> predecessor \<Rightarrow> evict_reason option" where
  "predecessor_verdict w convict_on_silence p =
     (let closed = (case pre_peer p of None \<Rightarrow> False | Some c \<Rightarrow> closed_now w c);
          app_silent = (activity_now w (pre_activity p) = pre_activity_seen p);
          peer_silent = (case pre_peer p of None \<Rightarrow> True | Some c \<Rightarrow> packets_now w c = pre_packets_seen p)
      in if closed then Some Evict_closed
         else if convict_on_silence \<and> app_silent \<and> peer_silent then Some Evict_silent else None)"

fun evict_stale_predecessors ::
  "world \<Rightarrow> 'a routes \<Rightarrow> 'a \<Rightarrow> predecessor list \<Rightarrow> bool \<Rightarrow> 'a routes \<times> predecessor list \<times> evictions" where
  "evict_stale_predecessors w routes ip [] convict = (routes, [], no_evictions)"
| "evict_stale_predecessors w routes ip (p # ps) convict =
     (case predecessor_verdict w convict p of
        Some reason \<Rightarrow>
          (case evict_stale_predecessors w (unregister_if_owner routes ip (pre_tx p)) ip ps convict of
             (routes', kept, e) \<Rightarrow> (routes', kept, evictions_note reason e))
      | None \<Rightarrow> (case evict_stale_predecessors w routes ip ps convict of (routes', kept, e) \<Rightarrow> (routes', p # kept, e)))"

section \<open>The patrol\<close>

definition PATROL_SILENT_ROUNDS :: u32 where "PATROL_SILENT_ROUNDS = 5"
definition PATROL_STALE_ROUNDS :: u32 where "PATROL_STALE_ROUNDS = 24"

record patrol_candidate =
  cand_tx :: chan
  cand_activity :: nat
  cand_peer :: nat

record patrol_watch =
  who :: patrol_candidate
  activity_seen :: u64
  peer_packets_seen :: u64
  app_silent_rounds :: u32
  peer_silent_rounds :: u32

definition new_watch :: "patrol_candidate \<Rightarrow> u64 \<Rightarrow> u64 \<Rightarrow> patrol_watch" where
  "new_watch c act packets =
     \<lparr>who = c, activity_seen = act, peer_packets_seen = packets, app_silent_rounds = 0, peer_silent_rounds = 0\<rparr>"

definition saturating_inc :: "u32 \<Rightarrow> u32" where
  "saturating_inc n = (if n = - 1 then n else n + 1)"

definition observe :: "patrol_watch \<Rightarrow> u64 \<Rightarrow> u64 \<Rightarrow> patrol_watch" where
  "observe x act packets =
     (let x1 = (if act = activity_seen x then x\<lparr>app_silent_rounds := saturating_inc (app_silent_rounds x)\<rparr>
                else x\<lparr>activity_seen := act, app_silent_rounds := 0\<rparr>)
      in if packets = peer_packets_seen x1 then x1\<lparr>peer_silent_rounds := saturating_inc (peer_silent_rounds x1)\<rparr>
         else x1\<lparr>peer_packets_seen := packets, peer_silent_rounds := 0\<rparr>)"

definition silent_rounds :: "patrol_watch \<Rightarrow> u32" where
  "silent_rounds x = min (app_silent_rounds x) (peer_silent_rounds x)"

record patrol_result =
  round_evicted :: evictions
  round_stale :: nat

definition candidates :: "route_slot \<Rightarrow> patrol_candidate list" where
  "candidates slot = List.map_filter (\<lambda>d. case (activity d, peer d) of
       (Some a, Some p) \<Rightarrow> Some \<lparr>cand_tx = tx d, cand_activity = a, cand_peer = p\<rparr> | _ \<Rightarrow> None) (senders slot)"

definition set_stale :: "'a routes \<Rightarrow> 'a \<Rightarrow> chan \<Rightarrow> bool \<Rightarrow> 'a routes" where
  "set_stale routes ip c b =
     (case hm_get routes ip of
        None \<Rightarrow> routes
      | Some slot \<Rightarrow> hm_insert ip (slot\<lparr>senders := update_sender c (\<lambda>d. d\<lparr>stale := b\<rparr>) (senders slot)\<rparr>) routes)"

text \<open>The watch of a candidate this round, taken out of those carried over.\<close>

definition watch_of :: "world \<Rightarrow> patrol_watch list \<Rightarrow> patrol_candidate \<Rightarrow> patrol_watch \<times> patrol_watch list" where
  "watch_of w carried c =
     (let act = activity_now w (cand_activity c); packets = packets_now w (cand_peer c)
      in if \<exists>x \<in> set carried. cand_tx (who x) = cand_tx c then
           let i = length (takeWhile (\<lambda>x. cand_tx (who x) \<noteq> cand_tx c) carried)
           in (observe (carried ! i) act packets, swap_remove i carried)
         else (new_watch c act packets, carried))"

fun patrol_slot ::
  "world \<Rightarrow> 'a \<Rightarrow> patrol_watch list \<Rightarrow> patrol_candidate list \<Rightarrow> 'a routes \<Rightarrow> 'a routes \<times> patrol_watch list \<times> patrol_result" where
  "patrol_slot w ip carried [] routes = (routes, [], \<lparr>round_evicted = no_evictions, round_stale = 0\<rparr>)"
| "patrol_slot w ip carried (c # cs) routes =
     (case watch_of w carried c of (x, carried') \<Rightarrow>
        case (if closed_now w (cand_peer c) then Some Evict_closed
              else if silent_rounds x \<ge> PATROL_SILENT_ROUNDS then Some Evict_silent else None) of
          Some reason \<Rightarrow>
            (case patrol_slot w ip carried' cs (unregister_if_owner routes ip (cand_tx (who x))) of
               (routes', kept, rd) \<Rightarrow> (routes', kept, rd\<lparr>round_evicted := evictions_note reason (round_evicted rd)\<rparr>))
        | None \<Rightarrow>
            let is_stale = (app_silent_rounds x \<ge> PATROL_STALE_ROUNDS)
            in case patrol_slot w ip carried' cs (set_stale routes ip (cand_tx (who x)) is_stale) of
                 (routes', kept, rd) \<Rightarrow>
                   (routes', x # kept, rd\<lparr>round_stale := round_stale rd + (if is_stale then 1 else 0)\<rparr>))"

fun patrol_slots ::
  "world \<Rightarrow> ('a, patrol_watch list) hmap \<Rightarrow> ('a \<times> patrol_candidate list) list \<Rightarrow> 'a routes \<Rightarrow>
    'a routes \<times> ('a, patrol_watch list) hmap \<times> patrol_result" where
  "patrol_slots w st [] routes = (routes, [], \<lparr>round_evicted = no_evictions, round_stale = 0\<rparr>)"
| "patrol_slots w st ((ip, cs) # rest) routes =
     (let carried = (case hm_get st ip of None \<Rightarrow> [] | Some xs \<Rightarrow> xs)
      in case patrol_slot w ip carried cs routes of
           (routes1, kept, rd) \<Rightarrow>
             case patrol_slots w (hm_remove ip st) rest routes1 of
               (routes2, nxt, rd') \<Rightarrow>
                 (routes2, if kept = [] then nxt else hm_insert ip kept nxt,
                  \<lparr>round_evicted = evictions_merge (round_evicted rd) (round_evicted rd'),
                   round_stale = round_stale rd + round_stale rd'\<rparr>))"

definition patrol_round ::
  "world \<Rightarrow> ('a, patrol_watch list) hmap \<Rightarrow> 'a routes \<Rightarrow> 'a routes \<times> ('a, patrol_watch list) hmap \<times> patrol_result" where
  "patrol_round w st routes =
     patrol_slots w st (map (\<lambda>(ip, slot). (ip, candidates slot)) (filter (\<lambda>(_, slot). length (senders slot) > 1) routes)) routes"

end
