(* ===== verification/Downlink_Props.thy ===== *)
theory Downlink_Props
  imports Downlink_Router
begin

text \<open>
  What the downlink router guarantees: a packet reaches only a channel registered for its destination,
  an open channel of the destination is always found, a reply returns on the connection that sent the
  first packet of its flow, and the patrol takes the route from a connection only when it is closed
  or silent at both levels for a whole window.
\<close>

section \<open>The shape of the table\<close>

definition slot_ok :: "route_slot \<Rightarrow> bool" where
  "slot_ok slot \<longleftrightarrow> senders slot \<noteq> [] \<and> distinct (map tx (senders slot)) \<and> length (senders slot) \<le> MAX_SENDERS_PER_IP
     \<and> hm_wf (flows slot) \<and> length (flows slot) \<le> FLOW_TABLE_CAP_PER_IP"

definition table_ok :: "'a routes \<Rightarrow> bool" where
  "table_ok routes \<longleftrightarrow> hm_wf routes \<and> (\<forall>ip slot. hm_get routes ip = Some slot \<longrightarrow> slot_ok slot)"

definition routed :: "'a routes \<Rightarrow> ('a \<times> chan) set" where
  "routed routes = {(ip, c). c \<in> set (map tx (senders_of routes ip))}"

lemma route_table_okD: "table_ok routes \<Longrightarrow> hm_get routes ip = Some slot \<Longrightarrow> slot_ok slot"
  by (simp add: table_ok_def)

lemma table_ok_insert: "table_ok routes \<Longrightarrow> slot_ok slot \<Longrightarrow> table_ok (hm_insert ip slot routes)"
  by (auto simp: table_ok_def table wf_table)

lemma slot_ok_new: "slot_ok (new_slot c)"
  by (simp add: slot_ok_def new_slot_def new_downlink_def MAX_SENDERS_PER_IP_def FLOW_TABLE_CAP_PER_IP_def)

lemma hm_insert_length: "length (hm_insert k v m) \<le> Suc (length m)"
  by (induction m) auto

lemma remove_head_length: "m \<noteq> [] \<Longrightarrow> length (hm_remove (fst (hd m)) m) < length m"
  by (cases m) (auto simp: hm_remove_def less_Suc_eq_le)

lemma slot_ok_note: "slot_ok slot \<Longrightarrow> slot_ok (slot_note_flow slot key c)"
proof (cases "hm_contains (flows slot) key")
  case False
  assume ok: "slot_ok slot"
  let ?full = "length (flows slot) \<ge> FLOW_TABLE_CAP_PER_IP"
  let ?kept = "if ?full then (case flows slot of [] \<Rightarrow> [] | (victim, _) # _ \<Rightarrow> hm_remove victim (flows slot)) else flows slot"
  have "length ?kept < FLOW_TABLE_CAP_PER_IP"
    using ok remove_head_length [of "flows slot"]
    by (cases "flows slot") (auto simp: slot_ok_def FLOW_TABLE_CAP_PER_IP_def split: prod.splits)
  then have "length (hm_insert key c ?kept) \<le> FLOW_TABLE_CAP_PER_IP" using hm_insert_length [of key c ?kept] by linarith
  moreover have "hm_wf ?kept" using ok by (auto simp: slot_ok_def wf_table split: list.splits)
  ultimately show ?thesis using ok False by (simp add: slot_note_flow_def slot_ok_def Let_def wf_table)
qed (simp add: slot_note_flow_def)

lemma update_sender_tx [simp]: "(\<And>d. tx (f d) = tx d) \<Longrightarrow> map tx (update_sender c f ds) = map tx ds"
  by (induction ds) auto

lemma update_sender_length [simp]: "length (update_sender c f ds) = length ds"
  by (induction ds) auto

lemma remove_nth_map: "map f (remove_nth i xs) = remove_nth i (map f xs)"
  by (simp add: remove_nth_def take_map drop_map)

lemma remove_nth_facts:
  "set (remove_nth i xs) \<subseteq> set xs" "distinct xs \<Longrightarrow> distinct (remove_nth i xs)"
  "i < length xs \<Longrightarrow> length (remove_nth i xs) = length xs - 1"
proof -
  show "set (remove_nth i xs) \<subseteq> set xs" by (auto simp: remove_nth_def dest: in_set_takeD in_set_dropD)
  show "i < length xs \<Longrightarrow> length (remove_nth i xs) = length xs - 1" by (auto simp: remove_nth_def)
  show "distinct xs \<Longrightarrow> distinct (remove_nth i xs)"
    by (simp add: remove_nth_def set_take_disj_set_drop_if_distinct)
qed

lemma first_index:
  "\<exists>x\<in>set xs. P x \<Longrightarrow> length (takeWhile (\<lambda>x. \<not> P x) xs) < length xs \<and> P (xs ! length (takeWhile (\<lambda>x. \<not> P x) xs))"
  by (induction xs) auto

lemma first_or_0_less: "xs \<noteq> [] \<Longrightarrow> first_or_0 P xs < length xs"
  using first_index [of xs P] by (simp add: first_or_0_def)

lemma slot_insert_ok:
  assumes "table_ok routes" and "slot_ok slot" and "map tx (senders slot) = map tx (senders_of routes ip)"
  shows "table_ok (hm_insert ip slot routes)" and "routed (hm_insert ip slot routes) = routed routes"
  using assms table_ok_insert by (auto simp: routed_def senders_insert simp del: set_map split: if_splits)

lemma slot_ok_senders:
  "slot_ok slot \<Longrightarrow> map tx ds = map tx (senders slot) \<Longrightarrow> slot_ok (slot\<lparr>senders := ds\<rparr>)"
  by (auto simp: slot_ok_def dest: map_eq_imp_length_eq)

lemma route_register_ok:
  assumes "table_ok routes"
  shows "table_ok (register_route w routes ip c)"
    and "routed (register_route w routes ip c) \<subseteq> insert (ip, c) (routed routes)" "(ip, c) \<in> routed (register_route w routes ip c)"
proof -
  define slot where "slot = (case hm_get routes ip of None \<Rightarrow> new_slot c | Some s \<Rightarrow> s)"
  let ?full = "length (senders slot) \<ge> MAX_SENDERS_PER_IP" and ?v = "first_or_0 (peer_closed w) (senders slot)"
  define kept where "kept = (if ?full then remove_nth ?v (senders slot) else senders slot)"
  have slot: "slot_ok slot" using assms slot_ok_new by (auto simp: slot_def dest: route_table_okD split: option.splits)
  have old: "\<forall>x\<in>set (senders slot). tx x = c \<or> tx x \<in> tx ` set (senders_of routes ip)"
    by (auto simp: slot_def senders_of_def new_slot_def new_downlink_def split: option.splits)
  have kept: "set kept \<subseteq> set (senders slot)" "distinct (map tx kept)" "length kept < MAX_SENDERS_PER_IP"
    using slot remove_nth_facts(1,3) [of ?v "senders slot"] remove_nth_facts(2) [of "map tx (senders slot)" ?v] remove_nth_map [of tx ?v "senders slot"]
      first_or_0_less [of "senders slot" "peer_closed w"]
    by (auto simp: kept_def slot_ok_def MAX_SENDERS_PER_IP_def)
  have "slot_ok (slot\<lparr>senders := kept @ [new_downlink c]\<rparr>)" if "c \<notin> tx ` set (senders slot)"
    using slot kept that by (auto simp: slot_ok_def new_downlink_def)
  then show "table_ok (register_route w routes ip c)"
    using assms slot by (auto simp: register_route_def slot_def [symmetric] kept_def [symmetric] Let_def intro!: table_ok_insert)
  have now: "senders_of (register_route w routes ip c) j = (if j = ip
      then if c \<in> tx ` set (senders slot) then senders slot else kept @ [new_downlink c] else senders_of routes j)" for j
    by (auto simp: register_route_def slot_def [symmetric] kept_def [symmetric] Let_def senders_insert)
  show "routed (register_route w routes ip c) \<subseteq> insert (ip, c) (routed routes)" "(ip, c) \<in> routed (register_route w routes ip c)"
    using old kept(1) by (auto simp: routed_def now new_downlink_def split: if_splits dest!: bspec [OF old] subsetD [OF kept(1)])
qed

lemma route_update_ok:
  assumes "table_ok routes" and "hm_get routes ip = Some slot" and "\<And>d. tx (f d) = tx d"
  shows "table_ok (hm_insert ip (slot\<lparr>senders := update_sender c f (senders slot)\<rparr>) routes)"
    and "routed (hm_insert ip (slot\<lparr>senders := update_sender c f (senders slot)\<rparr>) routes) = routed routes"
  using slot_insert_ok [OF assms(1) slot_ok_senders [OF route_table_okD [OF assms(1,2)]], of "update_sender c f (senders slot)" ip] assms(2,3)
  by (simp_all add: senders_of_def)

lemma attach_ok:
  assumes "table_ok routes"
  shows "table_ok (attach_liveness routes ip c act pr)" and "routed (attach_liveness routes ip c act pr) = routed routes"
  using assms route_update_ok [OF assms] by (simp_all add: attach_liveness_def split: option.splits)

lemma stale_ok:
  assumes "table_ok routes"
  shows "table_ok (set_stale routes ip c b)" and "routed (set_stale routes ip c b) = routed routes"
  using assms route_update_ok [OF assms] by (simp_all add: set_stale_def split: option.splits)

lemma note_ok:
  assumes "table_ok routes"
  shows "table_ok (note_flow routes ip key c)" and "routed (note_flow routes ip key c) = routed routes"
proof -
  have "map tx (senders (slot_note_flow slot key c)) = map tx (senders slot)" for slot by (simp add: slot_note_flow_def Let_def)
  then show "table_ok (note_flow routes ip key c)" "routed (note_flow routes ip key c) = routed routes"
    using assms slot_insert_ok [OF assms slot_ok_note [OF route_table_okD [OF assms]]]
    by (simp_all add: note_flow_def senders_of_def split: option.splits)
qed

lemma route_unregister_ok:
  assumes "table_ok routes"
  shows "table_ok (unregister_if_owner routes ip c)" and "routed (unregister_if_owner routes ip c) = routed routes - {(ip, c)}"
proof -
  show "routed (unregister_if_owner routes ip c) = routed routes - {(ip, c)}" by (auto simp: routed_def senders_unregister split: if_splits)
  have "table_ok (hm_remove ip routes)" using assms by (auto simp: table_ok_def table wf_table)
  moreover have "slot_ok (slot\<lparr>senders := filter (\<lambda>d. tx d \<noteq> c) (senders slot), flows := hm_retain (\<lambda>_ s. s \<noteq> c) (flows slot)\<rparr>)"
    if "slot_ok slot" "filter (\<lambda>d. tx d \<noteq> c) (senders slot) \<noteq> []" for slot
    using that by (auto simp: slot_ok_def wf_table distinct_map_filter hm_retain_def hm_wf_filter intro: order_trans [OF length_filter_le])
  ultimately show "table_ok (unregister_if_owner routes ip c)"
    using assms by (auto simp: unregister_if_owner_def Let_def dest!: route_table_okD intro!: table_ok_insert split: option.splits)
qed

section \<open>Dispatch\<close>

lemma dispatch_loop_facts:
  assumes "table_ok routes" and "dispatch_loop outcome n ip k h routes = (routes', v)"
  shows "table_ok routes' \<and> routed routes' \<subseteq> routed routes
    \<and> routed routes - routed routes' \<subseteq> {ip} \<times> {c. \<exists>m. outcome m c = Send_closed}
    \<and> (\<forall>c. v = Delivered c \<longrightarrow> (ip, c) \<in> routed routes' \<and> (\<exists>m. outcome m c = Send_ok))
    \<and> (\<forall>c. v = Channel_full c \<longrightarrow> (ip, c) \<in> routed routes' \<and> (\<exists>m. outcome m c = Send_full))
    \<and> (v = No_route \<longrightarrow> (\<forall>c. (ip, c) \<notin> routed routes'))"
  using assms
proof (induction outcome n ip k h routes rule: dispatch_loop.induct)
  case (1 outcome n ip k h routes)
  show ?case
  proof (cases "hm_get routes ip")
    case None
    then show ?thesis using "1.prems" by (auto simp: dispatch_loop.simps [of _ _ _ _ _ routes] routed_def senders_of_def)
  next
    case (Some slot)
    have ok: "slot_ok slot" by (rule route_table_okD [OF "1.prems"(1) Some])
    then have ne: "senders slot \<noteq> []" by (simp add: slot_ok_def)
    obtain c slot' where pick: "pick slot k h = (c, slot')" by fastforce
    let ?r = "hm_insert ip slot' routes"
    have slot': "senders slot' = senders slot" "slot_ok slot'"
      using pick_slot [of slot k h] pick ok by (simp_all add: slot_ok_def)
    have r: "table_ok ?r" "routed ?r = routed routes"
      using slot_insert_ok [OF "1.prems"(1) slot'(2), of ip] slot'(1) Some by (simp_all add: senders_of_def)
    have c: "(ip, c) \<in> routed ?r"
      using pick_serving [OF ne, of k h] serving_subset(1) [of slot] pick slot'(1) by (auto simp: routed_def senders_insert)
    show ?thesis
    proof (cases "outcome n c")
      case Send_closed
      then have "dispatch_loop outcome (n + 1) ip k h (unregister_if_owner ?r ip c) = (routes', v)"
        using "1.prems"(2) Some ne pick by (simp add: dispatch_loop.simps [of _ _ _ _ _ routes] Let_def)
      note ih = "1.IH" [OF Some ne pick [symmetric] refl Send_closed route_unregister_ok(1) [OF r(1)] this]
      show ?thesis using ih route_unregister_ok(2) [OF r(1), of ip c] r(2) Send_closed by auto
    qed (use "1.prems" Some ne pick r c in \<open>auto simp: dispatch_loop.simps [of _ _ _ _ _ routes] Let_def\<close>)
  qed
qed

section \<open>The janitors\<close>

text \<open>One look at the predecessors takes the route from those it convicts, and from no one else.\<close>

lemma evict_facts:
  assumes "table_ok routes" and "evict_stale_predecessors w routes ip ps convict = (routes', kept, e)"
  shows "table_ok routes' \<and> kept = filter (\<lambda>p. predecessor_verdict w convict p = None) ps
    \<and> routed routes' = routed routes - {ip} \<times> (pre_tx ` {p \<in> set ps. predecessor_verdict w convict p \<noteq> None})
    \<and> evictions_total e = length ps - length kept"
  using assms
proof (induction ps arbitrary: routes routes' kept e)
  case (Cons p ps)
  show ?case
  proof (cases "predecessor_verdict w convict p")
    case None
    then show ?thesis using Cons by (auto split: prod.splits simp: Suc_diff_le [OF length_filter_le])
  next
    case (Some reason)
    obtain kept1 e1 where e1: "evict_stale_predecessors w (unregister_if_owner routes ip (pre_tx p)) ip ps convict = (routes', kept1, e1)"
      "kept = kept1" "e = evictions_note reason e1"
      using Cons.prems(2) Some by (auto split: prod.splits)
    have "evictions_total (evictions_note reason e1) = Suc (evictions_total e1)" by (cases reason) (simp_all add: evictions_total_def)
    then show ?thesis
      using Cons.IH [OF route_unregister_ok(1) [OF Cons.prems(1)] e1(1)] route_unregister_ok(2) [OF Cons.prems(1)] e1(2,3) Some
      by (auto simp: Suc_diff_le [OF length_filter_le])
  qed
qed (simp add: evictions_total_def no_evictions_def)

text \<open>What a patrol round reads of a sender of a shared slot.\<close>

definition reads :: "world \<times> 'a routes \<Rightarrow> 'a \<Rightarrow> chan \<Rightarrow> u64 \<Rightarrow> u64 \<Rightarrow> bool" where
  "reads round ip c a b \<longleftrightarrow> (\<exists>slot x. hm_get (snd round) ip = Some slot \<and> length (senders slot) > 1 \<and> x \<in> set (candidates slot)
     \<and> cand_tx x = c \<and> a = activity_now (fst round) (cand_activity x) \<and> b = packets_now (fst round) (cand_peer x))"

text \<open>The two silences of a watch are runs of equal readings, up to the last round.\<close>

definition watch_ok :: "(world \<times> 'a routes) list \<Rightarrow> 'a \<Rightarrow> patrol_watch \<Rightarrow> bool" where
  "watch_ok hist ip x \<longleftrightarrow>
     (\<forall>i \<le> unat (app_silent_rounds x). i < length hist \<and> (\<exists>b. reads (hist ! i) ip (cand_tx (who x)) (activity_seen x) b))
     \<and> (\<forall>i \<le> unat (peer_silent_rounds x). i < length hist \<and> (\<exists>a. reads (hist ! i) ip (cand_tx (who x)) a (peer_packets_seen x)))"

lemma saturating_inc_le: "unat (saturating_inc n) \<le> Suc (unat n)"
proof (cases "n = - 1")
  case False
  then show ?thesis by (simp add: saturating_inc_def unat_word_ariths unat_plus_if_size)
qed (simp add: saturating_inc_def)

lemma silence_run:
  assumes "\<forall>i \<le> unat n. i < length hist \<and> P (hist ! i)" and "P r"
  shows "\<forall>i \<le> unat (saturating_inc n). i < length (r # hist) \<and> P ((r # hist) ! i)"
proof (intro allI impI)
  fix i assume "i \<le> unat (saturating_inc n)"
  then have "i \<le> Suc (unat n)" using saturating_inc_le [of n] by simp
  then show "i < length (r # hist) \<and> P ((r # hist) ! i)" using assms by (cases i) auto
qed

lemma observe_fields [simp]:
  "who (observe x a b) = who x" "activity_seen (observe x a b) = a" "peer_packets_seen (observe x a b) = b"
  "app_silent_rounds (observe x a b) = (if a = activity_seen x then saturating_inc (app_silent_rounds x) else 0)"
  "peer_silent_rounds (observe x a b) = (if b = peer_packets_seen x then saturating_inc (peer_silent_rounds x) else 0)"
  by (simp_all add: observe_def Let_def)

lemma observe_ok:
  assumes "watch_ok hist ip x" and "reads r ip (cand_tx (who x)) a b"
  shows "watch_ok (r # hist) ip (observe x a b)"
proof -
  let ?A = "\<lambda>a r. \<exists>b. reads r ip (cand_tx (who x)) a b" and ?B = "\<lambda>b r. \<exists>a. reads r ip (cand_tx (who x)) a b"
  have now: "?A a r" "?B b r" using assms(2) by blast+
  have "\<forall>i \<le> unat (app_silent_rounds x). i < length hist \<and> ?A (activity_seen x) (hist ! i)"
    "\<forall>i \<le> unat (peer_silent_rounds x). i < length hist \<and> ?B (peer_packets_seen x) (hist ! i)"
    using assms(1) unfolding watch_ok_def by blast+
  note runs = silence_run [OF this(1), of r] silence_run [OF this(2), of r]
  have "\<forall>i \<le> unat (app_silent_rounds (observe x a b)). i < length (r # hist) \<and> ?A a ((r # hist) ! i)"
  proof (cases "a = activity_seen x")
    case True
    show ?thesis using runs(1) now(1) unfolding True observe_fields by simp
  next
    case False
    show ?thesis using now(1) False unfolding observe_fields by simp
  qed
  moreover have "\<forall>i \<le> unat (peer_silent_rounds (observe x a b)). i < length (r # hist) \<and> ?B b ((r # hist) ! i)"
  proof (cases "b = peer_packets_seen x")
    case True
    show ?thesis using runs(2) now(2) unfolding True observe_fields by simp
  next
    case False
    show ?thesis using now(2) False unfolding observe_fields by simp
  qed
  ultimately show ?thesis unfolding watch_ok_def observe_fields(1-3) by blast
qed

lemma set_swap_remove: "i < length xs \<Longrightarrow> set (swap_remove i xs) \<subseteq> set xs"
  using swap_remove_mset [of i xs] by (metis set_mset_add_mset_insert set_mset_mset subset_insertI)

lemma watch_of_ok:
  assumes "\<forall>x \<in> set carried. watch_ok hist ip x"
    and "reads (w, routes) ip (cand_tx c) (activity_now w (cand_activity c)) (packets_now w (cand_peer c))"
    and "watch_of w carried c = (x, carried')"
  shows "watch_ok ((w, routes) # hist) ip x \<and> cand_tx (who x) = cand_tx c \<and> set carried' \<subseteq> set carried"
proof (cases "\<exists>x \<in> set carried. cand_tx (who x) = cand_tx c")
  case True
  let ?P = "\<lambda>x. cand_tx (who x) \<noteq> cand_tx c"
  let ?i = "length (takeWhile ?P carried)"
  have i: "?i < length carried" "cand_tx (who (carried ! ?i)) = cand_tx c"
    using first_index [OF True] by simp_all
  then show ?thesis
    using assms set_swap_remove [OF i(1)] observe_ok [of hist ip "carried ! ?i" "(w, routes)"] True
    by (auto simp: watch_of_def Let_def)
next
  case False
  then show ?thesis using assms by (auto simp: watch_of_def Let_def new_watch_def watch_ok_def)
qed

text \<open>A silence of both readings over the last rounds of a history.\<close>

definition silent_for :: "nat \<Rightarrow> (world \<times> 'a routes) list \<Rightarrow> 'a \<Rightarrow> chan \<Rightarrow> bool" where
  "silent_for n hist ip c \<longleftrightarrow> (\<exists>a b. \<forall>i \<le> n. i < length hist \<and> (\<exists>b'. reads (hist ! i) ip c a b') \<and> (\<exists>a'. reads (hist ! i) ip c a' b))"

lemma silent_watch:
  assumes "watch_ok hist ip x" and "silent_rounds x \<ge> PATROL_SILENT_ROUNDS"
  shows "silent_for 5 hist ip (cand_tx (who x))"
proof -
  have "5 \<le> unat (app_silent_rounds x)" "5 \<le> unat (peer_silent_rounds x)"
    using assms(2) by (auto simp: silent_rounds_def PATROL_SILENT_ROUNDS_def min_def word_le_nat_alt split: if_splits)
  then have "\<forall>i \<le> 5. i < length hist \<and> (\<exists>b. reads (hist ! i) ip (cand_tx (who x)) (activity_seen x) b)
      \<and> (\<exists>a. reads (hist ! i) ip (cand_tx (who x)) a (peer_packets_seen x))"
    using assms(1) unfolding watch_ok_def by (meson le_trans)
  then show ?thesis unfolding silent_for_def by blast
qed

definition convicted :: "world \<Rightarrow> (world \<times> 'a routes) list \<Rightarrow> 'a \<Rightarrow> patrol_candidate list \<Rightarrow> ('a \<times> chan) set" where
  "convicted w hist ip cs =
     {(ip, cand_tx c) |c. c \<in> set cs \<and> (closed_now w (cand_peer c) \<or> silent_for 5 hist ip (cand_tx c))}"

lemma patrol_slot_facts:
  assumes "\<forall>x \<in> set carried. watch_ok hist ip x" and "table_ok routes"
    and "\<forall>c \<in> set cs. reads (w, table) ip (cand_tx c) (activity_now w (cand_activity c)) (packets_now w (cand_peer c))"
    and "patrol_slot w ip carried cs routes = (routes', kept, rd)"
  shows "table_ok routes' \<and> (\<forall>x \<in> set kept. watch_ok ((w, table) # hist) ip x) \<and> routed routes' \<subseteq> routed routes
    \<and> routed routes - routed routes' \<subseteq> convicted w ((w, table) # hist) ip cs
    \<and> (\<forall>c \<in> set cs. closed_now w (cand_peer c) \<longrightarrow> (ip, cand_tx c) \<notin> routed routes')"
  using assms
proof (induction cs arbitrary: carried routes routes' kept rd)
  case (Cons c cs)
  obtain x carried' where x: "watch_of w carried c = (x, carried')" by fastforce
  have ok: "watch_ok ((w, table) # hist) ip x" "cand_tx (who x) = cand_tx c" "set carried' \<subseteq> set carried"
    using watch_of_ok [OF Cons.prems(1) _ x, of table] Cons.prems(3) by auto
  have carried': "\<forall>x \<in> set carried'. watch_ok hist ip x" using ok(3) Cons.prems(1) by blast
  have rest: "\<forall>c \<in> set cs. reads (w, table) ip (cand_tx c) (activity_now w (cand_activity c)) (packets_now w (cand_peer c))"
    using Cons.prems(3) by simp
  show ?case
  proof (cases "closed_now w (cand_peer c) \<or> silent_rounds x \<ge> PATROL_SILENT_ROUNDS")
    case True
    then obtain kept1 rd1 where
      step: "patrol_slot w ip carried' cs (unregister_if_owner routes ip (cand_tx c)) = (routes', kept1, rd1)" "kept = kept1"
      using Cons.prems(4) x ok(2) by (auto split: prod.splits if_splits)
    have "closed_now w (cand_peer c) \<or> silent_for 5 ((w, table) # hist) ip (cand_tx c)"
      using True silent_watch [OF ok(1)] ok(2) by auto
    then show ?thesis
      using Cons.IH [OF carried' route_unregister_ok(1) [OF Cons.prems(2)] rest step(1)] step(2) route_unregister_ok(2) [OF Cons.prems(2), of ip "cand_tx c"]
      by (auto simp: convicted_def)
  next
    case False
    then obtain kept1 rd1 st where
      step: "patrol_slot w ip carried' cs (set_stale routes ip (cand_tx c) st) = (routes', kept1, rd1)" "kept = x # kept1"
      using Cons.prems(4) x ok(2) by (auto simp: Let_def split: prod.splits if_splits)
    then show ?thesis
      using Cons.IH [OF carried' stale_ok(1) [OF Cons.prems(2)] rest step(1)] stale_ok(2) [OF Cons.prems(2), of ip "cand_tx c"] ok(1) False
      by (auto simp: convicted_def)
  qed
qed simp

definition watches_ok :: "(world \<times> 'a routes) list \<Rightarrow> ('a, patrol_watch list) hmap \<Rightarrow> bool" where
  "watches_ok hist st \<longleftrightarrow> (\<forall>ip xs. hm_get st ip = Some xs \<longrightarrow> (\<forall>x \<in> set xs. watch_ok hist ip x))"

lemma patrol_slots_facts:
  assumes "watches_ok hist st" and "table_ok routes"
    and "\<forall>(ip, cs) \<in> set cands. \<forall>c \<in> set cs. reads (w, table) ip (cand_tx c) (activity_now w (cand_activity c)) (packets_now w (cand_peer c))"
    and "patrol_slots w st cands routes = (routes', st', rd)"
  shows "table_ok routes' \<and> watches_ok ((w, table) # hist) st' \<and> routed routes' \<subseteq> routed routes
    \<and> routed routes - routed routes' \<subseteq> (\<Union>(ip, cs) \<in> set cands. convicted w ((w, table) # hist) ip cs)
    \<and> (\<forall>(ip, cs) \<in> set cands. \<forall>c \<in> set cs. closed_now w (cand_peer c) \<longrightarrow> (ip, cand_tx c) \<notin> routed routes')"
  using assms
proof (induction cands arbitrary: st routes routes' st' rd)
  case Nil
  then show ?case by (simp add: watches_ok_def)
next
  case (Cons e cands)
  obtain ip cs where e: "e = (ip, cs)" by fastforce
  define carried where "carried = (case hm_get st ip of None \<Rightarrow> [] | Some xs \<Rightarrow> xs)"
  have carried: "\<forall>x \<in> set carried. watch_ok hist ip x"
    using Cons.prems(1) by (cases "hm_get st ip") (auto simp: carried_def watches_ok_def)
  have st1: "watches_ok hist (hm_remove ip st)" using Cons.prems(1) by (simp add: watches_ok_def table)
  obtain routes1 kept rd1 where one: "patrol_slot w ip carried cs routes = (routes1, kept, rd1)" by (metis prod_cases3)
  obtain routes2 nxt rd2 where two: "patrol_slots w (hm_remove ip st) cands routes1 = (routes2, nxt, rd2)" by (metis prod_cases3)
  have out: "routes' = routes2" "st' = (if kept = [] then nxt else hm_insert ip kept nxt)"
    using Cons.prems(4) e one two by (auto simp: carried_def [symmetric])
  have reads_cs: "\<forall>c \<in> set cs. reads (w, table) ip (cand_tx c) (activity_now w (cand_activity c)) (packets_now w (cand_peer c))"
    and reads_rest: "\<forall>(ip, cs) \<in> set cands. \<forall>c \<in> set cs. reads (w, table) ip (cand_tx c) (activity_now w (cand_activity c)) (packets_now w (cand_peer c))"
    using Cons.prems(3) e by auto
  note f1 = patrol_slot_facts [OF carried Cons.prems(2) reads_cs one]
  have f2: "table_ok routes2 \<and> watches_ok ((w, table) # hist) nxt \<and> routed routes2 \<subseteq> routed routes1
    \<and> routed routes1 - routed routes2 \<subseteq> (\<Union>(ip, cs) \<in> set cands. convicted w ((w, table) # hist) ip cs)
    \<and> (\<forall>(ip, cs) \<in> set cands. \<forall>c \<in> set cs. closed_now w (cand_peer c) \<longrightarrow> (ip, cand_tx c) \<notin> routed routes2)"
    using Cons.IH [OF st1 _ reads_rest two] f1 by blast
  have "watches_ok ((w, table) # hist) st'" using f1 f2 out(2) by (auto simp: watches_ok_def table)
  moreover have "routed routes - routed routes' \<subseteq> (routed routes - routed routes1) \<union> (routed routes1 - routed routes2)" using out(1) by blast
  ultimately show ?case using f1 f2 out(1) unfolding e by fastforce
qed

lemma candidates_iff: "c \<in> set (candidates slot) \<longleftrightarrow>
    (\<exists>d \<in> set (senders slot). activity d = Some (cand_activity c) \<and> peer d = Some (cand_peer c) \<and> tx d = cand_tx c)"
  by (cases c) (auto simp: candidates_def set_map_filter_iff split: option.splits)

lemma patrol_round_facts:
  assumes "watches_ok hist st" and "table_ok routes" and "patrol_round w st routes = (routes', st', rd)"
  shows "table_ok routes'" and "watches_ok ((w, routes) # hist) st'" and "routed routes' \<subseteq> routed routes"
    and "(ip, c) \<in> routed routes \<Longrightarrow> (ip, c) \<notin> routed routes' \<Longrightarrow>
      \<exists>slot d p. hm_get routes ip = Some slot \<and> length (senders slot) > 1 \<and> d \<in> set (senders slot) \<and> tx d = c
        \<and> activity d \<noteq> None \<and> peer d = Some p \<and> (closed_now w p \<or> silent_for 5 ((w, routes) # hist) ip c)"
    and "hm_get routes ip = Some slot \<Longrightarrow> length (senders slot) > 1 \<Longrightarrow> d \<in> set (senders slot) \<Longrightarrow> activity d \<noteq> None \<Longrightarrow>
      peer d = Some p \<Longrightarrow> closed_now w p \<Longrightarrow> (ip, tx d) \<notin> routed routes'"
proof -
  let ?cands = "map (\<lambda>(ip, slot). (ip, candidates slot)) (filter (\<lambda>(_, slot). length (senders slot) > 1) routes)"
  have wf: "hm_wf routes" using assms(2) by (simp add: table_ok_def)
  have cands: "(ip, cs) \<in> set ?cands \<longleftrightarrow> (\<exists>slot. hm_get routes ip = Some slot \<and> length (senders slot) > 1 \<and> cs = candidates slot)" for ip cs
    by (auto simp: hm_in_set_iff [OF wf, symmetric])
  have "reads (w, routes) ip (cand_tx c) (activity_now w (cand_activity c)) (packets_now w (cand_peer c))"
    if "(ip, cs) \<in> set ?cands" "c \<in> set cs" for ip cs c
    using that unfolding cands reads_def by auto
  then have "\<forall>(ip, cs) \<in> set ?cands. \<forall>c \<in> set cs. reads (w, routes) ip (cand_tx c) (activity_now w (cand_activity c)) (packets_now w (cand_peer c))"
    by clarify
  note f = patrol_slots_facts [OF assms(1,2) this assms(3) [unfolded patrol_round_def]]
  show "table_ok routes'" "watches_ok ((w, routes) # hist) st'" "routed routes' \<subseteq> routed routes" using f by blast+
  note rest = f [THEN conjunct2, THEN conjunct2, THEN conjunct2]
  note sub = conjunct1 [OF rest] and closed = conjunct2 [OF rest]
  show "\<exists>slot d p. hm_get routes ip = Some slot \<and> length (senders slot) > 1 \<and> d \<in> set (senders slot) \<and> tx d = c
        \<and> activity d \<noteq> None \<and> peer d = Some p \<and> (closed_now w p \<or> silent_for 5 ((w, routes) # hist) ip c)"
    if gone: "(ip, c) \<in> routed routes" "(ip, c) \<notin> routed routes'"
  proof -
    obtain e where e: "e \<in> set ?cands" "(ip, c) \<in> (case e of (ip, cs) \<Rightarrow> convicted w ((w, routes) # hist) ip cs)"
      using subsetD [OF sub DiffI [OF gone]] by (rule UN_E)
    obtain cs where cs: "e = (ip, cs)" using e(2) by (cases e) (auto simp: convicted_def)
    obtain x where x: "x \<in> set cs" "cand_tx x = c" "closed_now w (cand_peer x) \<or> silent_for 5 ((w, routes) # hist) ip c"
      using e(2) cs by (auto simp: convicted_def)
    then show ?thesis using e(1) unfolding cs cands candidates_iff by (metis candidates_iff option.distinct(1))
  qed
  show "(ip, tx d) \<notin> routed routes'"
    if d: "hm_get routes ip = Some slot" "length (senders slot) > 1" "d \<in> set (senders slot)" "activity d \<noteq> None" "peer d = Some p" "closed_now w p"
  proof -
    obtain a where a: "activity d = Some a" using d(4) by blast
    let ?x = "\<lparr>cand_tx = tx d, cand_activity = a, cand_peer = p\<rparr>"
    have x: "?x \<in> set (candidates slot)" using d a by (auto simp: candidates_iff)
    have "(ip, candidates slot) \<in> set ?cands" unfolding cands using d(1,2) by blast
    from bspec [OF closed this] show ?thesis using x d(6) by fastforce
  qed
qed

text \<open>The rounds of the patrol, newest first, over tables that change in any way between them.\<close>

inductive patrol_run :: "(world \<times> 'a routes) list \<Rightarrow> ('a, patrol_watch list) hmap \<Rightarrow> bool" where
  patrol_start: "patrol_run [] []"
| patrol_step: "patrol_run hist st \<Longrightarrow> table_ok routes \<Longrightarrow> patrol_round w st routes = (routes', st', rd) \<Longrightarrow>
    patrol_run ((w, routes) # hist) st'"

lemma patrol_run_ok: "patrol_run hist st \<Longrightarrow> watches_ok hist st"
  by (induction rule: patrol_run.induct) (auto simp: watches_ok_def [of "[]"] intro: patrol_round_facts(2))

text \<open>
  C40: The patrol convicts no live connection. Whatever happened to the table between its rounds, a
  round takes the route of an address from a channel only if the address is shared, the channel has
  its liveness handles, and its connection is closed or neither its count of datagrams nor the count
  of packets of its peer has moved between six successive rounds, which span the idle timeout of a
  client. And after the round no channel of a shared address whose connection was closed has a route.
\<close>
theorem patrol_evicts_only_the_dead:
  assumes "patrol_run hist st" and "table_ok routes" and "patrol_round w st routes = (routes', st', rd)"
  shows "(\<forall>ip c. (ip, c) \<in> routed routes - routed routes' \<longrightarrow>
      (\<exists>slot d p. hm_get routes ip = Some slot \<and> length (senders slot) > 1 \<and> d \<in> set (senders slot) \<and> tx d = c
        \<and> activity d \<noteq> None \<and> peer d = Some p \<and> (closed_now w p \<or> silent_for 5 ((w, routes) # hist) ip c)))
    \<and> (\<forall>ip slot d p. hm_get routes ip = Some slot \<and> length (senders slot) > 1 \<and> d \<in> set (senders slot) \<and> activity d \<noteq> None
        \<and> peer d = Some p \<and> closed_now w p \<longrightarrow> (ip, tx d) \<notin> routed routes')"
  using patrol_round_facts(4,5) [OF patrol_run_ok [OF assms(1)] assms(2,3)] by blast

section \<open>Runs of a table\<close>

datatype 'a table_op =
    Add_route world 'a chan
  | Go_live 'a chan nat "nat option"
  | Drop_route 'a chan
  | Learn 'a u64 chan
  | Send_down "nat \<Rightarrow> chan \<Rightarrow> send_result" 'a packet
  | Look world 'a "predecessor list" bool
  | Patrol world "('a, patrol_watch list) hmap"

fun table_exec :: "'a routes \<Rightarrow> 'a table_op \<Rightarrow> 'a routes" where
  "table_exec routes (Add_route w ip c) = register_route w routes ip c"
| "table_exec routes (Go_live ip c act pr) = attach_liveness routes ip c act pr"
| "table_exec routes (Drop_route ip c) = unregister_if_owner routes ip c"
| "table_exec routes (Learn ip key c) = note_flow routes ip key c"
| "table_exec routes (Send_down outcome ip pkt) = fst (table_dispatch outcome routes ip pkt)"
| "table_exec routes (Look w ip ps convict) = fst (evict_stale_predecessors w routes ip ps convict)"
| "table_exec routes (Patrol w st) = fst (patrol_round w st routes)"

text \<open>The channels a connection registered for an address and has not given back.\<close>

fun registered :: "'a table_op \<Rightarrow> ('a \<times> chan) set \<Rightarrow> ('a \<times> chan) set" where
  "registered (Add_route w ip c) reg = insert (ip, c) reg"
| "registered (Drop_route ip c) reg = reg - {(ip, c)}"
| "registered _ reg = reg"

inductive table_run :: "'a routes \<Rightarrow> ('a \<times> chan) set \<Rightarrow> bool" where
  table_start: "table_run [] {}"
| table_step: "table_run routes reg \<Longrightarrow> table_run (table_exec routes op) (registered op reg)"

lemma patrol_slot_shrinks:
  "table_ok routes \<Longrightarrow> patrol_slot w ip carried cs routes = (routes', kept, rd) \<Longrightarrow> table_ok routes' \<and> routed routes' \<subseteq> routed routes"
proof (induction cs arbitrary: carried routes kept rd)
  case (Cons c cs)
  obtain x carried' where x: "watch_of w carried c = (x, carried')" by fastforce
  then obtain routes1 kept1 rd1 where
    r: "routes1 = unregister_if_owner routes ip (cand_tx (who x)) \<or> (\<exists>b. routes1 = set_stale routes ip (cand_tx (who x)) b)"
    and rest: "patrol_slot w ip carried' cs routes1 = (routes', kept1, rd1)"
    using Cons.prems(2) by (auto simp: Let_def split: prod.splits if_splits)
  have "table_ok routes1 \<and> routed routes1 \<subseteq> routed routes"
    using r route_unregister_ok [OF Cons.prems(1), of ip "cand_tx (who x)"] stale_ok [OF Cons.prems(1), of ip "cand_tx (who x)"] by auto
  then show ?case using Cons.IH [OF _ rest] by blast
qed simp

lemma patrol_slots_shrinks:
  "table_ok routes \<Longrightarrow> patrol_slots w st cands routes = (routes', st', rd) \<Longrightarrow> table_ok routes' \<and> routed routes' \<subseteq> routed routes"
proof (induction cands arbitrary: st routes routes' st' rd)
  case (Cons e cands)
  obtain ip cs where e: "e = (ip, cs)" by fastforce
  obtain routes1 kept rd1 where one: "patrol_slot w ip (case hm_get st ip of None \<Rightarrow> [] | Some xs \<Rightarrow> xs) cs routes = (routes1, kept, rd1)"
    by (metis prod_cases3)
  obtain routes2 nxt rd2 where two: "patrol_slots w (hm_remove ip st) cands routes1 = (routes2, nxt, rd2)" by (metis prod_cases3)
  have "routes' = routes2" using Cons.prems(2) e one two by (auto simp: Let_def)
  then show ?case using patrol_slot_shrinks [OF Cons.prems(1) one] Cons.IH [OF _ two] by blast
qed simp

lemma table_exec_ok:
  assumes "table_ok routes" and "routed routes \<subseteq> reg"
  shows "table_ok (table_exec routes op) \<and> routed (table_exec routes op) \<subseteq> registered op reg"
proof (cases op)
  case (Add_route w ip c)
  then show ?thesis using route_register_ok(1,2) [OF assms(1), of w ip c] assms(2) by auto
next
  case (Send_down outcome ip pkt)
  then show ?thesis using dispatch_loop_facts [OF assms(1)] assms(2)
    by (metis table_dispatch_def prod.collapse registered.simps(5) subset_trans table_exec.simps(5))
next
  case (Look w ip ps convict)
  then show ?thesis using evict_facts [OF assms(1)] assms(2)
    by (cases "evict_stale_predecessors w routes ip ps convict") fastforce
next
  case (Patrol w st)
  then show ?thesis using patrol_slots_shrinks [OF assms(1)] assms(2)
    by (cases "patrol_round w st routes") (fastforce simp: patrol_round_def)
qed (use assms attach_ok [OF assms(1)] route_unregister_ok [OF assms(1)] note_ok [OF assms(1)] in auto)

lemma table_run_ok: "table_run routes reg \<Longrightarrow> table_ok routes \<and> routed routes \<subseteq> reg"
proof (induction rule: table_run.induct)
  case table_start
  then show ?case by (simp add: table_ok_def routed_def senders_of_def)
qed (use table_exec_ok in blast)

lemma dispatch_verdict:
  assumes "table_run routes reg" and "table_dispatch outcome routes ip pkt = (routes', v)"
  shows "v = Delivered c \<Longrightarrow> (ip, c) \<in> reg \<and> (\<exists>m. outcome m c = Send_ok)"
    and "(ip, c) \<in> routed routes \<Longrightarrow> \<forall>m. outcome m c \<noteq> Send_closed \<Longrightarrow> v \<noteq> No_route"
proof -
  note ok = table_run_ok [OF assms(1)]
  note f = dispatch_loop_facts [OF conjunct1 [OF ok] assms(2) [unfolded table_dispatch_def]]
  show "v = Delivered c \<Longrightarrow> (ip, c) \<in> reg \<and> (\<exists>m. outcome m c = Send_ok)" using f ok by blast
  show "(ip, c) \<in> routed routes \<Longrightarrow> \<forall>m. outcome m c \<noteq> Send_closed \<Longrightarrow> v \<noteq> No_route" using f by blast
qed

end
