(* ===== verification/Downlink_Flows.thy ===== *)
theory Downlink_Flows
  imports Downlink_Props
begin

text \<open>
  The router on whole packets, over both families: where a downlink packet may go, that a reply
  returns on the connection whose uplink opened the flow, and evaluated runs.
\<close>

section \<open>Delivery\<close>

text \<open>
  C38: A downlink packet reaches only a connection registered for its destination, and an open one is
  found. Through any history of registrations, departures, learned flows, deliveries, takeover looks
  and patrol rounds on both tables, a packet the router delivers goes to a channel that was registered
  for the packet's own destination address and not given back since; and as long as some channel with
  a route for the destination is open, the packet is not dropped for want of a route, however many
  closed channels the choice falls on first.
\<close>
theorem downlink_reaches_its_destination_only:
  assumes "table_run (routes_v4 r) reg4" and "table_run (routes_v6 r) reg6" and "router_dispatch outcome r pkt = (r', Some v)"
  shows "(\<forall>c. v = Delivered c \<longrightarrow> (\<exists>m. outcome m c = Send_ok)
      \<and> ((\<exists>dst. extract_dst_ipv4 pkt = Some dst \<and> (dst, c) \<in> reg4) \<or> (\<exists>dst. extract_dst_ipv6 pkt = Some dst \<and> (dst, c) \<in> reg6)))
    \<and> (\<forall>c. (\<forall>m. outcome m c \<noteq> Send_closed) \<and>
        ((\<exists>dst. extract_dst_ipv4 pkt = Some dst \<and> (dst, c) \<in> routed (routes_v4 r))
          \<or> (\<exists>dst. extract_dst_ipv6 pkt = Some dst \<and> (dst, c) \<in> routed (routes_v6 r))) \<longrightarrow> v \<noteq> No_route)"
proof (cases "pkt \<noteq> [] \<and> version_nibble (pkt ! 0) = 6")
  case True
  then obtain dst t where d: "extract_dst_ipv6 pkt = Some dst" "table_dispatch outcome (routes_v6 r) dst pkt = (t, v)"
    using assms(3) by (auto simp: router_dispatch_def split: option.splits prod.splits)
  moreover have "extract_dst_ipv4 pkt = None" using True by (simp add: extract_dst_ipv4_def)
  ultimately show ?thesis using dispatch_verdict [OF assms(2) d(2)] by auto
next
  case False
  then obtain dst t where d: "extract_dst_ipv4 pkt = Some dst" "table_dispatch outcome (routes_v4 r) dst pkt = (t, v)"
    using assms(3) by (auto simp: router_dispatch_def split: option.splits prod.splits if_splits)
  moreover have "extract_dst_ipv6 pkt = None" using d(1) by (auto simp: extract_dst_ipv4_def extract_dst_ipv6_def split: if_splits)
  ultimately show ?thesis using dispatch_verdict [OF assms(1) d(2)] by auto
qed

section \<open>Flows\<close>

lemma note_flow_again: "hm_get (flows slot) key = Some c \<Longrightarrow> slot_note_flow slot key c' = slot"
  by (simp add: slot_note_flow_def hm_contains_def)

lemma note_flow_first:
  "hm_get (flows slot) key \<in> {None, Some c} \<Longrightarrow> hm_get (flows (slot_note_flow slot key c)) key = Some c
    \<and> senders (slot_note_flow slot key c) = senders slot"
  by (auto simp: slot_note_flow_def hm_contains_def Let_def table)


section \<open>Evaluated runs\<close>

text \<open>Two connections of one address, and a packet of the second with its reply.\<close>

definition demo_world :: world where
  "demo_world = \<lparr>activity_now = (\<lambda>_. 0), packets_now = (\<lambda>_. 0), closed_now = (\<lambda>p. p = 7)\<rparr>"

definition demo_router :: tun_router where
  "demo_router = \<lparr>routes_v4 = foldl table_exec [] [Add_route demo_world 0x0A420002 1, Add_route demo_world 0x0A420002 2,
     Go_live 0x0A420002 1 6 (Some 7)], routes_v6 = []\<rparr>"

definition demo_slot :: route_slot where
  "demo_slot = \<lparr>senders = [\<lparr>tx = 1, activity = Some 6, peer = Some 7, stale = False\<rparr>, new_downlink 2], rr = 0, flows = []\<rparr>"

lemma demo_routes: "routes_v4 demo_router = [(0x0A420002, demo_slot)]" "routes_v6 demo_router = []"
  by (simp_all add: demo_router_def demo_slot_def register_route_def attach_liveness_def new_slot_def new_downlink_def hm_get_def
      MAX_SENDERS_PER_IP_def Let_def)

lemma demo_router_run: "table_run (routes_v4 demo_router) {(0x0A420002, 2), (0x0A420002, 1)}"
proof -
  have "table_run (foldl table_exec [] [Add_route demo_world 0x0A420002 1, Add_route demo_world 0x0A420002 2,
     Go_live 0x0A420002 1 6 (Some 7)]) (registered (Go_live 0x0A420002 1 6 (Some 7))
     (registered (Add_route demo_world 0x0A420002 2) (registered (Add_route demo_world 0x0A420002 1) {})))"
    unfolding foldl.simps by (intro table_step table_start)
  then show ?thesis by (simp add: demo_router_def)
qed

definition demo_up :: packet where
  "demo_up = [0x45] @ replicate 8 0 @ [6, 0, 0] @ [10, 66, 0, 2] @ [1, 1, 1, 1] @ [0xC0, 1] @ [1, 0xBB]"

definition demo_down :: packet where
  "demo_down = [0x45] @ replicate 8 0 @ [6, 0, 0] @ [1, 1, 1, 1] @ [10, 66, 0, 2] @ [1, 0xBB] @ [0xC0, 1]"

lemma demo_flow:
  "extract_src_ipv4 demo_up = Some 0x0A420002" "flow_ends demo_up = Some (6, [10, 66, 0, 2, 0xC0, 1], [1, 1, 1, 1, 1, 0xBB])"
  "extract_dst_ipv4 demo_down = Some 0x0A420002" "flow_ends demo_down = Some (6, [1, 1, 1, 1, 1, 0xBB], [10, 66, 0, 2, 0xC0, 1])"
  by code_simp+


lemma demo_routed: "(0x0A420002, 1) \<in> routed (routes_v4 demo_router)" "(0x0A420002, 2) \<in> routed (routes_v4 demo_router)"
  unfolding demo_routes by (simp_all add: routed_def senders_of_def hm_get_def demo_slot_def new_downlink_def image_iff conj_disj_distribR ex_disj_distrib)

text \<open>The first connection has ended: the packet ends on the second.\<close>

definition demo_outcome :: "nat \<Rightarrow> chan \<Rightarrow> send_result" where
  "demo_outcome m c = (if c = 1 then Send_closed else Send_ok)"

theorem downlink_reaches_its_destination_only_witness:
  "\<exists>r' v. router_dispatch demo_outcome demo_router demo_down = (r', Some v) \<and> v \<noteq> No_route \<and> (\<forall>c. v = Delivered c \<longrightarrow> c = 2)"
proof -
  have "version_nibble (demo_down ! 0) = 4" by code_simp
  moreover obtain t v where "table_dispatch demo_outcome (routes_v4 demo_router) 0x0A420002 demo_down = (t, v)" by fastforce
  ultimately have v: "router_dispatch demo_outcome demo_router demo_down = (demo_router\<lparr>routes_v4 := t\<rparr>, Some v)"
    using demo_flow(3) by (simp add: router_dispatch_def)
  have v6: "table_run (routes_v6 demo_router) {}" unfolding demo_routes by (rule table_start)
  note f = downlink_reaches_its_destination_only [OF demo_router_run v6 v]
  have "v \<noteq> No_route" using conjunct2 [OF f, rule_format, of 2] demo_flow(3) demo_routed(2) by (auto simp: demo_outcome_def)
  moreover have "\<forall>c. v = Delivered c \<longrightarrow> c = 2" using f by (auto simp: demo_outcome_def split: if_splits)
  ultimately show ?thesis using v by blast
qed

text \<open>The first connection of the example is closed: the first patrol round takes its route.\<close>

theorem patrol_evicts_only_the_dead_witness:
  "\<exists>routes' st' rd. patrol_round demo_world [] (routes_v4 demo_router) = (routes', st', rd)
    \<and> (0x0A420002, 1) \<in> routed (routes_v4 demo_router) \<and> (0x0A420002, 1) \<notin> routed routes' \<and> (0x0A420002, 2) \<in> routed routes'"
proof -
  have ok: "table_ok (routes_v4 demo_router)" using table_run_ok [OF demo_router_run] by blast
  obtain routes' st' rd where r: "patrol_round demo_world [] (routes_v4 demo_router) = (routes', st', rd)" by (metis prod_cases3)
  note f = patrol_evicts_only_the_dead [OF patrol_start ok r]
  have slot: "hm_get (routes_v4 demo_router) 0x0A420002 = Some demo_slot" by (simp add: demo_routes hm_get_def)
  have d: "\<lparr>tx = 1, activity = Some 6, peer = Some 7, stale = False\<rparr> \<in> set (senders demo_slot)" by (simp add: demo_slot_def)
  have "(0x0A420002, 1) \<notin> routed routes'"
    using conjunct2 [OF f, rule_format, of "0x0A420002" demo_slot "\<lparr>tx = 1, activity = Some 6, peer = Some 7, stale = False\<rparr>" 7] slot d
    by (simp add: demo_slot_def demo_world_def)
  moreover have "(0x0A420002, 2) \<in> routed routes'"
    using conjunct1 [OF f, rule_format, of "0x0A420002" 2] demo_routed(2) slot
    by (cases "(0x0A420002, 2) \<in> routed routes'") (auto simp: demo_slot_def new_downlink_def)
  ultimately show ?thesis using r demo_routed(1) by blast
qed

end
