(* ===== verification/Allowlist.thy ===== *)
theory Allowlist
  imports Ip_Holdings
begin

text \<open>
  The admission set of an exit, \<open>server/src/allowlist.rs\<close>: the entries with their expiry, the
  generation gate on the payloads of the control plane, the signed revocation list, and the channel on
  which a retired key is announced so that its live sessions are closed. The lemmas show that the gate
  only moves forward, that nothing is admitted that no payload listed, and that no key loses its
  admission without being announced.
\<close>

section \<open>State and operations\<close>

record allowlist_snapshot =
  snap_generation :: u64
  snap_pubkeys :: "(pubkey, u64) hmap"
  fetched_at :: u64

definition from_legacy_set :: "u64 \<Rightarrow> pubkey list \<Rightarrow> u64 \<Rightarrow> allowlist_snapshot" where
  "from_legacy_set gen keys fetched =
     \<lparr>snap_generation = gen, snap_pubkeys = map (\<lambda>pk. (pk, - 1)) keys, fetched_at = fetched\<rparr>"

text \<open>\<open>revocation_rx\<close> is the unbounded channel: the batches sent and not yet received.\<close>

record allowlist =
  al_entries :: "(pubkey, u64) hmap"
  last_generation :: u64
  last_success :: u64
  crl_revocations :: "(pubkey, u8) hmap"
  revocation_rx :: "pubkey list list"

definition new_allowlist :: allowlist where
  "new_allowlist =
     \<lparr>al_entries = [], last_generation = 0, last_success = 0, crl_revocations = [], revocation_rx = []\<rparr>"

definition send_revocation :: "pubkey list \<Rightarrow> allowlist \<Rightarrow> allowlist" where
  "send_revocation batch al =
     (if batch = [] then al else al\<lparr>revocation_rx := revocation_rx al @ [batch]\<rparr>)"

text \<open>
  A revocation list is put in place in two critical sections: the keys to tear down are read off the
  entries, then the list is replaced and the keys are sent.
\<close>

definition crl_to_tear_down :: "allowlist \<Rightarrow> (pubkey, u8) hmap \<Rightarrow> pubkey list" where
  "crl_to_tear_down al revs = filter (hm_contains (al_entries al)) (map fst revs)"

definition crl_replace :: "allowlist \<Rightarrow> (pubkey, u8) hmap \<Rightarrow> pubkey list \<Rightarrow> allowlist" where
  "crl_replace al revs batch = send_revocation batch (al\<lparr>crl_revocations := revs\<rparr>)"

definition apply_crl_revocations_coded :: "allowlist \<Rightarrow> (pubkey, u8) hmap \<Rightarrow> allowlist \<times> nat" where
  "apply_crl_revocations_coded al revs =
     (let batch = crl_to_tear_down al revs in (crl_replace al revs batch, length batch))"

definition apply_crl_revocations :: "allowlist \<Rightarrow> pubkey list \<Rightarrow> allowlist \<times> nat" where
  "apply_crl_revocations al keys = apply_crl_revocations_coded al (map (\<lambda>pk. (pk, 0)) keys)"

definition is_allowed :: "allowlist \<Rightarrow> pubkey \<Rightarrow> bool" where
  "is_allowed al pk \<longleftrightarrow> \<not> hm_contains (crl_revocations al) pk \<and> hm_contains (al_entries al) pk"

definition is_allowed_at :: "allowlist \<Rightarrow> pubkey \<Rightarrow> u64 \<Rightarrow> bool" where
  "is_allowed_at al pk now \<longleftrightarrow> \<not> hm_contains (crl_revocations al) pk
     \<and> (case hm_get (al_entries al) pk of None \<Rightarrow> False | Some expires_at \<Rightarrow> now < expires_at)"

definition crl_reason_code :: "allowlist \<Rightarrow> pubkey \<Rightarrow> u8 option" where
  "crl_reason_code al pk = hm_get (crl_revocations al) pk"

definition current_snapshot :: "allowlist \<Rightarrow> u64 \<Rightarrow> allowlist_snapshot" where
  "current_snapshot al fetched =
     \<lparr>snap_generation = last_generation al, snap_pubkeys = al_entries al, fetched_at = fetched\<rparr>"

fun remove_keys :: "(pubkey, u64) hmap \<Rightarrow> pubkey list \<Rightarrow> (pubkey, u64) hmap \<times> pubkey list" where
  "remove_keys m [] = (m, [])"
| "remove_keys m (pk # pks) =
     (case remove_keys (hm_remove pk m) pks of
        (m', gone) \<Rightarrow> (m', if hm_contains m pk then pk # gone else gone))"

definition stale_payload :: "allowlist \<Rightarrow> u64 \<Rightarrow> bool" where
  "stale_payload al gen \<longleftrightarrow> last_success al \<noteq> 0 \<and> gen \<le> last_generation al"

definition apply_delta ::
  "allowlist \<Rightarrow> (pubkey \<times> u64) list \<Rightarrow> pubkey list \<Rightarrow> u64 \<Rightarrow> u64 \<Rightarrow> allowlist \<times> nat" where
  "apply_delta al added removed to_generation fetched =
     (let acked = al\<lparr>last_success := max (last_success al) fetched\<rparr>
      in if stale_payload al to_generation then (acked, 0)
         else case remove_keys (fold (\<lambda>(pk, e). hm_insert pk e) added (al_entries al)) removed of
                (m, gone) \<Rightarrow>
                  (send_revocation gone (acked\<lparr>al_entries := m, last_generation := to_generation\<rparr>), length gone))"

definition apply_snapshot :: "allowlist \<Rightarrow> allowlist_snapshot \<Rightarrow> allowlist \<times> nat" where
  "apply_snapshot al snap =
     (let acked = al\<lparr>last_success := max (last_success al) (fetched_at snap)\<rparr>
      in if stale_payload al (snap_generation snap) then (acked, 0)
         else let gone = filter (\<lambda>pk. \<not> hm_contains (snap_pubkeys snap) pk) (map fst (al_entries al))
              in (send_revocation gone
                    (acked\<lparr>al_entries := snap_pubkeys snap, last_generation := snap_generation snap\<rparr>), length gone))"

definition from_static_keys :: "pubkey list \<Rightarrow> u64 \<Rightarrow> allowlist" where
  "from_static_keys keys now = fst (apply_snapshot new_allowlist (from_legacy_set 1 keys now))"

definition clear_if_stale :: "allowlist \<Rightarrow> u64 \<Rightarrow> u64 \<Rightarrow> allowlist \<times> nat" where
  "clear_if_stale al now grace =
     (if last_success al = 0 then (al, 0)
      else let age = if last_success al \<le> now then now - last_success al else 0
           in if age \<le> grace \<or> al_entries al = [] then (al, 0)
              else let evicted = map fst (al_entries al)
                   in (send_revocation evicted (al\<lparr>al_entries := []\<rparr>), length evicted))"

section \<open>What the operations keep\<close>

datatype allowlist_op =
    Snapshot allowlist_snapshot
  | Delta "(pubkey \<times> u64) list" "pubkey list" u64 u64
  | Crl "(pubkey, u8) hmap"
  | Clear_stale u64 u64

fun allowlist_exec :: "allowlist \<Rightarrow> allowlist_op \<Rightarrow> allowlist" where
  "allowlist_exec al (Snapshot snap) = fst (apply_snapshot al snap)"
| "allowlist_exec al (Delta added removed gen fetched) = fst (apply_delta al added removed gen fetched)"
| "allowlist_exec al (Crl revs) = fst (apply_crl_revocations_coded al revs)"
| "allowlist_exec al (Clear_stale now grace) = fst (clear_if_stale al now grace)"

lemma send_revocation_fields [simp]:
  "al_entries (send_revocation b al) = al_entries al"
  "crl_revocations (send_revocation b al) = crl_revocations al"
  "last_generation (send_revocation b al) = last_generation al"
  "last_success (send_revocation b al) = last_success al"
  by (simp_all add: send_revocation_def)

definition announced :: "allowlist \<Rightarrow> pubkey set" where
  "announced al = (\<Union>b\<in>set (revocation_rx al). set b)"

lemma send_revocation_batches: "\<exists>bs. revocation_rx (send_revocation b al) = revocation_rx al @ bs \<and> (\<Union>c\<in>set bs. set c) = set b"
  by (cases b) (auto simp: send_revocation_def intro: exI [where x = "[b]"])

lemma fold_insert_contains:
  "hm_contains (fold (\<lambda>(pk, e). hm_insert pk e) added m) pk \<longleftrightarrow> hm_contains m pk \<or> pk \<in> fst ` set added"
  by (induction added arbitrary: m) (auto simp: table split: prod.splits)

lemma remove_keys_spec:
  assumes "remove_keys m pks = (m', gone)"
  shows "hm_contains m' pk \<longleftrightarrow> hm_contains m pk \<and> pk \<notin> set pks"
    and "pk \<in> set gone \<longleftrightarrow> hm_contains m pk \<and> pk \<in> set pks"
proof -
  have "(hm_contains m' pk \<longleftrightarrow> hm_contains m pk \<and> pk \<notin> set pks)
    \<and> (pk \<in> set gone \<longleftrightarrow> hm_contains m pk \<and> pk \<in> set pks)"
    using assms by (induction m pks arbitrary: m' gone rule: remove_keys.induct)
      (auto simp: table split: prod.splits if_splits)
  then show "hm_contains m' pk \<longleftrightarrow> hm_contains m pk \<and> pk \<notin> set pks"
    and "pk \<in> set gone \<longleftrightarrow> hm_contains m pk \<and> pk \<in> set pks" by blast+
qed

text \<open>The entries after an operation, and the keys it announces.\<close>

definition retired :: "allowlist \<Rightarrow> allowlist_op \<Rightarrow> pubkey set" where
  "retired al op = (case op of
     Snapshot snap \<Rightarrow> if stale_payload al (snap_generation snap) then {}
       else {pk. hm_contains (al_entries al) pk \<and> \<not> hm_contains (snap_pubkeys snap) pk}
   | Delta added removed gen fetched \<Rightarrow> if stale_payload al gen then {}
       else {pk. pk \<in> set removed \<and> (hm_contains (al_entries al) pk \<or> pk \<in> fst ` set added)}
   | Crl revs \<Rightarrow> {pk. hm_contains revs pk \<and> hm_contains (al_entries al) pk}
   | Clear_stale now grace \<Rightarrow> if al_entries (allowlist_exec al op) = al_entries al then {}
       else {pk. hm_contains (al_entries al) pk})"

lemma clear_if_stale_cases:
  obtains "allowlist_exec al (Clear_stale now grace) = al"
  | "al_entries al \<noteq> []"
    "allowlist_exec al (Clear_stale now grace) = send_revocation (map fst (al_entries al)) (al\<lparr>al_entries := []\<rparr>)"
proof (cases "last_success al = 0 \<or> (if last_success al \<le> now then now - last_success al else 0) \<le> grace \<or> al_entries al = []")
  case True
  then have "allowlist_exec al (Clear_stale now grace) = al" by (auto simp: clear_if_stale_def Let_def)
  then show thesis by (rule that(1))
next
  case False
  then have "allowlist_exec al (Clear_stale now grace) = send_revocation (map fst (al_entries al)) (al\<lparr>al_entries := []\<rparr>)"
    by (auto simp: clear_if_stale_def Let_def)
  then show thesis using that(2) False by blast
qed

lemma exec_batches:
  "\<exists>bs. revocation_rx (allowlist_exec al op) = revocation_rx al @ bs \<and> (\<Union>b\<in>set bs. set b) = retired al op"
proof (cases op)
  case (Snapshot snap)
  define gone where "gone = filter (\<lambda>pk. \<not> hm_contains (snap_pubkeys snap) pk) (map fst (al_entries al))"
  have gone: "set gone = {pk. hm_contains (al_entries al) pk \<and> \<not> hm_contains (snap_pubkeys snap) pk}"
    by (auto simp: gone_def hm_contains_fst)
  show ?thesis using send_revocation_batches [of gone "al\<lparr>last_success := max (last_success al) (fetched_at snap),
      al_entries := snap_pubkeys snap, last_generation := snap_generation snap\<rparr>"] gone
    by (simp add: Snapshot apply_snapshot_def Let_def retired_def flip: gone_def)
next
  case (Delta added removed gen fetched)
  obtain m gone where mg: "remove_keys (fold (\<lambda>(pk, e). hm_insert pk e) added (al_entries al)) removed = (m, gone)" by fastforce
  have gone: "set gone = {pk. pk \<in> set removed \<and> (hm_contains (al_entries al) pk \<or> pk \<in> fst ` set added)}"
    by (rule set_eqI) (simp add: remove_keys_spec(2) [OF mg] fold_insert_contains conj_commute)
  show ?thesis using send_revocation_batches [of gone "al\<lparr>last_success := max (last_success al) fetched,
      al_entries := m, last_generation := gen\<rparr>"] gone
    by (simp add: Delta apply_delta_def Let_def retired_def mg)
next
  case (Crl revs)
  have gone: "set (crl_to_tear_down al revs) = {pk. hm_contains revs pk \<and> hm_contains (al_entries al) pk}"
    by (auto simp: crl_to_tear_down_def hm_contains_fst)
  show ?thesis using send_revocation_batches [of "crl_to_tear_down al revs" "al\<lparr>crl_revocations := revs\<rparr>"] gone
    by (simp add: Crl apply_crl_revocations_coded_def crl_replace_def Let_def retired_def)
next
  case (Clear_stale now grace)
  have gone: "set (map fst (al_entries al)) = {pk. hm_contains (al_entries al) pk}" by (auto simp: hm_contains_fst)
  show ?thesis
  proof (rule clear_if_stale_cases [of al now grace])
    assume "allowlist_exec al (Clear_stale now grace) = al"
    then show ?thesis unfolding Clear_stale by (simp add: retired_def)
  next
    assume ne: "al_entries al \<noteq> []"
      and ex: "allowlist_exec al (Clear_stale now grace) = send_revocation (map fst (al_entries al)) (al\<lparr>al_entries := []\<rparr>)"
    then show ?thesis unfolding Clear_stale ex
      using send_revocation_batches [of "map fst (al_entries al)" "al\<lparr>al_entries := []\<rparr>"] gone
      by (simp add: retired_def ex del: allowlist_exec.simps)
  qed
qed

lemma announced_exec: "announced (allowlist_exec al op) = announced al \<union> retired al op"
proof -
  obtain bs where "revocation_rx (allowlist_exec al op) = revocation_rx al @ bs" "(\<Union>b\<in>set bs. set b) = retired al op"
    using exec_batches by blast
  then show ?thesis by (simp add: announced_def image_Un Union_Un_distrib)
qed

lemma allowed_exec:
  assumes "is_allowed al pk" and "\<not> is_allowed (allowlist_exec al op) pk"
  shows "pk \<in> retired al op"
proof (cases op)
  case (Snapshot snap)
  then show ?thesis using assms by (auto simp: is_allowed_def apply_snapshot_def Let_def retired_def split: if_splits)
next
  case (Delta added removed gen fetched)
  then show ?thesis using assms
    by (auto simp: is_allowed_def apply_delta_def Let_def retired_def remove_keys_spec fold_insert_contains
        split: if_splits prod.splits)
next
  case (Crl revs)
  then show ?thesis using assms
    by (auto simp: is_allowed_def apply_crl_revocations_coded_def crl_replace_def Let_def retired_def)
next
  case (Clear_stale now grace)
  then show ?thesis using assms by (auto simp: is_allowed_def clear_if_stale_def Let_def retired_def split: if_splits)
qed

lemma retired_refused:
  assumes "pk \<in> retired al op"
  shows "\<not> is_allowed (allowlist_exec al op) pk"
proof (cases op)
  case (Snapshot snap)
  then show ?thesis using assms by (auto simp: is_allowed_def apply_snapshot_def Let_def retired_def split: if_splits)
next
  case (Delta added removed gen fetched)
  then show ?thesis using assms
    by (auto simp: is_allowed_def apply_delta_def Let_def retired_def remove_keys_spec split: if_splits prod.splits)
next
  case (Crl revs)
  then show ?thesis using assms
    by (auto simp: is_allowed_def apply_crl_revocations_coded_def crl_replace_def Let_def retired_def)
next
  case (Clear_stale now grace)
  then show ?thesis using assms
    by (auto simp: is_allowed_def clear_if_stale_def Let_def retired_def hm_contains_def split: if_splits)
qed

lemma expired_not_allowed: "is_allowed_at al pk now \<Longrightarrow> is_allowed al pk"
  by (auto simp: is_allowed_at_def is_allowed_def hm_contains_def split: option.splits)

section \<open>Properties\<close>



text \<open>What a payload lists, and its generation.\<close>

fun listed :: "allowlist_op \<Rightarrow> pubkey set" where
  "listed (Snapshot snap) = {pk. hm_contains (snap_pubkeys snap) pk}"
| "listed (Delta added removed gen fetched) = fst ` set added"
| "listed _ = {}"

fun payload_generation :: "allowlist_op \<Rightarrow> u64 option" where
  "payload_generation (Snapshot snap) = Some (snap_generation snap)"
| "payload_generation (Delta added removed gen fetched) = Some gen"
| "payload_generation _ = None"

lemma exec_entries:
  "hm_contains (al_entries (allowlist_exec al op)) pk \<Longrightarrow> hm_contains (al_entries al) pk \<or> pk \<in> listed op"
  by (cases op) (auto simp: apply_snapshot_def apply_delta_def apply_crl_revocations_coded_def crl_replace_def
      clear_if_stale_def Let_def remove_keys_spec fold_insert_contains hm_contains_def [of "[]"] split: if_splits prod.splits)

lemma exec_success: "last_success al \<le> last_success (allowlist_exec al op)"
  by (cases op) (auto simp: apply_snapshot_def apply_delta_def apply_crl_revocations_coded_def crl_replace_def
      clear_if_stale_def Let_def split: prod.splits)

lemma exec_generation:
  "last_success al \<noteq> 0 \<Longrightarrow> last_generation al \<le> last_generation (allowlist_exec al op)"
  by (cases op) (auto simp: apply_snapshot_def apply_delta_def apply_crl_revocations_coded_def crl_replace_def
      clear_if_stale_def Let_def stale_payload_def split: prod.splits)

lemma run_generation:
  "last_success al \<noteq> 0 \<Longrightarrow> last_success (foldl allowlist_exec al ops) \<noteq> 0
     \<and> last_generation al \<le> last_generation (foldl allowlist_exec al ops)"
proof (induction ops arbitrary: al)
  case (Cons op ops)
  have "last_success (allowlist_exec al op) \<noteq> 0"
    using exec_success [of al op] Cons.prems by (metis word_le_0_iff)
  then show ?case using Cons.IH exec_generation [OF Cons.prems, of op] by (fastforce intro: order_trans)
qed simp

lemma exec_stale:
  "payload_generation op = Some gen \<Longrightarrow> stale_payload al gen \<Longrightarrow>
     \<exists>t. allowlist_exec al op = al\<lparr>last_success := t\<rparr>"
  by (cases op) (auto simp: apply_snapshot_def apply_delta_def Let_def)

lemma exec_applied:
  "payload_generation op = Some gen \<Longrightarrow> \<not> stale_payload al gen \<Longrightarrow> last_generation (allowlist_exec al op) = gen"
  by (cases op) (auto simp: apply_snapshot_def apply_delta_def Let_def split: prod.splits)

text \<open>
  C33: Nothing is admitted that no payload listed, and no replayed payload rolls the allowlist back. From
  the empty handle on, a key the gate admits was listed by a snapshot or a delta of the run: the exit
  starts closed, and a run of revocation lists and staleness sweeps alone keeps it closed. Once a payload
  of generation g is in place, a later snapshot or delta of a generation up to g, whatever happened in
  between, changes neither the entries nor the generation nor the revocation list, and announces nothing.
\<close>
theorem gate_is_closed_and_never_rolls_back:
  "(\<forall>ops pk. is_allowed (foldl allowlist_exec new_allowlist ops) pk \<longrightarrow> (\<exists>op\<in>set ops. pk \<in> listed op))
   \<and> (\<forall>al op gen ops op' gen'. payload_generation op = Some gen \<longrightarrow> \<not> stale_payload al gen \<longrightarrow>
        last_success (allowlist_exec al op) \<noteq> 0 \<longrightarrow> payload_generation op' = Some gen' \<longrightarrow> gen' \<le> gen \<longrightarrow>
        (let now = foldl allowlist_exec (allowlist_exec al op) ops
         in \<exists>t. allowlist_exec now op' = now\<lparr>last_success := t\<rparr>))"
proof (intro conjI allI impI)
  fix ops pk assume "is_allowed (foldl allowlist_exec new_allowlist ops) pk"
  then have "hm_contains (al_entries (foldl allowlist_exec new_allowlist ops)) pk" by (simp add: is_allowed_def)
  then show "\<exists>op\<in>set ops. pk \<in> listed op"
    by (induction ops rule: rev_induct) (auto simp: new_allowlist_def hm_contains_def [of "[]"] dest: exec_entries)
next
  fix al op gen ops op' gen'
  assume op: "payload_generation op = Some gen" "\<not> stale_payload al gen" "last_success (allowlist_exec al op) \<noteq> 0"
    and op': "payload_generation op' = Some gen'" "gen' \<le> gen"
  let ?now = "foldl allowlist_exec (allowlist_exec al op) ops"
  have "last_success ?now \<noteq> 0" "gen \<le> last_generation ?now"
    using run_generation [OF op(3), of ops] exec_applied [OF op(1,2)] by auto
  then have "stale_payload ?now gen'" using op'(2) by (auto simp: stale_payload_def)
  then show "let now = ?now in \<exists>t. allowlist_exec now op' = now\<lparr>last_success := t\<rparr>"
    unfolding Let_def by (rule exec_stale [OF op'(1)])
qed

theorem gate_is_closed_and_never_rolls_back_witness:
  "let first = Snapshot \<lparr>snap_generation = 5, snap_pubkeys = [([1], 9)], fetched_at = 7\<rparr>;
       old = Snapshot \<lparr>snap_generation = 4, snap_pubkeys = [([2], 9)], fetched_at = 8\<rparr>;
       now = foldl allowlist_exec (allowlist_exec new_allowlist first) [Crl [([3], 1)]]
   in is_allowed now [1] \<and> (\<exists>t. allowlist_exec now old = now\<lparr>last_success := t\<rparr>)"
proof -
  let ?first = "Snapshot \<lparr>snap_generation = 5, snap_pubkeys = [([1], 9)], fetched_at = 7\<rparr>"
  let ?old = "Snapshot \<lparr>snap_generation = 4, snap_pubkeys = [([2], 9)], fetched_at = 8\<rparr>"
  have "\<not> stale_payload new_allowlist 5" "last_success (allowlist_exec new_allowlist ?first) \<noteq> 0"
    by (simp_all add: stale_payload_def new_allowlist_def apply_snapshot_def Let_def)
  moreover have "is_allowed (foldl allowlist_exec (allowlist_exec new_allowlist ?first) [Crl [([3], 1)]]) [1]"
    by (simp add: is_allowed_def apply_snapshot_def apply_crl_revocations_coded_def crl_replace_def stale_payload_def
        new_allowlist_def Let_def hm_contains_def hm_get_def)
  ultimately show ?thesis
    using conjunct2 [OF gate_is_closed_and_never_rolls_back, rule_format, of ?first 5 new_allowlist ?old 4 "[Crl [([3], 1)]]"]
    unfolding Let_def by simp
qed

text \<open>A static roster admits exactly its keys, until the end of the clock.\<close>

lemma static_roster: "is_allowed_at (from_static_keys keys t) pk now \<longleftrightarrow> pk \<in> set keys \<and> now < - 1"
proof -
  have "hm_get (map (\<lambda>pk. (pk, - 1 :: u64)) keys) pk = (if pk \<in> set keys then Some (- 1) else None)"
    by (induction keys) (auto simp: hm_get_def)
  then show ?thesis
    by (simp add: is_allowed_at_def from_static_keys_def apply_snapshot_def from_legacy_set_def new_allowlist_def
        stale_payload_def Let_def hm_contains_def)
qed

text \<open>The snapshot of a handle restores its entries on a fresh one.\<close>

lemma snapshot_roundtrip:
  "al_entries (fst (apply_snapshot new_allowlist (current_snapshot al t))) = al_entries al
   \<and> last_generation (fst (apply_snapshot new_allowlist (current_snapshot al t))) = last_generation al"
  by (simp add: apply_snapshot_def current_snapshot_def new_allowlist_def stale_payload_def Let_def)

section \<open>Corners of the handle\<close>

text \<open>
  The staleness sweep empties the entries and keeps the generation, so that a control plane that comes
  back unchanged cannot fill them again: its snapshot is dropped as a duplicate.
\<close>

lemma cleared_entries_stay_empty:
  assumes "al_entries al \<noteq> []" and "last_success al \<noteq> 0" and "last_success al \<le> now" and "grace < now - last_success al"
    and "snap_generation snap = last_generation al"
  shows "al_entries (fst (apply_snapshot (fst (clear_if_stale al now grace)) snap)) = []"
proof -
  have "fst (clear_if_stale al now grace) = send_revocation (map fst (al_entries al)) (al\<lparr>al_entries := []\<rparr>)"
    using assms(1-4) by (auto simp: clear_if_stale_def Let_def)
  then show ?thesis using assms(2,5) by (simp add: apply_snapshot_def stale_payload_def Let_def)
qed

text \<open>
  A revocation list reads the entries before it is in place. A key that a delta adds between the two
  critical sections is revoked and never announced.
\<close>

lemma crl_misses_a_key_added_in_between:
  assumes "\<not> hm_contains (al_entries al) pk" and "last_success al = 0"
  shows "let batch = crl_to_tear_down al [(pk, 0)];
             mid = fst (apply_delta al [(pk, - 1)] [] 1 1);
             done = crl_replace mid [(pk, 0)] batch
         in is_allowed mid pk = (\<not> hm_contains (crl_revocations al) pk) \<and> \<not> is_allowed done pk
            \<and> revocation_rx done = revocation_rx al"
  using assms by (simp add: crl_to_tear_down_def apply_delta_def stale_payload_def crl_replace_def is_allowed_def
      Let_def table send_revocation_def hm_contains_def hm_get_def [of "[(pk, 0)]"])

end
