(* ===== verification/Wallet_Sessions.thy ===== *)
theory Wallet_Sessions
  imports Ip_Holdings
begin

text \<open>
  The wallet-signed sessions of an exit, \<open>multihop-server/src/multihop/wallet.rs\<close>: the connections
  that hold one tunnel address of one account are one session, the deployer's gate is asked once per
  session, and it is told when a session it admitted has ended. The lemmas show the account: a session
  the gate admitted is either live or was reported ended, exactly once.

  The identifier of a session is a truncated hash of a random salt and a process-wide counter. The hash
  is a parameter of the model; what the accounting needs of it is that no two counters collide.
\<close>

section \<open>State and operations\<close>

type_synonym wallet_id = "u8 list"
type_synonym wallet_session = "pubkey \<times> wallet_id"

record wallet_entry =
  entry_id :: wallet_id
  entry_conns :: "conn_id list"
  admitted :: bool

record wallet_tables =
  ws_sessions :: "(pubkey \<times> ipv4, wallet_entry) hmap"
  ws_by_conn :: "(conn_id, pubkey \<times> ipv4) hmap"
  ws_counter :: u64

datatype wallet_slot = Admitted_slot | Needs_gate wallet_session

definition new_wallet_tables :: wallet_tables where
  "new_wallet_tables = \<lparr>ws_sessions = [], ws_by_conn = [], ws_counter = 0\<rparr>"

definition take_wallet_slot :: "(u64 \<Rightarrow> wallet_id) \<Rightarrow> wallet_tables \<Rightarrow> pubkey \<Rightarrow> ipv4 \<Rightarrow> conn_id \<Rightarrow> wallet_tables \<times> wallet_slot" where
  "take_wallet_slot id_hash t pk ip conn =
     (let (e, counter) = (case hm_get (ws_sessions t) (pk, ip) of
            Some e \<Rightarrow> (e, ws_counter t)
          | None \<Rightarrow> (\<lparr>entry_id = id_hash (ws_counter t), entry_conns = [], admitted = False\<rparr>, ws_counter t + 1));
          e' = e\<lparr>entry_conns := List.insert conn (entry_conns e)\<rparr>
      in (\<lparr>ws_sessions = hm_insert (pk, ip) e' (ws_sessions t), ws_by_conn = hm_insert conn (pk, ip) (ws_by_conn t),
           ws_counter = counter\<rparr>,
          if admitted e then Admitted_slot else Needs_gate (pk, entry_id e)))"

text \<open>The first session with the identifier, in the order of the table.\<close>

fun mark_first :: "wallet_id \<Rightarrow> ('k \<times> wallet_entry) list \<Rightarrow> ('k \<times> wallet_entry) list" where
  "mark_first i [] = []"
| "mark_first i ((k, e) # es) = (if entry_id e = i then (k, e\<lparr>admitted := True\<rparr>) # es else (k, e) # mark_first i es)"

definition mark_admitted :: "wallet_tables \<Rightarrow> wallet_session \<Rightarrow> wallet_tables" where
  "mark_admitted t s = t\<lparr>ws_sessions := mark_first (snd s) (ws_sessions t)\<rparr>"

definition wallet_leave :: "wallet_tables \<Rightarrow> conn_id \<Rightarrow> wallet_tables \<times> wallet_session option" where
  "wallet_leave t conn =
     (case hm_get (ws_by_conn t) conn of
        None \<Rightarrow> (t, None)
      | Some k \<Rightarrow>
          let t = t\<lparr>ws_by_conn := hm_remove conn (ws_by_conn t)\<rparr>
          in case hm_get (ws_sessions t) k of
               None \<Rightarrow> (t, None)
             | Some e \<Rightarrow>
                 let e' = e\<lparr>entry_conns := removeAll conn (entry_conns e)\<rparr>
                 in if entry_conns e' \<noteq> [] then (t\<lparr>ws_sessions := hm_insert k e' (ws_sessions t)\<rparr>, None)
                    else (t\<lparr>ws_sessions := hm_remove k (ws_sessions t)\<rparr>,
                          if admitted e then Some (fst k, entry_id e) else None))"

definition wallet_live :: "wallet_tables \<Rightarrow> wallet_session list" where
  "wallet_live t = map (\<lambda>(k, e). (fst k, entry_id e)) (filter (\<lambda>(k, e). admitted e) (ws_sessions t))"

section \<open>Runs\<close>

text \<open>
  A connection is slotted once, when its setup has an address for it; the gate's verdict arrives while
  the connection that asked still holds its slot; the connection leaves when its handler ends. Besides
  the tables, a run carries the sessions the gate admitted and the sessions reported ended.
\<close>

inductive wallet_run :: "(u64 \<Rightarrow> wallet_id) \<Rightarrow> wallet_tables \<Rightarrow> wallet_session list \<Rightarrow> wallet_session list \<Rightarrow> bool"
  for id_hash where
  w_start: "wallet_run id_hash new_wallet_tables [] []"
| w_slot: "wallet_run id_hash t ms rs \<Longrightarrow> hm_get (ws_by_conn t) c = None \<Longrightarrow> ws_counter t \<noteq> - 1 \<Longrightarrow>
    wallet_run id_hash (fst (take_wallet_slot id_hash t pk ip c)) ms rs"
| w_mark: "wallet_run id_hash t ms rs \<Longrightarrow> hm_get (ws_by_conn t) c = Some k \<Longrightarrow> hm_get (ws_sessions t) k = Some e \<Longrightarrow>
    wallet_run id_hash (mark_admitted t (fst k, entry_id e)) ((fst k, entry_id e) # ms) rs"
| w_leave: "wallet_run id_hash t ms rs \<Longrightarrow> wallet_leave t c = (t', r) \<Longrightarrow>
    wallet_run id_hash t' ms (case r of None \<Rightarrow> rs | Some s \<Rightarrow> s # rs)"

definition wallet_ok :: "(u64 \<Rightarrow> wallet_id) \<Rightarrow> wallet_tables \<Rightarrow> bool" where
  "wallet_ok id_hash t \<longleftrightarrow> hm_wf (ws_sessions t) \<and> hm_wf (ws_by_conn t)
     \<and> (\<forall>k e. hm_get (ws_sessions t) k = Some e \<longrightarrow> entry_conns e \<noteq> []
          \<and> (\<forall>c. c \<in> set (entry_conns e) \<longleftrightarrow> hm_get (ws_by_conn t) c = Some k)
          \<and> (\<exists>n < ws_counter t. entry_id e = id_hash n))
     \<and> (\<forall>c k. hm_get (ws_by_conn t) c = Some k \<longrightarrow> hm_get (ws_sessions t) k \<noteq> None)
     \<and> (\<forall>k k' e e'. hm_get (ws_sessions t) k = Some e \<longrightarrow> hm_get (ws_sessions t) k' = Some e' \<longrightarrow>
          k \<noteq> k' \<longrightarrow> entry_id e \<noteq> entry_id e')"

lemma wallet_okI:
  assumes "hm_wf (ws_sessions t)" "hm_wf (ws_by_conn t)"
    "\<And>k e. hm_get (ws_sessions t) k = Some e \<Longrightarrow> entry_conns e \<noteq> []"
    "\<And>k e c. hm_get (ws_sessions t) k = Some e \<Longrightarrow> c \<in> set (entry_conns e) \<longleftrightarrow> hm_get (ws_by_conn t) c = Some k"
    "\<And>k e. hm_get (ws_sessions t) k = Some e \<Longrightarrow> \<exists>n < ws_counter t. entry_id e = id_hash n"
    "\<And>c k. hm_get (ws_by_conn t) c = Some k \<Longrightarrow> hm_get (ws_sessions t) k \<noteq> None"
    "\<And>k k' e e'. hm_get (ws_sessions t) k = Some e \<Longrightarrow> hm_get (ws_sessions t) k' = Some e' \<Longrightarrow>
       k \<noteq> k' \<Longrightarrow> entry_id e \<noteq> entry_id e'"
  shows "wallet_ok id_hash t"
  using assms unfolding wallet_ok_def by blast

lemma wallet_okD:
  assumes "wallet_ok id_hash t"
  shows "hm_wf (ws_sessions t)" "hm_wf (ws_by_conn t)"
    "hm_get (ws_sessions t) k = Some e \<Longrightarrow> entry_conns e \<noteq> []"
    "hm_get (ws_sessions t) k = Some e \<Longrightarrow> c \<in> set (entry_conns e) \<longleftrightarrow> hm_get (ws_by_conn t) c = Some k"
    "hm_get (ws_sessions t) k = Some e \<Longrightarrow> \<exists>n < ws_counter t. entry_id e = id_hash n"
    "hm_get (ws_by_conn t) c = Some k \<Longrightarrow> hm_get (ws_sessions t) k \<noteq> None"
    "hm_get (ws_sessions t) k = Some e \<Longrightarrow> hm_get (ws_sessions t) k' = Some e' \<Longrightarrow> k \<noteq> k' \<Longrightarrow> entry_id e \<noteq> entry_id e'"
  using assms unfolding wallet_ok_def by blast+

lemma keys_mark_first [simp]: "map fst (mark_first i m) = map fst m"
  by (induction i m rule: mark_first.induct) auto

lemma mark_first_get:
  assumes "hm_wf m" and "(k, e) \<in> set m" and "\<And>k' e'. (k', e') \<in> set m \<Longrightarrow> entry_id e' = entry_id e \<Longrightarrow> k' = k"
  shows "hm_get (mark_first (entry_id e) m) j = (if j = k then Some (e\<lparr>admitted := True\<rparr>) else hm_get m j)"
  using assms
proof (induction m)
  case (Cons x m)
  obtain k' e' where x: "x = (k', e')" by fastforce
  have nk: "k' \<notin> fst ` set m" "hm_wf m" using Cons.prems(1) by (simp_all add: hm_wf_def x)
  show ?case
  proof (cases "entry_id e' = entry_id e")
    case True
    then have "k' = k" using Cons.prems(3) [of k' e'] by (simp add: x)
    then have "e' = e" using Cons.prems(2) nk(1) by (force simp: x)
    then show ?thesis using \<open>k' = k\<close> by (simp add: x hm_get_def)
  next
    case False
    then have e: "(k, e) \<in> set m" using Cons.prems(2) by (auto simp: x)
    then have "k' \<noteq> k" using nk(1) by force
    moreover have "hm_get (mark_first (entry_id e) m) j = (if j = k then Some (e\<lparr>admitted := True\<rparr>) else hm_get m j)"
      by (rule Cons.IH [OF nk(2) e]) (metis Cons.prems(3) list.set_intros(2))
    ultimately show ?thesis using False by (cases "j = k") (auto simp: x hm_get_def)
  qed
qed simp

lemma wallet_live_iff:
  "hm_wf (ws_sessions t) \<Longrightarrow> s \<in> set (wallet_live t) \<longleftrightarrow>
     (\<exists>k. fst k = fst s \<and> (\<exists>e. hm_get (ws_sessions t) k = Some e \<and> admitted e \<and> entry_id e = snd s))"
  by (cases s) (force simp: wallet_live_def hm_in_set_iff image_iff)

lemma wallet_liveI: "hm_wf (ws_sessions t) \<Longrightarrow> hm_get (ws_sessions t) k = Some e \<Longrightarrow> admitted e \<Longrightarrow>
    (fst k, entry_id e) \<in> set (wallet_live t)"
  unfolding wallet_live_iff fst_conv snd_conv by blast

lemma wallet_liveE:
  assumes "s \<in> set (wallet_live t)" and "hm_wf (ws_sessions t)"
  obtains k e where "hm_get (ws_sessions t) k = Some e" "admitted e" "s = (fst k, entry_id e)"
  using assms unfolding wallet_live_iff [OF assms(2)] by (metis prod.collapse)

lemma wallet_live_cong:
  assumes "hm_wf (ws_sessions t)" "hm_wf (ws_sessions t')"
    and "\<And>k i. (\<exists>e. hm_get (ws_sessions t') k = Some e \<and> admitted e \<and> entry_id e = i)
      \<longleftrightarrow> (\<exists>e. hm_get (ws_sessions t) k = Some e \<and> admitted e \<and> entry_id e = i)"
  shows "set (wallet_live t') = set (wallet_live t)"
  unfolding set_eq_iff wallet_live_iff [OF assms(1)] wallet_live_iff [OF assms(2)] by (simp only: assms(3) simp_thms)

section \<open>The account\<close>

definition wallet_account :: "(u64 \<Rightarrow> wallet_id) \<Rightarrow> wallet_tables \<Rightarrow> wallet_session list \<Rightarrow> wallet_session list \<Rightarrow> bool" where
  "wallet_account id_hash t ms rs \<longleftrightarrow> wallet_ok id_hash t \<and> distinct rs
     \<and> (\<forall>s\<in>set rs. \<exists>n < ws_counter t. snd s = id_hash n)
     \<and> (\<forall>s\<in>set rs. \<forall>k e. hm_get (ws_sessions t) k = Some e \<longrightarrow> entry_id e \<noteq> snd s)
     \<and> set ms = set rs \<union> set (wallet_live t)"

lemma insert_not_Nil [simp]: "List.insert c xs \<noteq> []"
  by (auto simp: List.insert_def)

lemma slot_cases:
  obtains (join) e where "hm_get (ws_sessions t) (pk, ip) = Some e"
    "fst (take_wallet_slot id_hash t pk ip c) = \<lparr>ws_sessions = hm_insert (pk, ip) (e\<lparr>entry_conns := List.insert c (entry_conns e)\<rparr>) (ws_sessions t),
       ws_by_conn = hm_insert c (pk, ip) (ws_by_conn t), ws_counter = ws_counter t\<rparr>"
  | (fresh) "hm_get (ws_sessions t) (pk, ip) = None"
    "fst (take_wallet_slot id_hash t pk ip c) = \<lparr>ws_sessions = hm_insert (pk, ip)
         \<lparr>entry_id = id_hash (ws_counter t), entry_conns = [c], admitted = False\<rparr> (ws_sessions t),
       ws_by_conn = hm_insert c (pk, ip) (ws_by_conn t), ws_counter = ws_counter t + 1\<rparr>"
  by (cases "hm_get (ws_sessions t) (pk, ip)") (auto simp: take_wallet_slot_def)

lemma word_less_succ: "(w :: u64) \<noteq> - 1 \<Longrightarrow> n < w + 1 \<longleftrightarrow> n \<le> w"
proof -
  assume "w \<noteq> - 1"
  then have "1 + w \<noteq> 0" by (metis add.commute eq_neg_iff_add_eq_0)
  then have "unat (w + 1) = Suc (unat w)" by (metis add.commute unatSuc)
  then show ?thesis by (simp add: word_less_nat_alt word_le_nat_alt less_Suc_eq_le)
qed

lemma slot_ok:
  assumes "wallet_ok id_hash t" and "inj id_hash" and "hm_get (ws_by_conn t) c = None" and "ws_counter t \<noteq> - 1"
  shows "wallet_ok id_hash (fst (take_wallet_slot id_hash t pk ip c))"
proof -
  note ok = wallet_okD [OF assms(1)]
  have c: "c \<notin> set (entry_conns e)" if "hm_get (ws_sessions t) k = Some e" for k e
    using ok(4) [OF that, of c] assms(3) by simp
  show ?thesis
  proof (cases rule: slot_cases [of t pk ip id_hash c])
    case (join e)
    show ?thesis unfolding join(2)
    proof (rule wallet_okI, goal_cases)
      case (4 k e' d) then show ?case using ok(4) [OF join(1), of d] ok(4) [of k e' d] c by (auto simp: table split: if_splits)
    next
      case (7 k k' e' e'')
      then show ?case using ok(7) [of k e' k' e''] ok(7) [OF join(1), of k' e''] ok(7) [OF _ join(1), of k e'] join(1)
        by (auto simp: table split: if_splits)
    qed (use ok join(1) in \<open>auto simp: table wf_table split: if_splits\<close>)
  next
    case fresh
    have new: "entry_id e \<noteq> id_hash (ws_counter t)" if "hm_get (ws_sessions t) k = Some e" for k e
      using ok(5) [OF that] assms(2) by (auto simp: inj_eq)
    show ?thesis unfolding fresh(2)
    proof (rule wallet_okI, goal_cases)
      case (4 k e' d) then show ?case using ok(4) [of k e' d] ok(6) [of d "(pk, ip)"] c fresh(1) by (auto simp: table split: if_splits)
    next
      case (5 k e') then show ?case using ok(5) [of k e'] assms(4)
        by (auto simp: table word_less_succ split: if_splits intro: less_imp_le)
    next
      case (7 k k' e' e'') then show ?case using ok(7) [of k e' k' e''] new [of k e'] new [of k' e''] by (auto simp: table split: if_splits)
    qed (use ok fresh(1) in \<open>auto simp: table wf_table split: if_splits\<close>)
  qed
qed

lemma slot_account:
  assumes "wallet_account id_hash t ms rs" and "inj id_hash" and "hm_get (ws_by_conn t) c = None" and "ws_counter t \<noteq> - 1"
  shows "wallet_account id_hash (fst (take_wallet_slot id_hash t pk ip c)) ms rs" (is "wallet_account _ ?t _ _")
proof -
  have ok: "wallet_ok id_hash t" "wallet_ok id_hash ?t" using assms slot_ok by (auto simp: wallet_account_def)
  note wf = wallet_okD(1) [OF ok(1)] wallet_okD(1) [OF ok(2)]
  have rs: "\<exists>n < ws_counter t. snd s = id_hash n" "hm_get (ws_sessions t) k = Some e \<Longrightarrow> entry_id e \<noteq> snd s"
    if "s \<in> set rs" for s k e using that assms(1) unfolding wallet_account_def by blast+
  show ?thesis
  proof (cases rule: slot_cases [of t pk ip id_hash c])
    case (join e)
    have "set (wallet_live ?t) = set (wallet_live t)"
      by (rule wallet_live_cong [OF wf]) (simp add: join table)
    then show ?thesis using assms(1) rs join(1) ok(2) unfolding wallet_account_def join(2)
      by (auto simp: table split: if_splits)
  next
    case fresh
    have "set (wallet_live ?t) = set (wallet_live t)"
      by (rule wallet_live_cong [OF wf]) (simp add: fresh table)
    moreover have "id_hash (ws_counter t) \<noteq> snd s" if "s \<in> set rs" for s
      using rs(1) [OF that] assms(2) by (auto simp: inj_eq)
    moreover have "\<exists>n < ws_counter t + 1. snd s = id_hash n" if "s \<in> set rs" for s
      using rs(1) [OF that] assms(4) by (auto simp: word_less_succ intro: less_imp_le)
    ultimately show ?thesis using assms(1) rs(2) ok(2) unfolding wallet_account_def fresh(2)
      by (auto simp: table split: if_splits)
  qed
qed

lemma mark_account:
  assumes "wallet_account id_hash t ms rs" and "hm_get (ws_by_conn t) c = Some k" and "hm_get (ws_sessions t) k = Some e"
  shows "wallet_account id_hash (mark_admitted t (fst k, entry_id e)) ((fst k, entry_id e) # ms) rs"
    (is "wallet_account _ ?t _ _")
proof -
  have ok: "wallet_ok id_hash t" using assms(1) by (simp add: wallet_account_def)
  note okD = wallet_okD [OF ok]
  have get: "hm_get (ws_sessions ?t) j = (if j = k then Some (e\<lparr>admitted := True\<rparr>) else hm_get (ws_sessions t) j)" for j
  proof -
    have mem: "(k, e) \<in> set (ws_sessions t)" using assms(3) by (simp add: hm_in_set_iff [OF okD(1)])
    have "k' = k" if "(k', e') \<in> set (ws_sessions t)" "entry_id e' = entry_id e" for k' e'
      using okD(7) [OF assms(3), of k' e'] that hm_in_set_iff [OF okD(1)] by metis
    from mark_first_get [OF okD(1) mem this] show ?thesis by (simp add: mark_admitted_def)
  qed
  have wf: "hm_wf (ws_sessions ?t)" using okD(1) by (simp add: mark_admitted_def hm_wf_def)
  have same: "ws_by_conn ?t = ws_by_conn t" "ws_counter ?t = ws_counter t" by (simp_all add: mark_admitted_def)
  have marked: "(fst k, entry_id e) \<in> set (wallet_live ?t)"
    using wallet_liveI [OF wf, of k "e\<lparr>admitted := True\<rparr>"] by (simp add: get)
  have "wallet_ok id_hash ?t"
  proof (rule wallet_okI, goal_cases)
    case (7 j j' d d')
    then show ?case using okD(7) [of j d j' d'] okD(7) [OF assms(3), of j' d'] okD(7) [OF _ assms(3), of j d]
      by (auto simp: get split: if_splits)
  qed (use okD assms(3) wf in \<open>auto simp: get same split: if_splits\<close>)
  moreover have "set (wallet_live ?t) = insert (fst k, entry_id e) (set (wallet_live t))"
  proof (intro set_eqI iffI)
    fix s assume "s \<in> set (wallet_live ?t)"
    then obtain j d where "hm_get (ws_sessions ?t) j = Some d" "admitted d" "s = (fst j, entry_id d)" by (rule wallet_liveE [OF _ wf])
    then show "s \<in> insert (fst k, entry_id e) (set (wallet_live t))"
      using wallet_liveI [OF okD(1), of j d] by (auto simp: get split: if_splits)
  next
    fix s assume "s \<in> insert (fst k, entry_id e) (set (wallet_live t))"
    then consider "s = (fst k, entry_id e)" | "s \<in> set (wallet_live t)" by blast
    then show "s \<in> set (wallet_live ?t)"
    proof cases
      case 1
      then show ?thesis using marked by simp
    next
      case 2
      then obtain j d where "hm_get (ws_sessions t) j = Some d" "admitted d" "s = (fst j, entry_id d)" by (rule wallet_liveE [OF _ okD(1)])
      then show ?thesis using wallet_liveI [OF wf, of j d] marked assms(3) get [of j] by (cases "j = k") auto
    qed
  qed
  ultimately show ?thesis using assms(1,3) unfolding wallet_account_def by (auto simp: get same)
qed

lemma leave_cases:
  assumes "wallet_ok id_hash t"
  obtains (unknown) "hm_get (ws_by_conn t) c = None" "wallet_leave t c = (t, None)"
  | (stays) k e where "hm_get (ws_by_conn t) c = Some k" "hm_get (ws_sessions t) k = Some e" "removeAll c (entry_conns e) \<noteq> []"
    "wallet_leave t c = (t\<lparr>ws_by_conn := hm_remove c (ws_by_conn t),
       ws_sessions := hm_insert k (e\<lparr>entry_conns := removeAll c (entry_conns e)\<rparr>) (ws_sessions t)\<rparr>, None)"
  | (ends) k e where "hm_get (ws_by_conn t) c = Some k" "hm_get (ws_sessions t) k = Some e" "set (entry_conns e) = {c}"
    "wallet_leave t c = (t\<lparr>ws_by_conn := hm_remove c (ws_by_conn t), ws_sessions := hm_remove k (ws_sessions t)\<rparr>,
       if admitted e then Some (fst k, entry_id e) else None)"
proof (cases "hm_get (ws_by_conn t) c")
  case None
  then show thesis using unknown by (simp add: wallet_leave_def)
next
  case (Some k)
  then obtain e where e: "hm_get (ws_sessions t) k = Some e" using wallet_okD(6) [OF assms] by blast
  then have "c \<in> set (entry_conns e)" using wallet_okD(4) [OF assms e] Some by simp
  show thesis
  proof (cases "removeAll c (entry_conns e) = []")
    case True
    then have "set (entry_conns e) = {c}" using \<open>c \<in> set (entry_conns e)\<close> by (metis insert_Diff list.set(1) set_removeAll)
    then show thesis using ends [OF Some e] True Some e by (simp add: wallet_leave_def)
  next
    case False
    then show thesis using stays [OF Some e False] Some e by (simp add: wallet_leave_def)
  qed
qed

lemma leave_account:
  assumes "wallet_account id_hash t ms rs" and "wallet_leave t c = (t', r)"
  shows "wallet_account id_hash t' ms (case r of None \<Rightarrow> rs | Some s \<Rightarrow> s # rs)"
proof -
  have ok: "wallet_ok id_hash t" using assms(1) by (simp add: wallet_account_def)
  note okD = wallet_okD [OF ok]
  show ?thesis
  proof (cases rule: leave_cases [OF ok, of c, case_names unknown stays ends])
    case unknown
    then show ?thesis using assms by simp
  next
    case (stays k e)
    have t': "t' = t\<lparr>ws_by_conn := hm_remove c (ws_by_conn t),
       ws_sessions := hm_insert k (e\<lparr>entry_conns := removeAll c (entry_conns e)\<rparr>) (ws_sessions t)\<rparr>" "r = None"
      using stays(4) assms(2) by simp_all
    have wf: "hm_wf (ws_sessions t')" using okD(1) by (simp add: t' wf_table)
    have "wallet_ok id_hash t'" unfolding t'(1)
    proof (rule wallet_okI, goal_cases)
      case (4 j d x) then show ?case using okD(4) [OF stays(2), of x] okD(4) [of j d x] stays(1)
        by (auto simp: table split: if_splits)
    next
      case (7 j j' d d') then show ?case using okD(7) [of j d j' d'] okD(7) [OF stays(2), of j' d'] okD(7) [OF _ stays(2), of j d]
        by (auto simp: table split: if_splits)
    qed (use okD stays in \<open>auto simp: table wf_table split: if_splits\<close>)
    moreover have "set (wallet_live t') = set (wallet_live t)"
      by (rule wallet_live_cong [OF okD(1) wf]) (simp add: t'(1) stays(2) table)
    ultimately show ?thesis using assms(1) stays(2) t' unfolding wallet_account_def by (auto simp: table split: if_splits)
  next
    case (ends k e)
    have t': "t' = t\<lparr>ws_by_conn := hm_remove c (ws_by_conn t), ws_sessions := hm_remove k (ws_sessions t)\<rparr>"
      and r: "r = (if admitted e then Some (fst k, entry_id e) else None)" using ends(4) assms(2) by simp_all
    have wf: "hm_wf (ws_sessions t')" using okD(1) by (simp add: t' wf_table)
    have "wallet_ok id_hash t'" unfolding t'
    proof (rule wallet_okI, goal_cases)
      case (4 j d x) then show ?case using okD(4) [OF ends(2), of x] okD(4) [of j d x] ends(1)
        by (auto simp: table split: if_splits)
    next
      case (6 x j) then show ?case using okD(4) [OF ends(2), of x] okD(6) [of x j] ends(3) by (auto simp: table split: if_splits)
    next
      case (7 j j' d d') then show ?case using okD(7) [of j d j' d'] by (auto simp: table split: if_splits)
    qed (use okD ends in \<open>auto simp: table wf_table split: if_splits\<close>)
    moreover have "set (wallet_live t) = set (wallet_live t') \<union> set_option r"
    proof (intro set_eqI iffI)
      fix s assume "s \<in> set (wallet_live t)"
      then obtain j d where "hm_get (ws_sessions t) j = Some d" "admitted d" "s = (fst j, entry_id d)" by (rule wallet_liveE [OF _ okD(1)])
      then show "s \<in> set (wallet_live t') \<union> set_option r"
        using wallet_liveI [OF wf, of j d] ends(2) by (cases "j = k") (simp_all add: r t' table)
    next
      fix s assume "s \<in> set (wallet_live t') \<union> set_option r"
      then consider "s \<in> set (wallet_live t')" | "r = Some s" by auto
      then show "s \<in> set (wallet_live t)"
      proof cases
        case 1
        then obtain j d where "hm_get (ws_sessions t') j = Some d" "admitted d" "s = (fst j, entry_id d)" by (rule wallet_liveE [OF _ wf])
        then show ?thesis using wallet_liveI [OF okD(1), of j d] by (simp add: t' table split: if_splits)
      next
        case 2
        then show ?thesis using wallet_liveI [OF okD(1) ends(2)] by (simp add: r split: if_splits)
      qed
    qed
    moreover have "entry_id d \<noteq> snd s" if "s \<in> set_option r" "hm_get (ws_sessions t') j = Some d" for s j d
      using okD(7) [OF ends(2), of j d] that by (auto simp: r t' table split: if_splits)
    moreover have "\<exists>n < ws_counter t. snd s = id_hash n" if "s \<in> set_option r" for s
      using okD(5) [OF ends(2)] that by (auto simp: r split: if_splits)
    moreover have "\<forall>s\<in>set rs. entry_id e \<noteq> snd s" using assms(1) ends(2) unfolding wallet_account_def by blast
    then have "s \<notin> set rs" if "s \<in> set_option r" for s using that by (auto simp: r split: if_splits)
    ultimately show ?thesis using assms(1) unfolding wallet_account_def
      by (cases r) (auto simp: t' table split: if_splits)
  qed
qed

lemma wallet_run_account: "wallet_run id_hash t ms rs \<Longrightarrow> inj id_hash \<Longrightarrow> wallet_account id_hash t ms rs"
proof (induction rule: wallet_run.induct)
  case w_start
  show ?case by (simp add: wallet_account_def wallet_ok_def new_wallet_tables_def wallet_live_def)
qed (simp_all add: slot_account mark_account leave_account)

text \<open>
  C34: A wallet session is counted exactly once. Whatever the order in which connections take their
  slots, the gate's verdicts arrive and connections leave, the sessions the gate admitted are those
  reported ended together with those still live, no session is in both, and none was reported twice:
  the deployer's count neither leaks a session nor releases one that still serves. Every live session
  has a connection, the connections of one account on one address are one session, and two sessions
  never share an identifier.
\<close>
theorem wallet_sessions_are_counted_once:
  assumes "wallet_run id_hash t admitted_by_gate reported" and "inj id_hash"
  shows "set admitted_by_gate = set reported \<union> set (wallet_live t)
    \<and> set reported \<inter> set (wallet_live t) = {} \<and> distinct reported
    \<and> (\<forall>k e. hm_get (ws_sessions t) k = Some e \<longrightarrow>
         entry_conns e \<noteq> [] \<and> (\<forall>c. c \<in> set (entry_conns e) \<longleftrightarrow> hm_get (ws_by_conn t) c = Some k))
    \<and> (\<forall>k k' e e'. hm_get (ws_sessions t) k = Some e \<longrightarrow> hm_get (ws_sessions t) k' = Some e' \<longrightarrow>
         k \<noteq> k' \<longrightarrow> entry_id e \<noteq> entry_id e')"
proof -
  have acc: "wallet_account id_hash t admitted_by_gate reported" by (rule wallet_run_account [OF assms])
  then have ok: "wallet_ok id_hash t" by (simp add: wallet_account_def)
  have "s \<notin> set (wallet_live t)" if "s \<in> set reported" for s
  proof
    assume "s \<in> set (wallet_live t)"
    then obtain k e where "hm_get (ws_sessions t) k = Some e" "s = (fst k, entry_id e)"
      by (rule wallet_liveE [OF _ wallet_okD(1) [OF ok]])
    then show False using acc that unfolding wallet_account_def by (metis snd_conv)
  qed
  then have "set reported \<inter> set (wallet_live t) = {}" by blast
  then show ?thesis using acc wallet_okD(3,4,7) [OF ok] unfolding wallet_account_def by blast
qed

theorem wallet_sessions_are_counted_once_witness:
  "let h = (\<lambda>n :: u64. replicate (unat n) (0 :: u8)); t = fst (take_wallet_slot h new_wallet_tables [7] 9 1);
       t' = mark_admitted t ([7], h 0); (t'', r) = wallet_leave t' 1
   in r = Some ([7], h 0) \<and> wallet_live t' = [([7], h 0)] \<and> wallet_live t'' = []
      \<and> set [([7], h 0)] = set [([7], h 0)] \<union> set (wallet_live t'')"
proof -
  let ?h = "\<lambda>n :: u64. replicate (unat n) (0 :: u8)"
  let ?e = "\<lparr>entry_id = [], entry_conns = [1], admitted = False\<rparr>"
  let ?t = "\<lparr>ws_sessions = [(([7], 9), ?e)], ws_by_conn = [(1, [7], 9)], ws_counter = 1\<rparr> :: wallet_tables"
  let ?t' = "?t\<lparr>ws_sessions := [(([7], 9), ?e\<lparr>admitted := True\<rparr>)]\<rparr>"
  let ?t'' = "\<lparr>ws_sessions = [], ws_by_conn = [], ws_counter = 1\<rparr> :: wallet_tables"
  have slot: "fst (take_wallet_slot ?h new_wallet_tables [7] 9 1) = ?t" by (simp add: take_wallet_slot_def new_wallet_tables_def)
  have mark: "mark_admitted ?t ([7], []) = ?t'" by (simp add: mark_admitted_def)
  have leave: "wallet_leave ?t' 1 = (?t'', Some ([7], []))" by (simp add: wallet_leave_def hm_get_def hm_remove_def)
  have "wallet_run ?h ?t [] []" using w_slot [OF w_start, where c = 1 and pk = "[7]" and ip = 9 and id_hash = ?h]
    unfolding slot by (simp add: new_wallet_tables_def)
  then have "wallet_run ?h ?t' [([7], [])] []"
    using w_mark [of ?h ?t "[]" "[]" 1 "([7], 9)" ?e] unfolding mark [symmetric] by (simp add: hm_get_def)
  then have "wallet_run ?h ?t'' [([7], [])] [([7], [])]" using w_leave [OF _ leave] by fastforce
  moreover have "inj ?h" by (rule injI) (metis length_replicate unsigned_word_eqI)
  ultimately have "set [([7], [])] = set [([7], [])] \<union> set (wallet_live ?t'')"
    using wallet_sessions_are_counted_once by blast
  then show ?thesis by (simp add: slot mark leave [simplified] wallet_live_def Let_def)
qed

end
