(* ===== verification/Session_Registry.thy ===== *)
theory Session_Registry
  imports Wallet_Sessions
begin

text \<open>
  The live sessions of a multi-hop exit, \<open>multihop-server/src/multihop.rs\<close>
  (\<open>MultihopSessionRegistry\<close>), with the anchors and route sessions of \<open>multihop/route.rs\<close> and the lease
  refresh of \<open>multihop/lease.rs\<close>. A connection handle is its connection identifier. What an operation
  does outside the registry (a message on a connection's control channel, a close, a call of a
  deployer's observer, the move of an address to a new owner) is the list of effects it returns. Every
  operation is one step; inside \<open>unregister_key\<close>, \<open>terminate\<close> and \<open>end_route\<close> the source takes the locks of the
  tables in turn.

  The digest of a request, the verdicts of the deployer's admitters and whether a control channel takes
  a message are arguments.
\<close>

section \<open>State\<close>

type_synonym serial = pubkey
type_synonym digest = "u8 list"
type_synonym locator = "u8 list"

datatype session_key = Wallet_key pubkey | Token_key serial | Route_key serial

fun key_value :: "session_key \<Rightarrow> pubkey" where
  "key_value (Wallet_key v) = v"
| "key_value (Token_key v) = v"
| "key_value (Route_key v) = v"

datatype anchor_status = Anchor_bound | Anchor_needs_token | Anchor_not_eligible | Anchor_refused | Anchor_unavailable
  | Anchor_lost | Anchor_other u8

record anchor_verdict =
  verdict_status :: anchor_status
  max_routes :: u16

definition status_verdict :: "anchor_status \<Rightarrow> anchor_verdict" where
  "status_verdict s = \<lparr>verdict_status = s, max_routes = 0\<rparr>"

datatype lease_status = Lease_registered | Lease_refreshed | Lease_refused | Lease_unavailable | Lease_not_eligible
  | Lease_due | Lease_expired | Lease_other u8

datatype token_admission = Token_admit serial | Token_reject | Token_denied | Token_serial_in_use

record lease_slot =
  capable :: bool
  stale_since :: "instant option"
  spend_in_flight :: bool
  last_spend :: "instant option"
  last_spend_verdict :: "(digest \<times> lease_status) option"
  counted_period :: "u64 option"

definition new_lease_slot :: lease_slot where
  "new_lease_slot = \<lparr>capable = False, stale_since = None, spend_in_flight = False, last_spend = None,
     last_spend_verdict = None, counted_period = None\<rparr>"

record anchor_slot =
  lease_serial :: serial
  anchored :: bool
  call_in_flight :: bool
  last_call :: "instant option"
  last_verdict :: "(digest \<times> anchor_verdict) option"
  lease :: lease_slot

definition new_anchor_slot :: "serial \<Rightarrow> anchor_slot" where
  "new_anchor_slot s = \<lparr>lease_serial = s, anchored = False, call_in_flight = False, last_call = None,
     last_verdict = None, lease = new_lease_slot\<rparr>"

record ipv4_owner =
  owner_pubkey :: pubkey
  departed_deadline :: "instant option"

record registry =
  live :: "(session_key, conn_id list) hmap"
  ipv4_to_pubkey :: "(ipv4, ipv4_owner) hmap"
  control :: "(session_key \<times> conn_id) list"
  anchors :: "(serial, anchor_slot) hmap"
  locators :: "(serial, locator) hmap"
  ended_by_policy :: "serial list"
  wallet :: wallet_tables

definition new_registry :: registry where
  "new_registry = \<lparr>live = [], ipv4_to_pubkey = [], control = [], anchors = [], locators = [], ended_by_policy = [],
     wallet = new_wallet_tables\<rparr>"

datatype outbound = Anchor_ack anchor_verdict | Lease_ack lease_status | End_route u8 | End_lease

datatype close_code = Close_rejected | Close_lease_expired

datatype effect =
    Sent session_key conn_id outbound
  | Closed conn_id close_code
  | Token_ended serial
  | Route_ended serial
  | Wallet_ended wallet_session
  | Owner_moved serial serial

section \<open>The lease a session holds\<close>

definition lease_of :: "registry \<Rightarrow> serial \<Rightarrow> serial" where
  "lease_of reg key = (case hm_get (anchors reg) key of None \<Rightarrow> key | Some slot \<Rightarrow> lease_serial slot)"

fun token_of :: "session_key \<Rightarrow> serial option" where
  "token_of (Token_key s) = Some s"
| "token_of _ = None"

definition token_keys :: "registry \<Rightarrow> serial list" where
  "token_keys reg = List.map_filter token_of (map fst (live reg))"

definition live_token_serials :: "registry \<Rightarrow> serial list" where
  "live_token_serials reg = map (lease_of reg) (token_keys reg)"

definition is_token_serial_live :: "registry \<Rightarrow> serial \<Rightarrow> bool" where
  "is_token_serial_live reg s \<longleftrightarrow> s \<in> set (live_token_serials reg)"

section \<open>Connections come and go\<close>

definition conns_of :: "registry \<Rightarrow> session_key \<Rightarrow> conn_id list" where
  "conns_of reg key = (case hm_get (live reg) key of None \<Rightarrow> [] | Some cs \<Rightarrow> cs)"

fun reset_for_new_session :: "session_key \<Rightarrow> registry \<Rightarrow> registry" where
  "reset_for_new_session (Token_key s) reg = reg\<lparr>anchors := hm_remove s (anchors reg)\<rparr>"
| "reset_for_new_session (Route_key s) reg = reg\<lparr>ended_by_policy := removeAll s (ended_by_policy reg)\<rparr>"
| "reset_for_new_session (Wallet_key _) reg = reg"

definition register_key :: "registry \<Rightarrow> session_key \<Rightarrow> conn_id \<Rightarrow> registry" where
  "register_key reg key conn =
     (let conns = conns_of reg key;
          reg' = (if conns = [] then reset_for_new_session key reg else reg)
      in reg'\<lparr>live := hm_insert key (List.insert conn conns) (live reg)\<rparr>)"

definition attach_control :: "registry \<Rightarrow> session_key \<Rightarrow> conn_id \<Rightarrow> registry" where
  "attach_control reg key conn = reg\<lparr>control := List.insert (key, conn) (control reg)\<rparr>"

definition retain_locator :: "registry \<Rightarrow> serial \<Rightarrow> locator \<Rightarrow> registry" where
  "retain_locator reg s loc = reg\<lparr>locators := hm_insert s loc (locators reg)\<rparr>"

text \<open>\<open>DEPARTED_ATTRIBUTION_RETENTION\<close>.\<close>

definition departed_attribution_retention :: duration where
  "departed_attribution_retention = from_secs 360"

definition record_assigned_ipv4 :: "registry \<Rightarrow> ipv4 \<Rightarrow> pubkey \<Rightarrow> registry" where
  "record_assigned_ipv4 reg ip pk =
     reg\<lparr>ipv4_to_pubkey := hm_insert ip \<lparr>owner_pubkey = pk, departed_deadline = None\<rparr> (ipv4_to_pubkey reg)\<rparr>"

definition tombstone_attribution :: "registry \<Rightarrow> pubkey \<Rightarrow> instant \<Rightarrow> registry" where
  "tombstone_attribution reg pk now =
     reg\<lparr>ipv4_to_pubkey := map (\<lambda>(ip, own). (ip,
        if owner_pubkey own = pk \<and> departed_deadline own = None
        then own\<lparr>departed_deadline := Some (now + departed_attribution_retention)\<rparr> else own)) (ipv4_to_pubkey reg)\<rparr>"

definition forget_route :: "registry \<Rightarrow> serial \<Rightarrow> registry" where
  "forget_route reg s =
     reg\<lparr>locators := hm_remove s (locators reg), ended_by_policy := removeAll s (ended_by_policy reg)\<rparr>"

text \<open>The session whose last connection went: what is forgotten, and who is told.\<close>

fun end_session :: "registry \<Rightarrow> session_key \<Rightarrow> registry \<times> effect list" where
  "end_session reg (Token_key s) = (reg\<lparr>anchors := hm_remove s (anchors reg)\<rparr>, [Token_ended (lease_of reg s)])"
| "end_session reg (Route_key s) = (forget_route reg s, [Route_ended s])"
| "end_session reg (Wallet_key _) = (reg, [])"

fun leave_wallet :: "registry \<Rightarrow> session_key \<Rightarrow> conn_id \<Rightarrow> registry \<times> effect list" where
  "leave_wallet reg (Wallet_key _) conn =
     (case wallet_leave (wallet reg) conn of
        (w, ended) \<Rightarrow> (reg\<lparr>wallet := w\<rparr>, case ended of None \<Rightarrow> [] | Some s \<Rightarrow> [Wallet_ended s]))"
| "leave_wallet reg _ conn = (reg, [])"

definition unregister_key :: "registry \<Rightarrow> session_key \<Rightarrow> conn_id \<Rightarrow> instant \<Rightarrow> registry \<times> effect list" where
  "unregister_key reg key conn now =
     (case leave_wallet (reg\<lparr>control := removeAll (key, conn) (control reg)\<rparr>) key conn of
        (reg, told) \<Rightarrow>
          case hm_get (live reg) key of
            None \<Rightarrow> (reg, told)
          | Some conns \<Rightarrow>
              let conns' = removeAll conn conns
              in if conns' \<noteq> [] then (reg\<lparr>live := hm_insert key conns' (live reg)\<rparr>, told)
                 else case end_session (reg\<lparr>live := hm_remove key (live reg)\<rparr>) key of
                        (reg, ended) \<Rightarrow> (tombstone_attribution reg (key_value key) now, told @ ended))"

section \<open>Attribution of tunnel addresses\<close>

definition reap_departed :: "instant \<Rightarrow> registry \<Rightarrow> registry" where
  "reap_departed now reg =
     reg\<lparr>ipv4_to_pubkey := hm_retain (\<lambda>ip own. case departed_deadline own of None \<Rightarrow> True | Some d \<Rightarrow> now < d)
        (ipv4_to_pubkey reg)\<rparr>"

definition addresses_sharing_owner_at :: "registry \<Rightarrow> ipv4 \<Rightarrow> instant \<Rightarrow> registry \<times> ipv4 list" where
  "addresses_sharing_owner_at reg ip now =
     (let reg = reap_departed now reg
      in (reg, case hm_get (ipv4_to_pubkey reg) ip of
                 None \<Rightarrow> [ip]
               | Some own \<Rightarrow> map fst (filter (\<lambda>(_, own'). owner_pubkey own' = owner_pubkey own) (ipv4_to_pubkey reg))))"

definition snapshot_ipv4_to_pubkey_at :: "registry \<Rightarrow> instant \<Rightarrow> registry \<times> (ipv4, pubkey) hmap" where
  "snapshot_ipv4_to_pubkey_at reg now =
     (let reg = reap_departed now reg in (reg, map (\<lambda>(ip, own). (ip, owner_pubkey own)) (ipv4_to_pubkey reg)))"

section \<open>Revocation\<close>

definition terminate :: "registry \<Rightarrow> pubkey \<Rightarrow> registry \<times> effect list" where
  "terminate reg pk =
     (reg\<lparr>live := hm_remove (Wallet_key pk) (live reg),
          ipv4_to_pubkey := hm_retain (\<lambda>ip own. owner_pubkey own \<noteq> pk) (ipv4_to_pubkey reg)\<rparr>,
      map (\<lambda>c. Closed c Close_rejected) (conns_of reg (Wallet_key pk)))"

fun wallet_of :: "session_key \<Rightarrow> pubkey option" where
  "wallet_of (Wallet_key pk) = Some pk"
| "wallet_of _ = None"

fun terminate_all :: "registry \<Rightarrow> pubkey list \<Rightarrow> registry \<times> effect list" where
  "terminate_all reg [] = (reg, [])"
| "terminate_all reg (pk # pks) =
     (case terminate reg pk of (reg, es) \<Rightarrow> case terminate_all reg pks of (reg, es') \<Rightarrow> (reg, es @ es'))"

definition terminate_where :: "registry \<Rightarrow> (pubkey \<Rightarrow> bool) \<Rightarrow> registry \<times> effect list" where
  "terminate_where reg is_still_authorized =
     terminate_all reg (filter (\<lambda>pk. \<not> is_still_authorized pk) (List.map_filter wallet_of (map fst (live reg))))"

section \<open>Anchors and routes\<close>

definition controls_of :: "registry \<Rightarrow> session_key \<Rightarrow> conn_id list" where
  "controls_of reg key = map snd (filter (\<lambda>(k, _). k = key) (control reg))"

definition slot_or_new :: "registry \<Rightarrow> serial \<Rightarrow> anchor_slot" where
  "slot_or_new reg s = (case hm_get (anchors reg) s of None \<Rightarrow> new_anchor_slot s | Some slot \<Rightarrow> slot)"

definition put_slot :: "registry \<Rightarrow> serial \<Rightarrow> anchor_slot \<Rightarrow> registry" where
  "put_slot reg s slot = reg\<lparr>anchors := hm_insert s slot (anchors reg)\<rparr>"

definition update_slot :: "registry \<Rightarrow> serial \<Rightarrow> (anchor_slot \<Rightarrow> anchor_slot) \<Rightarrow> registry" where
  "update_slot reg s f =
     (case hm_get (anchors reg) s of None \<Rightarrow> reg | Some slot \<Rightarrow> put_slot reg s (f slot))"

definition put_lease :: "registry \<Rightarrow> serial \<Rightarrow> lease_slot \<Rightarrow> registry" where
  "put_lease reg s slot = put_slot reg s (slot_or_new reg s\<lparr>lease := slot\<rparr>)"

text \<open>\<open>ANCHOR_MIN_INTERVAL\<close> and \<open>REFRESH_MIN_INTERVAL\<close>.\<close>

definition anchor_min_interval :: duration where
  "anchor_min_interval = from_secs 2"

definition refresh_min_interval :: duration where
  "refresh_min_interval = from_secs 2"

datatype anchor_decision = Anchor_repeat anchor_verdict | Anchor_throttled | Anchor_call serial | Anchor_gone

definition handle_anchor_request :: "registry \<Rightarrow> serial \<Rightarrow> digest \<Rightarrow> instant \<Rightarrow> registry \<times> anchor_decision" where
  "handle_anchor_request reg key_serial dig now =
     (if \<not> hm_contains (live reg) (Token_key key_serial) then (reg, Anchor_gone)
      else let slot = slot_or_new reg key_serial; put = put_slot reg key_serial;
               busy = (call_in_flight slot
                 \<or> (case last_call slot of None \<Rightarrow> False | Some at \<Rightarrow> now - at < anchor_min_interval));
               fresh = (if busy then (put slot, Anchor_throttled)
                        else (put (slot\<lparr>call_in_flight := True, last_call := Some now\<rparr>), Anchor_call (lease_serial slot)))
           in case last_verdict slot of
                Some (last_digest, verdict) \<Rightarrow> if last_digest = dig then (put slot, Anchor_repeat verdict) else fresh
              | None \<Rightarrow> fresh)"

text \<open>The acknowledgement sent at once; a call is acknowledged when its verdict is in.\<close>

fun anchor_reply :: "anchor_decision \<Rightarrow> anchor_verdict option" where
  "anchor_reply (Anchor_repeat verdict) = Some verdict"
| "anchor_reply _ = None"

text \<open>
  Only a session admitted on a token, on an exit with a registry and route admission, may anchor; any
  other request is answered at once.
\<close>

fun submit_anchor ::
  "registry option \<Rightarrow> session_key option \<Rightarrow> bool \<Rightarrow> digest \<Rightarrow> instant \<Rightarrow> registry option \<times> anchor_decision option \<times> anchor_verdict option" where
  "submit_anchor (Some reg) (Some (Token_key s)) True dig now =
     (case handle_anchor_request reg s dig now of (reg', d) \<Rightarrow> (Some reg', Some d, anchor_reply d))"
| "submit_anchor reg key route dig now = (reg, None, Some (status_verdict Anchor_not_eligible))"

definition finish_anchor :: "registry \<Rightarrow> serial \<Rightarrow> digest \<Rightarrow> anchor_verdict \<Rightarrow> registry" where
  "finish_anchor reg key_serial dig verdict =
     update_slot reg key_serial (\<lambda>slot. slot\<lparr>call_in_flight := False, anchored := (verdict_status verdict = Anchor_bound),
       last_verdict := Some (dig, verdict)\<rparr>)"

datatype rebind_outcome = Rebind_done | Rebind_held_elsewhere | Rebind_gone

definition held_elsewhere :: "registry \<Rightarrow> serial \<Rightarrow> serial \<Rightarrow> bool" where
  "held_elsewhere reg key_serial new \<longleftrightarrow> (\<exists>s\<in>set (token_keys reg). s \<noteq> key_serial \<and> lease_of reg s = new)"

definition rebind_lease :: "registry \<Rightarrow> serial \<Rightarrow> serial \<Rightarrow> registry \<times> rebind_outcome \<times> effect list" where
  "rebind_lease reg key_serial new =
     (if held_elsewhere reg key_serial new then (reg, Rebind_held_elsewhere, [])
      else case (hm_contains (live reg) (Token_key key_serial), hm_get (anchors reg) key_serial) of
             (True, Some slot) \<Rightarrow>
               let old = lease_serial slot
               in (put_slot reg key_serial (slot\<lparr>lease_serial := new, lease := (lease slot)\<lparr>stale_since := None\<rparr>\<rparr>),
                   Rebind_done, if old \<noteq> new then [Owner_moved old new, Token_ended old] else [])
           | _ \<Rightarrow> (reg, Rebind_gone, [Token_ended new]))"

text \<open>
  What an anchor request with a token comes to before the policy is asked: a verdict, or the lease the
  policy is asked about. \<open>admission\<close> is the token's, or \<open>None\<close> on an exit with no token admitter.
\<close>

definition anchor_lease ::
  "registry \<Rightarrow> serial \<Rightarrow> serial \<Rightarrow> bool \<Rightarrow> token_admission option \<Rightarrow> registry \<times> (anchor_verdict + serial) \<times> effect list" where
  "anchor_lease reg key_serial leased has_token admission =
     (if \<not> has_token then (reg, Inr leased, [])
      else case admission of
             Some (Token_admit s) \<Rightarrow>
               (case rebind_lease reg key_serial s of
                  (reg, Rebind_done, es) \<Rightarrow> (reg, Inr s, es)
                | (reg, _, es) \<Rightarrow> (reg, Inl (status_verdict Anchor_refused), es))
           | _ \<Rightarrow> (reg, Inl (status_verdict Anchor_refused), []))"

definition live_anchor_serials :: "registry \<Rightarrow> serial list" where
  "live_anchor_serials reg =
     map lease_serial (filter anchored (List.map_filter (hm_get (anchors reg)) (token_keys reg)))"

definition send_to :: "(session_key \<times> conn_id \<Rightarrow> bool) \<Rightarrow> session_key \<Rightarrow> conn_id \<Rightarrow> outbound \<Rightarrow> effect list" where
  "send_to accepts key conn out = (if accepts (key, conn) then [Sent key conn out] else [])"

definition notify_anchor_lost ::
  "(session_key \<times> conn_id \<Rightarrow> bool) \<Rightarrow> registry \<Rightarrow> serial \<Rightarrow> registry \<times> bool \<times> effect list" where
  "notify_anchor_lost accepts reg leased =
     (case find (\<lambda>(_, slot). lease_serial slot = leased) (anchors reg) of
        None \<Rightarrow> (reg, False, [])
      | Some (key_serial, slot) \<Rightarrow>
          let reg = put_slot reg key_serial (slot\<lparr>anchored := False, last_verdict := None\<rparr>)
          in case controls_of reg (Token_key key_serial) of
               [] \<Rightarrow> (reg, False, [])
             | conn # _ \<Rightarrow> (reg, True, send_to accepts (Token_key key_serial) conn (Anchor_ack (status_verdict Anchor_lost))))"

fun route_of :: "session_key \<Rightarrow> serial option" where
  "route_of (Route_key s) = Some s"
| "route_of _ = None"

definition live_route_serials :: "registry \<Rightarrow> serial list" where
  "live_route_serials reg = List.map_filter route_of (map fst (live reg))"

definition route_locator :: "registry \<Rightarrow> serial \<Rightarrow> locator option" where
  "route_locator reg s = hm_get (locators reg) s"

text \<open>A connection whose channel takes the message is told why it ends; any other is closed at once.\<close>

definition tell_or_close ::
  "(session_key \<times> conn_id \<Rightarrow> bool) \<Rightarrow> registry \<Rightarrow> session_key \<Rightarrow> outbound \<Rightarrow> close_code \<Rightarrow> conn_id \<Rightarrow> effect" where
  "tell_or_close accepts reg key out code conn =
     (if (key, conn) \<in> set (control reg) \<and> accepts (key, conn) then Sent key conn out else Closed conn code)"

definition end_route ::
  "(session_key \<times> conn_id \<Rightarrow> bool) \<Rightarrow> registry \<Rightarrow> serial \<Rightarrow> u8 \<Rightarrow> registry \<times> nat \<times> effect list" where
  "end_route accepts reg s reason =
     (case hm_get (live reg) (Route_key s) of
        None \<Rightarrow> (reg, 0, [])
      | Some conns \<Rightarrow>
          (reg\<lparr>ended_by_policy := List.insert s (ended_by_policy reg)\<rparr>, length conns,
           map (tell_or_close accepts reg (Route_key s) (End_route reason) Close_rejected) conns))"

section \<open>Lease refresh\<close>

datatype refresh_decision = Refresh_gone | Refresh_announced | Refresh_repeat lease_status | Refresh_throttled | Refresh_call

definition handle_lease_refresh ::
  "registry \<Rightarrow> serial \<Rightarrow> digest \<Rightarrow> bool \<Rightarrow> instant \<Rightarrow> registry \<times> refresh_decision" where
  "handle_lease_refresh reg key_serial dig has_token now =
     (if \<not> hm_contains (live reg) (Token_key key_serial) then (reg, Refresh_gone)
      else let slot = lease (slot_or_new reg key_serial); put = put_lease reg key_serial;
               busy = (spend_in_flight slot
                 \<or> (case last_spend slot of None \<Rightarrow> False | Some at \<Rightarrow> now - at < refresh_min_interval));
               fresh = (if busy then (put slot, Refresh_throttled)
                        else (put (slot\<lparr>spend_in_flight := True, last_spend := Some now\<rparr>), Refresh_call))
           in if \<not> has_token then (put (slot\<lparr>capable := True\<rparr>), Refresh_announced)
              else case last_spend_verdict slot of
                     Some (last_digest, status) \<Rightarrow> if last_digest = dig then (put slot, Refresh_repeat status) else fresh
                   | None \<Rightarrow> fresh)"

fun refresh_reply :: "refresh_decision \<Rightarrow> lease_status option" where
  "refresh_reply Refresh_announced = Some Lease_registered"
| "refresh_reply (Refresh_repeat status) = Some status"
| "refresh_reply _ = None"

fun submit_lease_refresh ::
  "registry option \<Rightarrow> session_key option \<Rightarrow> bool \<Rightarrow> digest \<Rightarrow> bool \<Rightarrow> instant \<Rightarrow>
    registry option \<times> refresh_decision option \<times> lease_status option" where
  "submit_lease_refresh (Some reg) (Some (Token_key s)) True dig has_token now =
     (case handle_lease_refresh reg s dig has_token now of (reg', d) \<Rightarrow> (Some reg', Some d, refresh_reply d))"
| "submit_lease_refresh reg key admitter dig has_token now = (reg, None, Some Lease_not_eligible)"

definition resolve_lease_refresh :: "registry \<Rightarrow> serial \<Rightarrow> token_admission \<Rightarrow> registry \<times> lease_status \<times> effect list" where
  "resolve_lease_refresh reg key_serial admission =
     (case admission of
        Token_admit s \<Rightarrow>
          (case rebind_lease reg key_serial s of
             (reg, Rebind_done, es) \<Rightarrow> (reg, Lease_refreshed, es)
           | (reg, _, es) \<Rightarrow> (reg, Lease_refused, es))
      | _ \<Rightarrow> (reg, Lease_refused, []))"

definition finish_lease_refresh :: "registry \<Rightarrow> serial \<Rightarrow> digest \<Rightarrow> lease_status \<Rightarrow> registry" where
  "finish_lease_refresh reg key_serial dig status =
     update_slot reg key_serial (\<lambda>a. a\<lparr>lease := (lease a)\<lparr>spend_in_flight := False,
       last_spend_verdict := (if status \<noteq> Lease_unavailable then Some (dig, status) else None),
       capable := (capable (lease a) \<or> status = Lease_refreshed)\<rparr>\<rparr>)"

definition keys_by_lease :: "registry \<Rightarrow> (serial, serial) hmap" where
  "keys_by_lease reg = fold (\<lambda>s. hm_insert (lease_of reg s) s) (token_keys reg) []"

record stale_lease =
  stale_for :: duration
  stale_capable :: bool
  first_in_period :: bool

definition note_stale :: "registry \<Rightarrow> serial \<Rightarrow> u64 \<Rightarrow> instant \<Rightarrow> registry \<times> stale_lease" where
  "note_stale reg key period now =
     (let slot = lease (slot_or_new reg key);
          since = (case stale_since slot of None \<Rightarrow> now | Some t \<Rightarrow> t);
          first = (counted_period slot \<noteq> Some period)
      in (put_lease reg key (slot\<lparr>stale_since := Some since,
             counted_period := (if first then Some period else counted_period slot)\<rparr>),
          \<lparr>stale_for = now - since, stale_capable = capable slot, first_in_period = first\<rparr>))"

fun stale_verdicts ::
  "(serial, serial) hmap \<Rightarrow> registry \<Rightarrow> serial list \<Rightarrow> u64 \<Rightarrow> instant \<Rightarrow> registry \<times> stale_lease option list \<times> serial list" where
  "stale_verdicts keys reg [] period now = (reg, [], [])"
| "stale_verdicts keys reg (l # ls) period now =
     (case hm_get keys l of
        None \<Rightarrow> (case stale_verdicts keys reg ls period now of (reg, vs, ask) \<Rightarrow> (reg, None # vs, ask))
      | Some key \<Rightarrow>
          (case note_stale reg key period now of
             (reg, v) \<Rightarrow>
               (case stale_verdicts keys reg ls period now of
                  (reg, vs, ask) \<Rightarrow> (reg, Some v # vs, if stale_capable v then key # ask else ask))))"

definition lease_refresh_due ::
  "(session_key \<times> conn_id \<Rightarrow> bool) \<Rightarrow> registry \<Rightarrow> serial list \<Rightarrow> u64 \<Rightarrow> instant \<Rightarrow> registry \<times> stale_lease option list \<times> effect list" where
  "lease_refresh_due accepts reg leases period now =
     (case stale_verdicts (keys_by_lease reg) reg leases period now of
        (reg, vs, ask) \<Rightarrow>
          (reg, vs, concat (map (\<lambda>key. case controls_of reg (Token_key key) of
             [] \<Rightarrow> [] | conn # _ \<Rightarrow> send_to accepts (Token_key key) conn (Lease_ack Lease_due)) ask)))"

definition end_expired_leases ::
  "(session_key \<times> conn_id \<Rightarrow> bool) \<Rightarrow> registry \<Rightarrow> serial list \<Rightarrow> nat list \<times> effect list" where
  "end_expired_leases accepts reg leases =
     (let sessions = map (\<lambda>l. case hm_get (keys_by_lease reg) l of
              None \<Rightarrow> (Token_key l, []) | Some key \<Rightarrow> (Token_key key, conns_of reg (Token_key key))) leases
      in (map (\<lambda>(key, conns). length conns) sessions,
          concat (map (\<lambda>(key, conns). map (tell_or_close accepts reg key End_lease Close_lease_expired) conns) sessions)))"

end
