(* ===== verification/Session_Leases.thy ===== *)
theory Session_Leases
  imports Session_Registry
begin

text \<open>
  The token leases of the session registry over its runs: which serial each live session holds, which
  serials the deployer is told have ended, and how often a session may spend a token. The deployer's
  ledger is part of the runs: it takes a lease when a token is spent and gives it back when it is told
  the serial ended and no live session holds it.
\<close>

section \<open>Runs of the registry\<close>

datatype reg_op =
    Register session_key conn_id
  | Unregister session_key conn_id instant
  | Attach session_key conn_id
  | Retain serial locator
  | Assigned ipv4 pubkey
  | Open_wallet pubkey ipv4 conn_id
  | Wallet_admitted wallet_session
  | Terminate pubkey
  | Sweep "pubkey \<Rightarrow> bool"
  | Reap instant
  | Anchor_request serial digest instant
  | Anchor_done serial digest anchor_verdict
  | Refresh_request serial digest bool instant
  | Refresh_done serial digest lease_status
  | Rebind_to serial serial
  | Lost serial
  | Stop_route serial u8
  | Due "serial list" u64 instant

fun reg_exec :: "(u64 \<Rightarrow> wallet_id) \<Rightarrow> (session_key \<times> conn_id \<Rightarrow> bool) \<Rightarrow> registry \<Rightarrow> reg_op \<Rightarrow> registry \<times> effect list" where
  "reg_exec h acc reg (Register key c) = (register_key reg key c, [])"
| "reg_exec h acc reg (Unregister key c now) = unregister_key reg key c now"
| "reg_exec h acc reg (Attach key c) = (attach_control reg key c, [])"
| "reg_exec h acc reg (Retain s loc) = (retain_locator reg s loc, [])"
| "reg_exec h acc reg (Assigned ip pk) = (record_assigned_ipv4 reg ip pk, [])"
| "reg_exec h acc reg (Open_wallet pk ip c) = (reg\<lparr>wallet := fst (take_wallet_slot h (wallet reg) pk ip c)\<rparr>, [])"
| "reg_exec h acc reg (Wallet_admitted s) = (reg\<lparr>wallet := mark_admitted (wallet reg) s\<rparr>, [])"
| "reg_exec h acc reg (Terminate pk) = terminate reg pk"
| "reg_exec h acc reg (Sweep auth) = terminate_where reg auth"
| "reg_exec h acc reg (Reap now) = (reap_departed now reg, [])"
| "reg_exec h acc reg (Anchor_request s d now) = (fst (handle_anchor_request reg s d now), [])"
| "reg_exec h acc reg (Anchor_done s d v) = (finish_anchor reg s d v, [])"
| "reg_exec h acc reg (Refresh_request s d tok now) = (fst (handle_lease_refresh reg s d tok now), [])"
| "reg_exec h acc reg (Refresh_done s d st) = (finish_lease_refresh reg s d st, [])"
| "reg_exec h acc reg (Rebind_to s new) = (case rebind_lease reg s new of (reg, _, es) \<Rightarrow> (reg, es))"
| "reg_exec h acc reg (Lost l) = (case notify_anchor_lost acc reg l of (reg, _, es) \<Rightarrow> (reg, es))"
| "reg_exec h acc reg (Stop_route s reason) = (case end_route acc reg s reason of (reg, _, es) \<Rightarrow> (reg, es))"
| "reg_exec h acc reg (Due ls period now) = (case lease_refresh_due acc reg ls period now of (reg, _, es) \<Rightarrow> (reg, es))"

section \<open>What holds of the registry\<close>

abbreviation is_live :: "registry \<Rightarrow> session_key \<Rightarrow> bool" where
  "is_live reg key \<equiv> hm_contains (live reg) key"

definition reg_ok :: "registry \<Rightarrow> bool" where
  "reg_ok reg \<longleftrightarrow> hm_wf (live reg) \<and> hm_wf (anchors reg)
     \<and> (\<forall>key. is_live reg key \<longrightarrow> conns_of reg key \<noteq> [])
     \<and> (\<forall>s. hm_contains (anchors reg) s \<longrightarrow> is_live reg (Token_key s))
     \<and> (\<forall>s. hm_contains (locators reg) s \<longrightarrow> is_live reg (Route_key s))
     \<and> (\<forall>s\<in>set (ended_by_policy reg). is_live reg (Route_key s))"

lemma token_of_Some [simp]: "token_of k = Some s \<longleftrightarrow> k = Token_key s"
  by (cases k) auto

lemma wallet_of_Some [simp]: "wallet_of k = Some s \<longleftrightarrow> k = Wallet_key s"
  by (cases k) auto

lemma token_keys_iff: "s \<in> set (token_keys reg) \<longleftrightarrow> is_live reg (Token_key s)"
  by (auto simp: token_keys_def set_map_filter_iff hm_contains_fst)

lemma serial_live_iff: "is_token_serial_live reg l \<longleftrightarrow> (\<exists>s. is_live reg (Token_key s) \<and> lease_of reg s = l)"
  by (auto simp: is_token_serial_live_def live_token_serials_def token_keys_iff)

lemma held_elsewhere_iff: "held_elsewhere reg k new \<longleftrightarrow> (\<exists>s. is_live reg (Token_key s) \<and> s \<noteq> k \<and> lease_of reg s = new)"
  by (auto simp: held_elsewhere_def token_keys_iff)

lemma lease_slot_or_new [simp]: "lease_serial (slot_or_new reg s) = lease_of reg s"
  by (simp add: slot_or_new_def lease_of_def new_anchor_slot_def split: option.splits)

lemma put_slot_fields [simp]:
  "live (put_slot reg s a) = live reg" "locators (put_slot reg s a) = locators reg"
  "ended_by_policy (put_slot reg s a) = ended_by_policy reg" "anchors (put_slot reg s a) = hm_insert s a (anchors reg)"
  "conns_of (put_slot reg s a) = conns_of reg" "control (put_slot reg s a) = control reg"
  by (simp_all add: put_slot_def conns_of_def fun_eq_iff)

lemma lease_of_put [simp]: "lease_of (put_slot reg s a) k = (if k = s then lease_serial a else lease_of reg k)"
  by (simp add: lease_of_def table)

text \<open>An operation that touches neither the sessions nor the serials of the slots.\<close>

definition lease_frame :: "registry \<Rightarrow> registry \<Rightarrow> bool" where
  "lease_frame reg reg' \<longleftrightarrow> (\<forall>s. is_live reg' (Token_key s) = is_live reg (Token_key s) \<and> lease_of reg' s = lease_of reg s)"

lemma frame_put: "lease_serial a = lease_of reg s \<Longrightarrow> lease_frame reg (put_slot reg s a)"
  by (simp add: lease_frame_def)

lemma frame_put_lease: "lease_frame reg (put_lease reg s l)"
  by (simp add: put_lease_def frame_put)

lemma frame_refl: "lease_frame reg reg"
  by (simp add: lease_frame_def)

lemma frame_trans: "lease_frame a b \<Longrightarrow> lease_frame b c \<Longrightarrow> lease_frame a c"
  by (simp add: lease_frame_def)

lemma ok_put: "reg_ok reg \<Longrightarrow> is_live reg (Token_key s) \<Longrightarrow> reg_ok (put_slot reg s a)"
  by (auto simp: reg_ok_def table wf_table)

lemma ok_put_lease: "reg_ok reg \<Longrightarrow> is_live reg (Token_key s) \<Longrightarrow> reg_ok (put_lease reg s l)"
  by (simp add: put_lease_def ok_put)

lemma slot_live: "reg_ok reg \<Longrightarrow> hm_get (anchors reg) s = Some a \<Longrightarrow> is_live reg (Token_key s)"
  by (simp add: reg_ok_def hm_contains_def)

lemma update_slot_ok:
  assumes "reg_ok reg" and "\<And>a. lease_serial (f a) = lease_serial a"
  shows "reg_ok (update_slot reg s f) \<and> lease_frame reg (update_slot reg s f)"
proof (cases "hm_get (anchors reg) s")
  case (Some a)
  then show ?thesis using ok_put [OF assms(1) slot_live [OF assms(1) Some]] frame_put [of "f a" reg s] assms(2)
    by (simp add: update_slot_def lease_of_def)
qed (simp add: update_slot_def assms(1) frame_refl)

lemma handle_anchor_ok:
  assumes "reg_ok reg"
  shows "reg_ok (fst (handle_anchor_request reg s d now)) \<and> lease_frame reg (fst (handle_anchor_request reg s d now))"
  using assms ok_put [OF assms] frame_put [of _ reg s]
  by (auto simp: handle_anchor_request_def Let_def frame_refl split: option.splits)

lemma handle_refresh_ok:
  assumes "reg_ok reg"
  shows "reg_ok (fst (handle_lease_refresh reg s d tok now)) \<and> lease_frame reg (fst (handle_lease_refresh reg s d tok now))"
  using assms ok_put_lease [OF assms] frame_put_lease
  by (auto simp: handle_lease_refresh_def Let_def frame_refl split: option.splits)

lemma note_stale_ok:
  assumes "reg_ok reg" and "is_live reg (Token_key s)" and "note_stale reg s period now = (reg', v)"
  shows "reg_ok reg' \<and> lease_frame reg reg' \<and> live reg' = live reg"
  using assms ok_put_lease [OF assms(1,2)] frame_put_lease by (auto simp: note_stale_def Let_def put_lease_def)

lemma keys_by_lease_live:
  assumes "hm_get (keys_by_lease reg) l = Some s"
  shows "is_live reg (Token_key s)"
proof -
  have "hm_get (fold (\<lambda>s. hm_insert (lease_of reg s) s) ss m) l = Some s \<Longrightarrow> s \<in> set ss \<or> hm_get m l = Some s" for ss m
    by (induction ss arbitrary: m) (fastforce simp: table split: if_splits)+
  from this [of "token_keys reg" "[]"] show ?thesis using assms by (simp add: keys_by_lease_def token_keys_iff)
qed

lemma stale_verdicts_ok:
  assumes "reg_ok reg" and "\<forall>l s. hm_get keys l = Some s \<longrightarrow> is_live reg (Token_key s)"
    and "stale_verdicts keys reg ls period now = (reg', vs, ask)"
  shows "reg_ok reg' \<and> lease_frame reg reg'"
  using assms
proof (induction ls arbitrary: reg vs ask)
  case (Cons l ls)
  show ?case
  proof (cases "hm_get keys l")
    case None
    then show ?thesis using Cons.IH [OF Cons.prems(1,2)] Cons.prems(3) by (auto split: prod.splits)
  next
    case (Some s)
    obtain reg1 v where n: "note_stale reg s period now = (reg1, v)" by fastforce
    then have r1: "reg_ok reg1" "lease_frame reg reg1" "live reg1 = live reg"
      using note_stale_ok [OF Cons.prems(1) _ n] Cons.prems(2) Some by blast+
    obtain vs' ask' where "stale_verdicts keys reg1 ls period now = (reg', vs', ask')"
      using Cons.prems(3) Some n by (auto split: prod.splits)
    then have "reg_ok reg' \<and> lease_frame reg1 reg'" using Cons.IH [OF r1(1)] Cons.prems(2) r1(3) by simp
    then show ?thesis using frame_trans [OF r1(2)] by blast
  qed
qed (simp add: frame_refl)

lemma terminate_ok:
  assumes "reg_ok reg"
  shows "reg_ok (fst (terminate reg pk)) \<and> lease_frame reg (fst (terminate reg pk))"
  using assms by (auto simp: terminate_def reg_ok_def lease_frame_def lease_of_def conns_of_def table wf_table)

lemma terminate_all_ok:
  assumes "reg_ok reg"
  shows "reg_ok (fst (terminate_all reg pks)) \<and> lease_frame reg (fst (terminate_all reg pks))"
  using assms
proof (induction pks arbitrary: reg)
  case (Cons pk pks)
  obtain reg1 es where t: "terminate reg pk = (reg1, es)" by fastforce
  then have "reg_ok reg1" "lease_frame reg reg1" using terminate_ok [OF Cons.prems, of pk] by simp_all
  then show ?case using Cons.IH [of reg1] frame_trans t by (auto split: prod.splits)
qed (simp add: frame_refl)

lemma notify_lost_ok:
  assumes "reg_ok reg" and "notify_anchor_lost acc reg l = (reg', r, es)"
  shows "reg_ok reg' \<and> lease_frame reg reg' \<and> (\<forall>s. Token_ended s \<notin> set es)"
proof (cases "find (\<lambda>(_, slot). lease_serial slot = l) (anchors reg)")
  case None
  then show ?thesis using assms by (simp add: notify_anchor_lost_def frame_refl)
next
  case (Some e)
  obtain s a where e: "e = (s, a)" by fastforce
  then have "(s, a) \<in> set (anchors reg)" using find_SomeD [OF Some] by simp
  then have get: "hm_get (anchors reg) s = Some a" using assms(1) by (simp add: hm_in_set_iff reg_ok_def)
  let ?reg = "put_slot reg s (a\<lparr>anchored := False, last_verdict := None\<rparr>)"
  have "reg' = ?reg" "\<forall>s. Token_ended s \<notin> set es" using assms(2) Some e
    by (auto simp: notify_anchor_lost_def Let_def send_to_def split: list.splits)
  then show ?thesis using ok_put [OF assms(1) slot_live [OF assms(1) get]] frame_put [of "a\<lparr>anchored := False, last_verdict := None\<rparr>" reg s] get
    by (simp add: lease_of_def)
qed

section \<open>The leases of the live sessions\<close>

definition leases :: "registry \<Rightarrow> serial set" where
  "leases reg = {lease_of reg s | s. is_live reg (Token_key s)}"

lemma leases_eq: "leases reg = set (live_token_serials reg)"
  by (auto simp: leases_def live_token_serials_def token_keys_iff)

lemma frame_leases: "lease_frame reg reg' \<Longrightarrow> leases reg' = leases reg"
  by (simp add: lease_frame_def leases_def)

lemma register_ok:
  assumes "reg_ok reg"
  shows "reg_ok (register_key reg key c)"
proof -
  have "conns_of reg key = [] \<longleftrightarrow> \<not> is_live reg key"
    using assms by (auto simp: reg_ok_def conns_of_def hm_contains_def)
  then show ?thesis using assms
    by (cases key) (auto simp: register_key_def reg_ok_def conns_of_def table wf_table Let_def)
qed

lemma register_leases:
  assumes "reg_ok reg" and "\<forall>s. key = Token_key s \<longrightarrow> is_live reg key \<longrightarrow> lease_of reg s = s"
  shows "leases (register_key reg key c) = leases reg \<union> set_option (token_of key)"
proof -
  have dead: "conns_of reg key = [] \<longleftrightarrow> \<not> is_live reg key"
    using assms(1) by (auto simp: reg_ok_def conns_of_def hm_contains_def)
  have live': "is_live (register_key reg key c) k \<longleftrightarrow> k = key \<or> is_live reg k" for k
    by (simp add: register_key_def Let_def table)
  have lease': "lease_of (register_key reg key c) s = lease_of reg s" for s
  proof (cases "\<exists>k. key = Token_key k \<and> conns_of reg key = []")
    case True
    then obtain k where k: "key = Token_key k" "conns_of reg key = []" by blast
    then have "hm_get (anchors reg) k = None" using assms(1) dead by (auto simp: reg_ok_def hm_contains_def)
    then show ?thesis using k by (simp add: register_key_def lease_of_def table)
  next
    case False
    then show ?thesis by (cases key) (auto simp: register_key_def lease_of_def Let_def)
  qed
  show ?thesis
  proof (cases key)
    case (Token_key k)
    have "lease_of reg k = k"
      using assms dead Token_key by (auto simp: lease_of_def reg_ok_def hm_contains_def split: option.splits)
    then show ?thesis unfolding leases_def live' lease' using Token_key by auto metis
  next
    case (Wallet_key pk)
    then show ?thesis unfolding leases_def live' lease' by simp
  next
    case (Route_key r)
    then show ?thesis unfolding leases_def live' lease' by simp
  qed
qed

lemma leave_wallet_fields:
  assumes "leave_wallet reg key c = (reg', es)"
  shows "live reg' = live reg" "anchors reg' = anchors reg" "locators reg' = locators reg"
    "ended_by_policy reg' = ended_by_policy reg" "\<forall>s. Token_ended s \<notin> set es"
  using assms by (cases key; auto split: prod.splits option.splits)+

lemma tombstone_fields [simp]:
  "live (tombstone_attribution reg pk now) = live reg" "anchors (tombstone_attribution reg pk now) = anchors reg"
  "locators (tombstone_attribution reg pk now) = locators reg"
  "ended_by_policy (tombstone_attribution reg pk now) = ended_by_policy reg"
  by (simp_all add: tombstone_attribution_def)

lemma end_session_fields:
  assumes "end_session reg key = (reg', es)"
  shows "live reg' = live reg" "anchors reg' = (case token_of key of None \<Rightarrow> anchors reg | Some s \<Rightarrow> hm_remove s (anchors reg))"
    "locators reg' = (case route_of key of None \<Rightarrow> locators reg | Some s \<Rightarrow> hm_remove s (locators reg))"
    "ended_by_policy reg' = (case route_of key of None \<Rightarrow> ended_by_policy reg | Some s \<Rightarrow> removeAll s (ended_by_policy reg))"
    "es = (case key of Token_key s \<Rightarrow> [Token_ended (lease_of reg s)] | Route_key s \<Rightarrow> [Route_ended s] | _ \<Rightarrow> [])"
  using assms by (cases key; auto simp: forget_route_def)+

text \<open>A connection leaves a session that goes on, or it was the last and the session ends.\<close>

lemma unregister_cases:
  assumes "unregister_key reg key c now = (reg', es)"
  obtains (stays) m where "live reg' = m" "anchors reg' = anchors reg" "locators reg' = locators reg"
      "ended_by_policy reg' = ended_by_policy reg" "\<forall>s. Token_ended s \<notin> set es"
      "m = live reg \<or> is_live reg key \<and> (\<exists>cs. cs \<noteq> [] \<and> m = hm_insert key cs (live reg))"
  | (ends) told where "is_live reg key" "live reg' = hm_remove key (live reg)" "\<forall>s. Token_ended s \<notin> set told"
      "anchors reg' = (case token_of key of None \<Rightarrow> anchors reg | Some s \<Rightarrow> hm_remove s (anchors reg))"
      "locators reg' = (case route_of key of None \<Rightarrow> locators reg | Some s \<Rightarrow> hm_remove s (locators reg))"
      "ended_by_policy reg' = (case route_of key of None \<Rightarrow> ended_by_policy reg | Some s \<Rightarrow> removeAll s (ended_by_policy reg))"
      "es = told @ (case key of Token_key s \<Rightarrow> [Token_ended (lease_of reg s)] | Route_key s \<Rightarrow> [Route_ended s] | _ \<Rightarrow> [])"
proof -
  obtain reg1 told where lw: "leave_wallet (reg\<lparr>control := removeAll (key, c) (control reg)\<rparr>) key c = (reg1, told)" by fastforce
  note f = leave_wallet_fields [OF lw, simplified]
  have lease1: "lease_of (reg1\<lparr>live := m\<rparr>) s = lease_of reg s" for s m by (simp add: lease_of_def f)
  show thesis
  proof (cases "hm_get (live reg) key")
    case None
    then have "reg' = reg1" "es = told" using assms lw f(1) by (simp_all add: unregister_key_def)
    then show thesis using stays [of "live reg"] f by simp
  next
    case (Some conns)
    then have lv: "is_live reg key" by (simp add: hm_contains_def)
    show thesis
    proof (cases "removeAll c conns = []")
      case False
      then have "reg' = reg1\<lparr>live := hm_insert key (removeAll c conns) (live reg)\<rparr>" "es = told"
        using assms lw f(1) Some by (simp_all add: unregister_key_def)
      then show thesis using stays [of "live reg'"] f lv False by auto
    next
      case True
      obtain r ended where es: "end_session (reg1\<lparr>live := hm_remove key (live reg)\<rparr>) key = (r, ended)" by fastforce
      then have r: "reg' = tombstone_attribution r (key_value key) now" "es = told @ ended"
        using assms lw f(1) Some True by (simp_all add: unregister_key_def)
      note ef = end_session_fields [OF es, simplified]
      show thesis by (rule ends [of told]) (simp_all add: lv r ef f lease1 cong: option.case_cong session_key.case_cong)
    qed
  qed
qed

lemma unregister_ok:
  assumes "reg_ok reg" and "unregister_key reg key c now = (reg', es)"
  shows "reg_ok reg'"
proof (cases rule: unregister_cases [OF assms(2), case_names stays ends])
  case (stays m)
  then show ?thesis using assms(1) by (auto simp: reg_ok_def conns_of_def table wf_table split: if_splits)
next
  case (ends told)
  then show ?thesis using assms(1) by (cases key) (auto simp: reg_ok_def conns_of_def table wf_table split: if_splits)
qed

lemma unregister_leases:
  assumes "reg_ok reg" and "unregister_key reg key c now = (reg', es)"
  shows "leases reg - leases reg' \<subseteq> {s. Token_ended s \<in> set es}" and "leases reg' \<subseteq> leases reg"
    and "Token_ended s \<in> set es \<Longrightarrow> s \<in> leases reg"
proof -
  have "leases reg - leases reg' \<subseteq> {s. Token_ended s \<in> set es} \<and> leases reg' \<subseteq> leases reg
    \<and> (\<forall>s. Token_ended s \<in> set es \<longrightarrow> s \<in> leases reg)"
  proof (cases rule: unregister_cases [OF assms(2), case_names stays ends])
    case (stays m)
    then have "lease_frame reg reg'" by (auto simp: lease_frame_def lease_of_def table)
    then show ?thesis using frame_leases stays(5) by auto
  next
    case (ends told)
    show ?thesis
    proof (cases key)
      case (Token_key k)
      have "lease_of reg' s = lease_of reg s" if "s \<noteq> k" for s using that ends(4) Token_key by (simp add: lease_of_def table)
      moreover have "is_live reg' (Token_key s) \<longleftrightarrow> s \<noteq> k \<and> is_live reg (Token_key s)" for s
        using ends(2) Token_key by (simp add: table)
      ultimately show ?thesis using ends(1,3,7) Token_key unfolding leases_def by auto metis
    next
      case (Wallet_key pk)
      then have "lease_frame reg reg'" using ends by (auto simp: lease_frame_def lease_of_def table)
      then show ?thesis using frame_leases ends(3,7) Wallet_key by auto
    next
      case (Route_key s)
      then have "lease_frame reg reg'" using ends by (auto simp: lease_frame_def lease_of_def table)
      then show ?thesis using frame_leases ends(3,7) Route_key by auto
    qed
  qed
  then show "leases reg - leases reg' \<subseteq> {s. Token_ended s \<in> set es}" and "leases reg' \<subseteq> leases reg"
    and "Token_ended s \<in> set es \<Longrightarrow> s \<in> leases reg" by blast+
qed

lemma rebind_cases:
  assumes "reg_ok reg" and "rebind_lease reg k new = (reg', out, es)"
  obtains (held) "out = Rebind_held_elsewhere" "reg' = reg" "es = []" "new \<in> leases reg"
  | (moved) a where "out = Rebind_done" "hm_get (anchors reg) k = Some a" "is_live reg (Token_key k)" "\<not> held_elsewhere reg k new"
      "reg' = put_slot reg k (a\<lparr>lease_serial := new, lease := (lease a)\<lparr>stale_since := None\<rparr>\<rparr>)"
      "es = (if lease_of reg k \<noteq> new then [Owner_moved (lease_of reg k) new, Token_ended (lease_of reg k)] else [])"
  | (gone) "out = Rebind_gone" "reg' = reg" "es = [Token_ended new]"
proof (cases "held_elsewhere reg k new")
  case True
  then have "new \<in> leases reg" unfolding held_elsewhere_iff leases_def by blast
  then show thesis using held True assms(2) by (simp add: rebind_lease_def)
next
  case False
  show thesis
  proof (cases "is_live reg (Token_key k) \<and> hm_get (anchors reg) k \<noteq> None")
    case True
    then obtain a where a: "hm_get (anchors reg) k = Some a" by blast
    then have "lease_of reg k = lease_serial a" by (simp add: lease_of_def)
    then have "rebind_lease reg k new = (put_slot reg k (a\<lparr>lease_serial := new, lease := (lease a)\<lparr>stale_since := None\<rparr>\<rparr>), Rebind_done,
        if lease_of reg k \<noteq> new then [Owner_moved (lease_of reg k) new, Token_ended (lease_of reg k)] else [])"
      using True a False by (simp add: rebind_lease_def Let_def)
    then have eqs: "reg' = put_slot reg k (a\<lparr>lease_serial := new, lease := (lease a)\<lparr>stale_since := None\<rparr>\<rparr>)" "out = Rebind_done"
      "es = (if lease_of reg k \<noteq> new then [Owner_moved (lease_of reg k) new, Token_ended (lease_of reg k)] else [])"
      unfolding assms(2) by (simp_all only: prod.inject)
    show thesis by (rule moved [OF eqs(2) a _ False eqs(1,3)]) (use True in simp)
  next
    case gn: False
    then have "rebind_lease reg k new = (reg, Rebind_gone, [Token_ended new])"
      using False by (auto simp: rebind_lease_def split: bool.splits option.splits)
    then show thesis using gone assms(2) by simp
  qed
qed

lemma lease_rebind_ok:
  assumes "reg_ok reg" and "rebind_lease reg k new = (reg', out, es)"
  shows "reg_ok reg'"
  using assms(1) ok_put [OF assms(1)] by (cases rule: rebind_cases [OF assms]) simp_all

text \<open>A rebind to a spent serial: the serial is held afterwards or reported ended, and so is the one left.\<close>

lemma rebind_leases:
  assumes "reg_ok reg" and "rebind_lease reg k new = (reg', out, es)"
  shows "leases reg' \<subseteq> insert new (leases reg)" and "insert new (leases reg) - leases reg' \<subseteq> {s. Token_ended s \<in> set es}"
    and "Token_ended s \<in> set es \<Longrightarrow> s \<in> insert new (leases reg)"
proof -
  have "leases reg' \<subseteq> insert new (leases reg) \<and> insert new (leases reg) - leases reg' \<subseteq> {s. Token_ended s \<in> set es}
    \<and> (\<forall>s. Token_ended s \<in> set es \<longrightarrow> s \<in> insert new (leases reg))"
  proof (cases rule: rebind_cases [OF assms, case_names held moved gone])
    case (moved a)
    have "lease_of reg' s = (if s = k then new else lease_of reg s)" "is_live reg' = is_live reg" for s
      by (simp_all add: moved(5))
    then have "leases reg' = insert new {lease_of reg s | s. s \<noteq> k \<and> is_live reg (Token_key s)}"
      using moved(3) by (auto simp: leases_def)
    moreover have "leases reg = insert (lease_of reg k) {lease_of reg s | s. s \<noteq> k \<and> is_live reg (Token_key s)}"
      using moved(3) by (auto simp: leases_def)
    ultimately show ?thesis using moved(6) by auto
  qed auto
  then show "leases reg' \<subseteq> insert new (leases reg)" and "insert new (leases reg) - leases reg' \<subseteq> {s. Token_ended s \<in> set es}"
    and "Token_ended s \<in> set es \<Longrightarrow> s \<in> insert new (leases reg)" by blast+
qed

text \<open>The serials an operation spends, and what it leaves of the sessions and their leases.\<close>

fun spent :: "reg_op \<Rightarrow> serial set" where
  "spent (Register key c) = set_option (token_of key)"
| "spent (Rebind_to k new) = {new}"
| "spent _ = {}"

fun joins_its_lease :: "registry \<Rightarrow> reg_op \<Rightarrow> bool" where
  "joins_its_lease reg (Register (Token_key s) c) \<longleftrightarrow> is_live reg (Token_key s) \<longrightarrow> lease_of reg s = s"
| "joins_its_lease reg _ \<longleftrightarrow> True"

text \<open>A setup retains the locator of a route after it registered the connection.\<close>

fun setup_order :: "registry \<Rightarrow> reg_op \<Rightarrow> bool" where
  "setup_order reg (Retain s loc) \<longleftrightarrow> is_live reg (Route_key s)"
| "setup_order reg _ \<longleftrightarrow> True"

lemma reg_exec_leases:
  assumes "reg_ok reg" and "setup_order reg op" and "reg_exec h acc reg op = (reg', es)"
  shows "reg_ok reg' \<and> (joins_its_lease reg op \<longrightarrow> leases reg' \<subseteq> spent op \<union> leases reg
    \<and> (spent op \<union> leases reg) - leases reg' \<subseteq> {s. Token_ended s \<in> set es})"
proof -
  have frame: ?thesis if "reg_ok reg'" "lease_frame reg reg'" "spent op = {}" using that frame_leases by auto
  show ?thesis
  proof (cases op)
    case (Register key c)
    have "leases (register_key reg key c) = leases reg \<union> set_option (token_of key)" if "joins_its_lease reg op"
      using that Register by (intro register_leases [OF assms(1)]) auto
    then show ?thesis using register_ok [OF assms(1)] assms(3) Register by auto
  next
    case (Unregister key c now)
    then show ?thesis using unregister_ok [OF assms(1)] unregister_leases(1,2) [OF assms(1)] assms(3) by auto
  next
    case (Attach key c)
    then show ?thesis using assms by (intro frame) (auto simp: attach_control_def reg_ok_def conns_of_def lease_frame_def lease_of_def)
  next
    case (Retain s loc)
    then show ?thesis using assms
      by (intro frame) (auto simp: retain_locator_def reg_ok_def conns_of_def lease_frame_def lease_of_def table)
  next
    case (Assigned ip pk)
    then show ?thesis using assms by (intro frame) (auto simp: record_assigned_ipv4_def reg_ok_def conns_of_def lease_frame_def lease_of_def)
  next
    case (Open_wallet pk ip c)
    then show ?thesis using assms by (intro frame) (auto simp: reg_ok_def conns_of_def lease_frame_def lease_of_def)
  next
    case (Wallet_admitted s)
    then show ?thesis using assms by (intro frame) (auto simp: reg_ok_def conns_of_def lease_frame_def lease_of_def)
  next
    case (Terminate pk)
    then show ?thesis using assms terminate_ok [OF assms(1), of pk] by (intro frame) auto
  next
    case (Sweep auth)
    then obtain pks where "terminate_all reg pks = (reg', es)" using assms(3) by (auto simp: terminate_where_def)
    then show ?thesis using terminate_all_ok [OF assms(1), of pks] Sweep by (intro frame) simp_all
  next
    case (Reap now)
    then show ?thesis using assms by (intro frame) (auto simp: reap_departed_def reg_ok_def conns_of_def lease_frame_def lease_of_def)
  next
    case (Anchor_request s d now)
    then show ?thesis using assms handle_anchor_ok [OF assms(1), of s d now] by (intro frame) auto
  next
    case (Anchor_done s d v)
    then show ?thesis using assms update_slot_ok [OF assms(1)] by (intro frame) (auto simp: finish_anchor_def)
  next
    case (Refresh_request s d tok now)
    then show ?thesis using assms handle_refresh_ok [OF assms(1), of s d tok now] by (intro frame) auto
  next
    case (Refresh_done s d st)
    then show ?thesis using assms update_slot_ok [OF assms(1)] by (intro frame) (auto simp: finish_lease_refresh_def)
  next
    case (Rebind_to k new)
    then obtain out where "rebind_lease reg k new = (reg', out, es)" using assms(3) by (auto split: prod.splits)
    then show ?thesis using lease_rebind_ok [OF assms(1)] rebind_leases(1,2) [OF assms(1)] Rebind_to by auto
  next
    case (Lost l)
    then show ?thesis using assms notify_lost_ok [OF assms(1)] by (intro frame) (auto split: prod.splits)
  next
    case (Stop_route s reason)
    then show ?thesis using assms
      by (intro frame) (auto simp: end_route_def reg_ok_def conns_of_def lease_frame_def lease_of_def hm_contains_def split: prod.splits option.splits)
  next
    case (Due ls period now)
    then obtain vs ask where "stale_verdicts (keys_by_lease reg) reg ls period now = (reg', vs, ask)"
      using assms(3) by (auto simp: lease_refresh_due_def split: prod.splits)
    then have "reg_ok reg' \<and> lease_frame reg reg'"
      using stale_verdicts_ok [OF assms(1), of "keys_by_lease reg"] keys_by_lease_live by blast
    then show ?thesis using Due by (intro frame) simp_all
  qed
qed

text \<open>
  The deployer's ledger: a spent token is a lease taken; a serial reported ended is given back unless a
  live session holds it, which the deployer asks the registry before it releases.
\<close>

inductive ledger_run :: "(u64 \<Rightarrow> wallet_id) \<Rightarrow> registry \<Rightarrow> serial set \<Rightarrow> bool" for h where
  ledger_start: "ledger_run h new_registry {}"
| ledger_step: "ledger_run h reg taken \<Longrightarrow> setup_order reg op \<Longrightarrow> joins_its_lease reg op \<Longrightarrow> reg_exec h acc reg op = (reg', es) \<Longrightarrow>
    ledger_run h reg' ((taken \<union> spent op) - {s. Token_ended s \<in> set es \<and> \<not> is_token_serial_live reg' s})"

lemma new_registry_ok: "reg_ok new_registry" and new_registry_leases: "leases new_registry = {}"
  by (simp_all add: reg_ok_def new_registry_def leases_def hm_contains_def)

lemma ledger_exact: "ledger_run h reg taken \<Longrightarrow> reg_ok reg \<and> taken = leases reg"
proof (induction rule: ledger_run.induct)
  case ledger_start
  then show ?case using new_registry_ok new_registry_leases by simp
next
  case (ledger_step reg taken op acc reg' es)
  then have ih: "reg_ok reg" "taken = leases reg" by simp_all
  have "is_token_serial_live reg' s \<longleftrightarrow> s \<in> leases reg'" for s by (simp add: is_token_serial_live_def leases_eq)
  then show ?case using reg_exec_leases [OF ih(1) ledger_step.hyps(2,4)] ledger_step.hyps(3) ih(2) by blast
qed


end
