(* ===== verification/Session_Spends.thy ===== *)
theory Session_Spends
  imports Session_Leases
begin

text \<open>
  Evaluated runs of the lease ledger, and the rate at which a session may spend tokens: whatever its
  client sends, two spends of one session are at least the refresh interval apart.
\<close>

section \<open>A run of the ledger\<close>

text \<open>A session admitted on one serial, that refreshes its lease onto another.\<close>

definition demo_joined :: registry where
  "demo_joined = fst (handle_lease_refresh (register_key new_registry (Token_key [1]) 7) [1] [9] True 0)"

definition demo_rebound :: registry where
  "demo_rebound = fst (rebind_lease demo_joined [1] [2])"

lemma demo_slot:
  "live demo_joined = [(Token_key [1], [7])]"
  "anchors demo_joined = [([1], new_anchor_slot [1]\<lparr>lease := new_lease_slot\<lparr>spend_in_flight := True, last_spend := Some 0\<rparr>\<rparr>)]"
  by (simp_all add: demo_joined_def register_key_def new_registry_def conns_of_def hm_contains_def hm_get_def
      handle_lease_refresh_def put_lease_def put_slot_def slot_or_new_def new_anchor_slot_def new_lease_slot_def hm_remove_def Let_def)

lemma demo_rebind:
  "snd (rebind_lease demo_joined [1] [2]) = (Rebind_done, [Owner_moved [1] [2], Token_ended [1]])"
  "live demo_rebound = [(Token_key [1], [7])]" "lease_of demo_rebound [1] = [2]"
  by (simp_all add: demo_rebound_def rebind_lease_def held_elsewhere_def token_keys_def demo_slot map_filter_simps
      hm_contains_def hm_get_def lease_of_def new_anchor_slot_def put_slot_def Let_def)

lemma demo_serials: "live_token_serials demo_rebound = [[2]]"
  by (simp add: live_token_serials_def token_keys_def demo_rebind map_filter_simps)

lemma demo_ledger: "ledger_run h demo_rebound {[2]}"
proof -
  have eq: "rebind_lease demo_joined [1] [2] = (demo_rebound, Rebind_done, [Owner_moved [1] [2], Token_ended [1]])"
    using demo_rebind(1) by (simp add: demo_rebound_def prod_eq_iff)
  have "ledger_run h (register_key new_registry (Token_key [1]) 7) {[1]}"
    using ledger_step [OF ledger_start, of "Register (Token_key [1]) 7" h "\<lambda>_. True"]
    by (simp add: new_registry_def hm_contains_def)
  then have "ledger_run h demo_joined {[1]}"
    using ledger_step [of h _ "{[1]}" "Refresh_request [1] [9] True 0" "\<lambda>_. True" demo_joined "[]"] by (simp add: demo_joined_def)
  then have "ledger_run h demo_rebound (({[1]} \<union> {[2]}) - {s. s = [1] \<and> \<not> is_token_serial_live demo_rebound s})"
    using ledger_step [of h demo_joined "{[1]}" "Rebind_to [1] [2]" "\<lambda>_. True" demo_rebound "[Owner_moved [1] [2], Token_ended [1]]"]
      eq by simp
  moreover have "({[1]} \<union> {[2]}) - {s. s = [1] \<and> \<not> is_token_serial_live demo_rebound s} = {[2]}"
    by (auto simp: is_token_serial_live_def demo_serials)
  ultimately show ?thesis by simp
qed


text \<open>
  The condition of the ledger matters. A second device that leads with the serial a live session was
  admitted on and has left since is registered under the key of that session: the serial it spent is
  neither among the live ones nor ever reported ended.
\<close>

lemma join_under_a_left_serial:
  "\<not> is_token_serial_live demo_rebound [1]"
  "live_token_serials (register_key demo_rebound (Token_key [1]) 8) = [[2]]"
  "conns_of (register_key demo_rebound (Token_key [1]) 8) (Token_key [1]) = [8, 7]"
proof -
  have "register_key demo_rebound (Token_key [1]) 8 = demo_rebound\<lparr>live := [(Token_key [1], [8, 7])]\<rparr>"
    by (simp add: register_key_def conns_of_def demo_rebind hm_get_def Let_def)
  then show "live_token_serials (register_key demo_rebound (Token_key [1]) 8) = [[2]]"
    and "conns_of (register_key demo_rebound (Token_key [1]) 8) (Token_key [1]) = [8, 7]"
    using demo_rebind(3) by (simp_all add: live_token_serials_def token_keys_def map_filter_simps lease_of_def conns_of_def hm_get_def)
  show "\<not> is_token_serial_live demo_rebound [1]" by (simp add: is_token_serial_live_def demo_serials)
qed

section \<open>How often a session spends\<close>

text \<open>Every operation but a refresh that goes through keeps the instant of a session's last spend, while the session lives.\<close>

definition spends :: "registry \<Rightarrow> serial \<Rightarrow> reg_op \<Rightarrow> instant option" where
  "spends reg s op = (case op of
     Refresh_request k d tok now \<Rightarrow>
       if k = s \<and> snd (handle_lease_refresh reg k d tok now) = Refresh_call then Some now else None
   | _ \<Rightarrow> None)"

definition spent_at :: "registry \<Rightarrow> serial \<Rightarrow> instant option" where
  "spent_at reg s = (case hm_get (anchors reg) s of None \<Rightarrow> None | Some a \<Rightarrow> last_spend (lease a))"

lemma spent_at_put: "spent_at (put_slot reg k a) s = (if s = k then last_spend (lease a) else spent_at reg s)"
  by (simp add: spent_at_def table)

lemma spent_at_slot: "last_spend (lease (slot_or_new reg s)) = spent_at reg s"
  by (simp add: spent_at_def slot_or_new_def new_anchor_slot_def new_lease_slot_def split: option.splits)

lemma spent_at_put_lease: "spent_at (put_lease reg k l) s = (if s = k then last_spend l else spent_at reg s)"
  by (simp add: put_lease_def spent_at_put)

lemma spent_at_update:
  assumes "\<And>a. last_spend (lease (f a)) = last_spend (lease a)"
  shows "spent_at (update_slot reg k f) s = spent_at reg s"
proof (cases "hm_get (anchors reg) k")
  case (Some a)
  then show ?thesis using assms by (simp add: update_slot_def spent_at_put) (simp add: spent_at_def)
qed (simp add: update_slot_def)

lemma spent_at_same_anchors: "anchors reg' = anchors reg \<Longrightarrow> spent_at reg' s = spent_at reg s"
  by (simp add: spent_at_def)

lemma spent_at_stale: "stale_verdicts keys reg ls period now = (reg', vs, ask) \<Longrightarrow> spent_at reg' s = spent_at reg s"
proof (induction ls arbitrary: reg vs ask)
  case (Cons l ls)
  have stale: "spent_at (fst (note_stale reg k period now)) s = spent_at reg s" for k
    by (simp add: note_stale_def Let_def spent_at_put_lease spent_at_slot)
  show ?case
  proof (cases "hm_get keys l")
    case None
    then show ?thesis using Cons by (auto split: prod.splits)
  next
    case (Some k)
    obtain reg1 v where n: "note_stale reg k period now = (reg1, v)" by fastforce
    then obtain vs' ask' where "stale_verdicts keys reg1 ls period now = (reg', vs', ask')"
      using Cons.prems Some by (auto split: prod.splits)
    then show ?thesis using Cons.IH stale [of k] n by simp
  qed
qed simp

lemma spent_at_terminate: "spent_at (fst (terminate_all reg pks)) s = spent_at reg s"
proof (induction pks arbitrary: reg)
  case (Cons pk pks)
  have "spent_at (fst (terminate reg pk)) s = spent_at reg s" by (rule spent_at_same_anchors) (simp add: terminate_def)
  then show ?case using Cons [of "fst (terminate reg pk)"] by (auto split: prod.splits)
qed simp

lemma interval_elapsed: "\<not> now - t < refresh_min_interval \<longleftrightarrow> t + refresh_min_interval \<le> now"
  by (auto simp: refresh_min_interval_def from_secs_def)

lemma handle_refresh_spent:
  assumes "handle_lease_refresh reg k d tok now = (reg', dec)"
  shows "spent_at reg' s = (if s = k \<and> dec = Refresh_call then Some now else spent_at reg s)"
    and "dec = Refresh_call \<Longrightarrow> spent_at reg k = Some t \<Longrightarrow> t + refresh_min_interval \<le> now"
  using assms
  by (auto simp: handle_lease_refresh_def Let_def spent_at_put_lease spent_at_slot interval_elapsed split: if_splits option.splits)

lemma dead_spent: "reg_ok reg \<Longrightarrow> \<not> is_live reg (Token_key s) \<Longrightarrow> spent_at reg s = None"
  by (auto simp: reg_ok_def spent_at_def hm_contains_def split: option.splits)

lemma reg_exec_spent:
  assumes "reg_ok reg" and "reg_exec h acc reg op = (reg', es)" and "is_live reg' (Token_key s)"
  shows "spent_at reg' s = (case spends reg s op of None \<Rightarrow> spent_at reg s | at \<Rightarrow> at)"
proof (cases op)
  case (Register key c)
  have "conns_of reg (Token_key s) = [] \<Longrightarrow> spent_at reg s = None"
    using assms(1) dead_spent by (auto simp: reg_ok_def)
  then show ?thesis using Register assms(2)
    by (cases key) (auto simp: register_key_def spends_def spent_at_def Let_def table)
next
  case (Unregister key c now)
  then show ?thesis using assms(2,3)
    by (cases key) (auto simp: unregister_key_def spends_def spent_at_def Let_def table tombstone_attribution_def forget_route_def
        split: prod.splits option.splits if_splits)
next
  case (Sweep auth)
  then show ?thesis using assms(2) spent_at_terminate by (auto simp: spends_def terminate_where_def) (metis fst_conv)
next
  case (Refresh_request k d tok now)
  obtain dec where "handle_lease_refresh reg k d tok now = (reg', dec)"
    using Refresh_request assms(2) by (cases "handle_lease_refresh reg k d tok now") simp
  then show ?thesis using handle_refresh_spent(1) Refresh_request by (auto simp: spends_def)
next
  case (Due ls period now)
  then obtain vs ask where "stale_verdicts (keys_by_lease reg) reg ls period now = (reg', vs, ask)"
    using assms(2) by (auto simp: lease_refresh_due_def split: prod.splits)
  then show ?thesis using spent_at_stale Due by (simp add: spends_def)
next
  case (Lost l)
  show ?thesis
  proof (cases "find (\<lambda>(_, slot). lease_serial slot = l) (anchors reg)")
    case (Some ks)
    obtain k slot where ks: "ks = (k, slot)" by fastforce
    then have "hm_get (anchors reg) k = Some slot"
      using Some assms(1) find_SomeD [OF Some] by (auto simp: reg_ok_def hm_in_set_iff)
    moreover have "anchors reg' = hm_insert k (slot\<lparr>anchored := False, last_verdict := None\<rparr>) (anchors reg)"
      using assms(2) Lost Some ks by (auto simp: notify_anchor_lost_def Let_def split: list.splits)
    ultimately show ?thesis using Lost by (auto simp: spends_def spent_at_def table)
  qed (use assms(2) Lost in \<open>auto simp: notify_anchor_lost_def spends_def\<close>)
next
  case (Rebind_to k new)
  then show ?thesis using assms(2)
    by (auto simp: rebind_lease_def spends_def Let_def spent_at_put split: if_splits option.splits bool.splits) (auto simp: spent_at_def)
next
  case (Anchor_request k d now)
  then show ?thesis using assms(2)
    by (auto simp: spends_def handle_anchor_request_def Let_def spent_at_put spent_at_slot split: if_splits option.splits)
next
  case (Anchor_done k d v)
  then show ?thesis using assms(2) by (auto simp: spends_def finish_anchor_def spent_at_update)
next
  case (Refresh_done k d st)
  then show ?thesis using assms(2) by (auto simp: spends_def finish_lease_refresh_def spent_at_update)
qed (use assms(2) in \<open>auto simp: spends_def attach_control_def retain_locator_def record_assigned_ipv4_def terminate_def
    reap_departed_def end_route_def spent_at_def split: if_splits option.splits\<close>)

text \<open>
  The spends of one session: the instants of its requests for which the token redeemer was called,
  newest first. The list starts over when the session ends.
\<close>

inductive spend_run :: "(u64 \<Rightarrow> wallet_id) \<Rightarrow> serial \<Rightarrow> registry \<Rightarrow> instant list \<Rightarrow> bool" for h s where
  spend_start: "spend_run h s new_registry []"
| spend_step: "spend_run h s reg ats \<Longrightarrow> setup_order reg op \<Longrightarrow> reg_exec h acc reg op = (reg', es) \<Longrightarrow>
    spend_run h s reg' (if is_live reg' (Token_key s)
      then (case spends reg s op of None \<Rightarrow> ats | Some now \<Rightarrow> now # ats) else [])"

definition spaced :: "instant list \<Rightarrow> bool" where
  "spaced = sorted_wrt (\<lambda>later earlier. earlier + refresh_min_interval \<le> later)"

lemma spaced_Cons: "spaced ats \<Longrightarrow> (ats \<noteq> [] \<Longrightarrow> hd ats + refresh_min_interval \<le> now) \<Longrightarrow> spaced (now # ats)"
  by (cases ats) (auto simp: spaced_def)

lemma spend_state: "spend_run h s reg ats \<Longrightarrow>
    reg_ok reg \<and> spaced ats \<and> (if ats = [] then None else Some (hd ats)) = spent_at reg s"
proof (induction rule: spend_run.induct)
  case spend_start
  then show ?case using new_registry_ok by (simp add: spaced_def spent_at_def new_registry_def hm_get_def)
next
  case (spend_step reg ats op acc reg' es)
  then have ok: "reg_ok reg" and ok': "reg_ok reg'" using reg_exec_leases by blast+
  show ?case
  proof (cases "is_live reg' (Token_key s)")
    case True
    show ?thesis
    proof (cases "spends reg s op")
      case None
      have "spent_at reg' s = spent_at reg s" using reg_exec_spent [OF ok spend_step.hyps(3) True] None by simp
      then show ?thesis using True None spend_step.IH ok' by (simp split: if_splits)
    next
      case (Some now)
      then obtain d tok where op: "op = Refresh_request s d tok now" "snd (handle_lease_refresh reg s d tok now) = Refresh_call"
        by (auto simp: spends_def split: reg_op.splits if_splits)
      then have "handle_lease_refresh reg s d tok now = (reg', Refresh_call)"
        using spend_step.hyps(3) by (cases "handle_lease_refresh reg s d tok now") simp
      then show ?thesis using handle_refresh_spent [of reg s d tok now reg' Refresh_call] spend_step.IH ok' True Some
        by (auto intro!: spaced_Cons split: if_splits)
    qed
  next
    case False
    then show ?thesis using ok' dead_spent [OF ok'] by (simp add: spaced_def)
  qed
qed

text \<open>
  C36: A session cannot make the exit spend tokens faster than the throttle allows. Whatever requests,
  announcements, retries, outcomes, rebinds and joins happen on the exit, any two calls to the token
  redeemer for the lease refreshes of one session, however far apart in the history, are at least two
  seconds apart, and in the order of the list.
\<close>
theorem refresh_spends_are_spaced:
  assumes "spend_run h s reg ats" and "i < j" and "j < length ats"
  shows "ats ! j + 2000000000 \<le> ats ! i"
  using spend_state [OF assms(1)] assms(2,3) by (auto simp: spaced_def sorted_wrt_iff_nth_less refresh_min_interval_def from_secs_def)

text \<open>The session of the ledger's run asks again when its first spend has failed for a while.\<close>

definition demo_failed :: registry where
  "demo_failed = finish_lease_refresh demo_joined [1] [9] Lease_unavailable"

lemma demo_failed_fields:
  "live demo_failed = [(Token_key [1], [7])]"
  "anchors demo_failed = [([1], new_anchor_slot [1]\<lparr>lease := new_lease_slot\<lparr>last_spend := Some 0\<rparr>\<rparr>)]"
  by (simp_all add: demo_failed_def finish_lease_refresh_def update_slot_def demo_slot hm_get_def put_slot_def
      new_anchor_slot_def new_lease_slot_def)

lemma demo_spends: "\<exists>reg. spend_run h [1] reg [2000000000, 0]"
proof -
  have reg: "live (register_key new_registry (Token_key [1]) 7) = [(Token_key [1], [7])]"
    "anchors (register_key new_registry (Token_key [1]) 7) = []"
    by (simp_all add: register_key_def new_registry_def conns_of_def hm_get_def hm_remove_def)
  have call: "snd (handle_lease_refresh (register_key new_registry (Token_key [1]) 7) [1] [9] True 0) = Refresh_call"
    by (simp add: handle_lease_refresh_def Let_def reg slot_or_new_def new_anchor_slot_def new_lease_slot_def hm_contains_def hm_get_def)
  obtain reg' where again: "handle_lease_refresh demo_failed [1] [8] True 2000000000 = (reg', Refresh_call)"
    and live: "live reg' = live demo_failed"
    by (simp add: handle_lease_refresh_def Let_def demo_failed_fields slot_or_new_def new_anchor_slot_def new_lease_slot_def
        hm_contains_def hm_get_def refresh_min_interval_def from_secs_def put_lease_def)
  have "spend_run h [1] (register_key new_registry (Token_key [1]) 7) []"
    using spend_step [OF spend_start, of "Register (Token_key [1]) 7" h "\<lambda>_. True" _ "[]" "[1]"] by (simp add: spends_def cong: if_cong)
  then have "spend_run h [1] demo_joined [0]"
    using spend_step [of h "[1]" "register_key new_registry (Token_key [1]) 7" "[]" "Refresh_request [1] [9] True 0" "\<lambda>_. True" demo_joined "[]"] call
    by (simp add: demo_joined_def [symmetric] spends_def demo_slot hm_contains_def hm_get_def)
  then have "spend_run h [1] demo_failed [0]"
    using spend_step [of h "[1]" demo_joined "[0]" "Refresh_done [1] [9] Lease_unavailable" "\<lambda>_. True" demo_failed "[]"]
    by (simp add: demo_failed_def [symmetric] spends_def demo_failed_fields hm_contains_def hm_get_def)
  then have "spend_run h [1] reg' [2000000000, 0]"
    using spend_step [of h "[1]" demo_failed "[0]" "Refresh_request [1] [8] True 2000000000" "\<lambda>_. True" reg' "[]"]
    by (simp add: again live spends_def demo_failed_fields hm_contains_def hm_get_def)
  then show ?thesis by blast
qed

theorem refresh_spends_are_spaced_witness: "[2000000000, 0] ! 1 + 2000000000 \<le> [2000000000, 0 :: instant] ! 0"
proof -
  obtain reg where "spend_run (\<lambda>n. []) [1] reg [2000000000, 0]" using demo_spends by blast
  from refresh_spends_are_spaced [OF this, of 0 1] show ?thesis by simp
qed

end
