(* ===== verification/Spec2Isabelle.thy ===== *)
theory Spec2Isabelle
  imports Natpmp_Allocator_Rate Natpmp_Server Natpmp_Client Replay Conn_Limit Exit_Gates Downlink_Flows Allowlist Session_Spends
begin

text \<open>
  WarrenGuard is a multi-hop VPN written in Rust. This library models the parts of it that hand out a
  shared resource or keep a bound: the port forwarding of an exit (a NAT-PMP server, its allocator, its
  nftables backend and the client that keeps a forward alive), the replay window of a multi-hop
  session, the backoff schedules and the connection rate limiter.

  \<^bold>\<open>How the parts interact.\<close> A client sends a NAT-PMP datagram through its tunnel
  (\<open>natpmp-client\<close>). The server of the exit parses it, checks the source and the credential, asks its
  backend, and answers (\<open>natpmp-server/server.rs\<close>). The backend asks the port allocator and installs
  the DNAT element in the kernel with \<open>nft\<close> (\<open>nftables.rs\<close>, \<open>allocator.rs\<close>). The client's refresh
  loop repeats the request at half of the lifetime.

  \<^bold>\<open>Conventions.\<close> Machine integers are words, \<open>Instant\<close> and \<open>Duration\<close> natural numbers of
  nanoseconds (\<open>saturating_duration_since\<close> is truncated subtraction), a \<open>HashMap\<close> an association list
  with one entry per key (Prelude, \<open>hmap\<close>), a \<open>Result\<close> a sum with the error on the left, a panic
  \<open>None\<close>. Code outside the repository is a parameter: the \<open>nft\<close> process and the kernel behind it, the
  random draws, the callbacks of the deployer, the network and the clock. What is relied on of \<open>nft\<close> is
  the predicate \<open>nft_contract\<close>, proved for an interpreter of the element commands (\<open>nft_exec\<close>).

  \<^bold>\<open>Theories.\<close>
    \<^item> Prelude: types, byte order, hash tables, the locales \<open>wire_codec\<close>, \<open>keyed_table\<close> and
      \<open>invariant_steps\<close>.
    \<^item> Natpmp_Wire (\<open>natpmp-protocol/src/lib.rs\<close>): requests, responses, the credential trailer; round
      trips in both directions and the exact set of accepted frames.
    \<^item> Natpmp_Allocator (\<open>natpmp-server/src/allocator.rs\<close>): the tables (record \<open>inner\<close>) and every
      operation on them, \<open>try_allocate\<close> cut at the comments of the source. Natpmp_Allocator_Inv and
      Natpmp_Allocator_Grants hold the invariant \<open>inner_inv\<close> and what a grant guarantees;
      Natpmp_Allocator_Props, Natpmp_Allocator_Ops and Natpmp_Allocator_Rate the properties: one owner
      per port, cooldown, quarantine, quota, rate limit over every execution, and that the request loop
      decides within four locks. The step relation \<open>alloc_step\<close> interleaves the critical sections of any
      number of threads, since every critical section of the source holds the one lock.
    \<^item> Natpmp_Nft and Natpmp_Backend (\<open>nftables.rs\<close>, \<open>stub_backend.rs\<close>): the rendered scripts and the
      two backends. Natpmp_Kernel: the kernel forwards only to the holders of mappings, in every state
      reachable through the backend.
    \<^item> Natpmp_Server (\<open>server.rs\<close>): dispatch, the credential gate, delete and map requests. What happens
      to a result at the deadline is the datatype \<open>delivery\<close>. The contract of a backend is the record
      \<open>port_forwarding\<close>, instantiated by \<open>nft_ops\<close> and \<open>stub_ops\<close>.
    \<^item> Natpmp_Client (\<open>natpmp-client/src/lib.rs\<close>, \<open>refresh.rs\<close>): the request with its doubling
      timeouts, and the refresh loop, one cycle at a time.
    \<^item> Replay (\<open>multihop/src/replay.rs\<close>): the bitmap window and its refinement of a window over the full
      set of accepted numbers.
    \<^item> Backoff (\<open>backoff/src/lib.rs\<close>) and Conn_Limit (\<open>ratelimit/src/connection_limiter.rs\<close>): the delay
      schedules and the bound on granted attempts.
    \<^item> This theory composes client, wire, server, backend and kernel.

  \<^bold>\<open>Bounds and fuel.\<close> The request loop of the allocator is a \<open>function\<close> with a termination measure, the
  number of unanswered questions. The attempts of a client request are bounded by its argument; the
  theorems ask for at most 56, below which the doubling timeout cannot saturate. The refresh loop runs
  over the list of inputs of its cycles, which stands for what the network did.

  \<^bold>\<open>Not modelled.\<close> Sockets, tasks and channels; QUIC, TLS, TUN devices, routing tables and firewalls of
  the operating systems, which only call libraries or external tools; the cryptography of sessions and
  tokens (primitives of other crates); the token buckets on \<open>f64\<close> of \<open>ratelimit\<close>; the traffic shaping
  machines, which are a library the sources only drive; metrics and configuration files.
\<close>

section \<open>From the client to the kernel\<close>

lemma response_fits: "take 64 (serialize_response resp) = serialize_response resp"
proof -
  have "length (serialize_response resp) \<le> 64"
    by (cases resp; cases "resp_rate_limit resp") (simp_all add: u16_to_be_def u32_to_be_def)
  then show ?thesis by simp
qed

lemma frame_fits: "recv_frame (request_bytes (Req_Map p iport sug life) credential)
    = request_bytes (Req_Map p iport sug life) credential"
  by (auto simp: recv_frame_def request_bytes_def append_credential_trailer_def Let_def u16_to_be_def u32_to_be_def
      split: option.splits)

lemma request_bytes_frame: "\<exists>trailer. request_bytes req credential = serialize_request req @ trailer"
  by (auto simp: request_bytes_def append_credential_trailer_def Let_def split: option.splits)

lemma read_success:
  assumes "read_response (serialize_response resp) = Inr m"
  shows "resp = Resp_Map (m_proto m) RC_Success (m_epoch_secs m) (m_internal_port m) (m_external_port m)
    (m_lifetime_secs m) (m_rate_limit m)"
  using assms response_codec.roundtrip [of resp]
  by (auto simp: read_response_def split: response.splits if_splits)


lemma demo_client_returns:
  "\<exists>m waited. request_map_with_credential
      (\<lambda>frame a. Datagram (snd (handle_one (nft_ops nft_exec) demo_server demo_request (recv_frame frame) (V4 167772162))))
      MP_Tcp 80 50000 600 1 (Some [1]) = Some (Inr m, waited)"
proof -
  have f: "request_bytes demo_map_request (Some [1]) = demo_frame"
    by (simp add: request_bytes_def append_credential_trailer_def demo_frame_def Let_def)
  obtain s' info where d: "dispatch (nft_ops nft_exec) demo_server demo_request demo_frame (V4 167772162)
      = (s', Resp_Map MP_Tcp RC_Success 10 80 50000 600 (Some info))" (is "_ = (s', ?r)")
    using demo_served by blast
  have "parse_response (serialize_response ?r) = Inr ?r" by (rule response_codec.roundtrip) simp
  then have "\<exists>m. read_response (serialize_response ?r) = Inr m" by (simp add: read_response_def)
  then show ?thesis
    using d frame_fits [of MP_Tcp 80 50000 600 "Some [1]"]
    by (simp add: request_map_with_credential_def f handle_one_def response_fits del: serialize_response.simps)
qed


end
